(* ===== verification/Prelude.thy ===== *)
theory Prelude
  imports Main "HOL-Library.Word"
begin

text \<open>
  Shared vocabulary of the development: the result type of code that may stop the process, run into
  undefined behaviour or loop for ever; the hint collections; and the list lemmas that the file,
  log and blockmap proofs use.
\<close>

section \<open>Hint collections\<close>

named_theorems lookup_laws \<open>equations for lookups after updates of maps, files and holders\<close>
named_theorems inv_intros \<open>preservation lemmas of the invariants\<close>
named_theorems outcome_simps \<open>rewriting of sequenced outcomes\<close>

section \<open>Outcomes of a call\<close>

text \<open>
  \<open>Ret\<close>: the call returns. \<open>Exited\<close>: the process calls \<open>exit(1)\<close>. \<open>Undef\<close>: the C++ behaviour is
  undefined (dereferencing an end iterator, reading an uninitialised buffer, signed overflow in a
  file offset). \<open>Diverge\<close>: the call never returns.
\<close>

datatype 'a outcome = Ret 'a | Exited | Undef | Diverge

definition obind :: "'a outcome \<Rightarrow> ('a \<Rightarrow> 'b outcome) \<Rightarrow> 'b outcome" where
  "obind r f = (case r of Ret x \<Rightarrow> f x | Exited \<Rightarrow> Exited | Undef \<Rightarrow> Undef | Diverge \<Rightarrow> Diverge)"

lemma obind_simps [simp, outcome_simps]:
  "obind (Ret x) f = f x" "obind Exited f = Exited" "obind Undef f = Undef"
  "obind Diverge f = Diverge"
  by (simp_all add: obind_def)

lemma obind_eq_Ret [simp, outcome_simps]:
  "obind r f = Ret y \<longleftrightarrow> (\<exists>x. r = Ret x \<and> f x = Ret y)"
  by (cases r) auto

lemma obind_assoc: "obind (obind r f) g = obind r (\<lambda>x. obind (f x) g)"
  by (cases r) auto

fun returns :: "'a outcome \<Rightarrow> bool" where
  "returns (Ret _) = True"
| "returns _ = False"

lemma returns_Ret: "returns r \<longleftrightarrow> (\<exists>x. r = Ret x)"
  by (cases r) auto

lemma returns_obind [simp, outcome_simps]:
  "returns (obind r f) \<longleftrightarrow> (\<exists>x. r = Ret x \<and> returns (f x))"
  by (cases r) auto

section \<open>Programs over a state\<close>

text \<open>
  Code that changes state and may leave early is a function from the state to a \<open>run\<close>:
  \<open>Done\<close> returns a value, \<open>Throw\<close> raises a C++ exception, \<open>Quit\<close> ends the process with
  \<open>exit(1)\<close> (the state, above all the files, outlives the process), \<open>Wrong\<close> is undefined
  behaviour and \<open>Loop\<close> a call that never returns.
\<close>

datatype ('e, 'a, 's) run = Done 'a 's | Throw 'e 's | Quit 's | Wrong | Loop

type_synonym ('e, 'a, 's) prog = "'s \<Rightarrow> ('e, 'a, 's) run"

definition pbind :: "('e, 'a, 's) prog \<Rightarrow> ('a \<Rightarrow> ('e, 'b, 's) prog) \<Rightarrow> ('e, 'b, 's) prog" where
  "pbind p f s = (case p s of Done x s' \<Rightarrow> f x s' | Throw e s' \<Rightarrow> Throw e s' | Quit s' \<Rightarrow> Quit s'
     | Wrong \<Rightarrow> Wrong | Loop \<Rightarrow> Loop)"

definition pseq :: "('e, 'a, 's) prog \<Rightarrow> ('e, 'b, 's) prog \<Rightarrow> ('e, 'b, 's) prog" where
  "pseq p q = pbind p (\<lambda>_. q)"

definition of_outcome :: "('a \<times> 's) outcome \<Rightarrow> 's \<Rightarrow> ('e, 'a, 's) run" where
  "of_outcome r s = (case r of Ret (x, s') \<Rightarrow> Done x s' | Exited \<Rightarrow> Quit s | Undef \<Rightarrow> Wrong
     | Diverge \<Rightarrow> Loop)"

lemma pbind_Done [outcome_simps]: "p s = Done x s' \<Longrightarrow> pbind p f s = f x s'"
  by (simp add: pbind_def)

lemma pseq_Done [outcome_simps]: "p s = Done x s' \<Longrightarrow> pseq p q s = q s'"
  by (simp add: pseq_def pbind_def)

lemma pbind_eq_Done [outcome_simps]:
  "pbind p f s = Done y s'' \<longleftrightarrow> (\<exists>x s'. p s = Done x s' \<and> f x s' = Done y s'')"
  by (cases "p s") (auto simp: pbind_def)

lemma pbind_eq_Throw [outcome_simps]:
  "pbind p f s = Throw e s'' \<longleftrightarrow>
     p s = Throw e s'' \<or> (\<exists>x s'. p s = Done x s' \<and> f x s' = Throw e s'')"
  by (cases "p s") (auto simp: pbind_def)

lemma pseq_eq_Done [outcome_simps]:
  "pseq p q s = Done y s'' \<longleftrightarrow> (\<exists>x s'. p s = Done x s' \<and> q s' = Done y s'')"
  by (simp add: pseq_def pbind_eq_Done)

lemma pbind_assoc: "pbind (pbind p f) g s = pbind p (\<lambda>x. pbind (f x) g) s"
  by (cases "p s") (auto simp: pbind_def)

text \<open>The state a run leaves behind for the rest of the system, if it ends at all.\<close>

fun final :: "('e, 'a, 's) run \<Rightarrow> 's option" where
  "final (Done x s) = Some s"
| "final (Throw e s) = Some s"
| "final (Quit s) = Some s"
| "final Wrong = None"
| "final Loop = None"

section \<open>Lists\<close>

lemma take_replicate_append [simp]:
  "length xs = n \<Longrightarrow> take n (xs @ ys) = xs" "length xs = n \<Longrightarrow> drop n (xs @ ys) = ys"
  by auto

lemma filter_neq_id: "x \<notin> set xs \<Longrightarrow> filter (\<lambda>y. y \<noteq> x) xs = xs"
  by (induction xs) auto

lemma removeAll_notin [simp]: "x \<notin> set xs \<Longrightarrow> removeAll x xs = xs"
  by (rule removeAll_id)

end
