(* ===== verification/StdMap.thy ===== *)
theory StdMap
  imports Prelude
begin

text \<open>
  \<open>std::map\<close> as the program uses it: an association list kept in ascending key order, because
  \<open>Transaction::commit\<close>, \<open>~Transaction\<close> and \<open>LogManager::doRecovery\<close> walk the map from
  \<open>begin()\<close> to \<open>end()\<close>. \<open>mfind\<close> is \<open>find\<close>, \<open>mput\<close> is \<open>m[k] = v\<close>, \<open>mupd\<close> a change of the value
  through an iterator, \<open>merase\<close> is \<open>erase\<close>, \<open>mmap\<close> a loop that changes every value in place.
  The locale states the laws the components rely on; the interpretation proves them.
\<close>

type_synonym ('k, 'v) stdmap = "('k \<times> 'v) list"

abbreviation mempty :: "('k, 'v) stdmap" where
  "mempty \<equiv> []"

definition mfind :: "('k, 'v) stdmap \<Rightarrow> 'k \<Rightarrow> 'v option" where
  "mfind m k = map_of m k"

fun mput :: "'k::linorder \<Rightarrow> 'v \<Rightarrow> ('k, 'v) stdmap \<Rightarrow> ('k, 'v) stdmap" where
  "mput k v [] = [(k, v)]"
| "mput k v ((a, b) # m) =
     (if k < a then (k, v) # (a, b) # m
      else if k = a then (k, v) # m
      else (a, b) # mput k v m)"

definition merase :: "'k \<Rightarrow> ('k, 'v) stdmap \<Rightarrow> ('k, 'v) stdmap" where
  "merase k m = filter (\<lambda>p. fst p \<noteq> k) m"

definition mupd :: "'k \<Rightarrow> ('v \<Rightarrow> 'v) \<Rightarrow> ('k, 'v) stdmap \<Rightarrow> ('k, 'v) stdmap" where
  "mupd k f m = map (\<lambda>(a, b). (a, if a = k then f b else b)) m"

definition mmap :: "('v \<Rightarrow> 'v) \<Rightarrow> ('k, 'v) stdmap \<Rightarrow> ('k, 'v) stdmap" where
  "mmap f m = map (\<lambda>(a, b). (a, f b)) m"

abbreviation mdom :: "('k, 'v) stdmap \<Rightarrow> 'k set" where
  "mdom m \<equiv> fst ` set m"

definition ordered :: "('k::linorder, 'v) stdmap \<Rightarrow> bool" where
  "ordered m = sorted_wrt (<) (map fst m)"

section \<open>The interface\<close>

locale finite_map =
  fixes find :: "'m \<Rightarrow> 'k \<Rightarrow> 'v option"
    and put :: "'k \<Rightarrow> 'v \<Rightarrow> 'm \<Rightarrow> 'm"
    and erase :: "'k \<Rightarrow> 'm \<Rightarrow> 'm"
    and upd :: "'k \<Rightarrow> ('v \<Rightarrow> 'v) \<Rightarrow> 'm \<Rightarrow> 'm"
    and mapall :: "('v \<Rightarrow> 'v) \<Rightarrow> 'm \<Rightarrow> 'm"
  assumes find_put: "find (put k v m) k' = (if k' = k then Some v else find m k')"
    and find_erase: "find (erase k m) k' = (if k' = k then None else find m k')"
    and find_upd: "find (upd k f m) k' = (if k' = k then map_option f (find m k') else find m k')"
    and find_mapall: "find (mapall f m) k' = map_option f (find m k')"
begin

lemma put_get [simp]: "find (put k v m) k = Some v"
  by (simp add: find_put)

lemma put_other: "k' \<noteq> k \<Longrightarrow> find (put k v m) k' = find m k'"
  by (simp add: find_put)

lemma erase_get [simp]: "find (erase k m) k = None"
  by (simp add: find_erase)

lemma upd_put: "find (upd k f (put k v m)) k' = find (put k (f v) m) k'"
  by (simp add: find_upd find_put)

lemma upd_missing: "find m k = None \<Longrightarrow> find (upd k f m) k' = find m k'"
  by (simp add: find_upd)

lemma upd_is_None [simp]: "find (upd k f m) k' = None \<longleftrightarrow> find m k' = None"
  by (simp add: find_upd)

lemma mapall_is_None [simp]: "find (mapall f m) k' = None \<longleftrightarrow> find m k' = None"
  by (simp add: find_mapall)

end

section \<open>The model provides it\<close>

lemma map_of_mput: "map_of (mput k v m) = (map_of m)(k \<mapsto> v)"
  by (induction k v m rule: mput.induct) (auto simp: fun_eq_iff)

lemma map_of_merase: "map_of (merase k m) = (map_of m)(k := None)"
  by (induction m) (auto simp: merase_def fun_eq_iff)

lemma map_of_mupd: "map_of (mupd k f m) k' =
    (if k' = k then map_option f (map_of m k') else map_of m k')"
  by (induction m) (auto simp: mupd_def)

lemma map_of_mmap: "map_of (mmap f m) k' = map_option f (map_of m k')"
  by (induction m) (auto simp: mmap_def)

interpretation sm: finite_map mfind mput merase mupd mmap
  by unfold_locales (auto simp: mfind_def map_of_mput map_of_merase map_of_mupd map_of_mmap)

lemmas mfind_laws [simp, lookup_laws] = sm.find_put sm.find_erase sm.find_upd sm.find_mapall

lemma mfind_empty [simp, lookup_laws]: "mfind [] k = None"
  by (simp add: mfind_def)

lemma mfind_Cons [simp]: "mfind ((a, b) # m) k = (if k = a then Some b else mfind m k)"
  by (auto simp: mfind_def)

lemma mfind_in_set: "mfind m k = Some v \<Longrightarrow> (k, v) \<in> set m"
  by (simp add: mfind_def map_of_SomeD)

lemma mfind_mdom: "k \<in> mdom m \<longleftrightarrow> mfind m k \<noteq> None"
  by (simp add: mfind_def map_of_eq_None_iff)

section \<open>Key order\<close>

lemma mdom_mput [simp]: "mdom (mput k v m) = insert k (mdom m)"
  by (induction k v m rule: mput.induct) auto

lemma ordered_Nil [simp]: "ordered []"
  by (simp add: ordered_def)

lemma ordered_Cons: "ordered ((a, b) # m) \<longleftrightarrow> (\<forall>x \<in> mdom m. a < x) \<and> ordered m"
  by (auto simp: ordered_def)

lemma ordered_mput [simp, inv_intros]: "ordered m \<Longrightarrow> ordered (mput k v m)"
  by (induction k v m rule: mput.induct) (auto simp: ordered_Cons)

lemma ordered_merase [simp, inv_intros]: "ordered m \<Longrightarrow> ordered (merase k m)"
  by (auto simp: ordered_def merase_def intro: sorted_wrt_filter
      simp flip: filter_map [of "\<lambda>x. x \<noteq> k" fst, unfolded o_def])

lemma map_fst_mupd [simp]: "map fst (mupd k f m) = map fst m"
  by (induction m) (auto simp: mupd_def)

lemma map_fst_mmap [simp]: "map fst (mmap f m) = map fst m"
  by (induction m) (auto simp: mmap_def)

lemma ordered_mupd [simp, inv_intros]: "ordered (mupd k f m) \<longleftrightarrow> ordered m"
  by (simp add: ordered_def)

lemma ordered_mmap [simp, inv_intros]: "ordered (mmap f m) \<longleftrightarrow> ordered m"
  by (simp add: ordered_def)

lemma ordered_distinct: "ordered m \<Longrightarrow> distinct (map fst m)"
  by (induction m) (auto simp: ordered_def)

lemma ordered_mfind: "ordered m \<Longrightarrow> (k, v) \<in> set m \<Longrightarrow> mfind m k = Some v"
  by (simp add: mfind_def ordered_distinct map_of_is_SomeI)

end
