(* ===== verification/Trq.thy ===== *)
theory Trq
  imports StdMap
begin

text \<open>
  The constants of \<open>config.h\<close> and the message type of \<open>trq.hh\<close>, at the widths of the C++ types:
  \<open>trid_t\<close> is \<open>unsigned long\<close> (64 bits), \<open>pid_t\<close> a 32-bit signed int, \<open>byte\<close> an unsigned char.
  Block numbers and file descriptors are C \<open>int\<close>s; the only arithmetic on them is the file offset
  computed in theory Files, which checks the range. \<open>time_t\<close> is counted in seconds.
\<close>

type_synonym trid_t = "64 word"
type_synonym pid_t = "32 word"
type_synonym byte = "8 word"
type_synonym block_no = int
type_synonym fd = int
type_synonym time_t = int

section \<open>config.h\<close>

definition BLOCKSIZE :: nat where "BLOCKSIZE = 4096"
definition NBLOCKS :: int where "NBLOCKS = 30"
definition MAXTIMEOUT :: "32 word" where "MAXTIMEOUT = 32"
definition TIMESLICE :: time_t where "TIMESLICE = 4"

lemma BLOCKSIZE_pos [simp]: "0 < BLOCKSIZE"
  by (simp add: BLOCKSIZE_def)

section \<open>trq.hh\<close>

datatype request_t = BEGIN | COMMIT | END | READ | WRITE | ABORT | ALLOCATE | RELEASE | RESTART

datatype reply_t = OK | NOT_OK | DIE

record trq =
  rq_tid :: trid_t
  rq_pid :: pid_t
  rq_request :: request_t
  rq_reply :: reply_t
  rq_block :: block_no

text \<open>
  The two enums of \<open>Transaction.hh\<close>; the log code that runs inside a transaction passes the
  exceptions on.
\<close>

datatype TransactionException = TE_ABORT | TE_RESTART | TE_FAIL

datatype locktype = A_LOCK | R_LOCK | W_LOCK | S_LOCK

text \<open>
  Two implicit conversions of C++ matter in \<open>Monitor.cc\<close>: a \<open>pid_t\<close> stored in a \<open>trid_t\<close> is
  sign-extended, a \<open>trid_t\<close> stored in a \<open>pid_t\<close> keeps its low 32 bits.
\<close>

definition pid_to_trid :: "pid_t \<Rightarrow> trid_t" where
  "pid_to_trid p = scast p"

definition trid_to_pid :: "trid_t \<Rightarrow> pid_t" where
  "trid_to_pid t = ucast t"

lemma trid_to_pid_to_trid: "trid_to_pid (pid_to_trid p) = p"
  unfolding trid_to_pid_def pid_to_trid_def
  by (rule bit_word_eqI) (auto simp: bit_simps)

end
