(* ===== verification/Heap.thy ===== *)
theory Heap
  imports Trq
begin

text \<open>
  The buffers of \<open>Transaction.cc\<close> are \<open>new byte[BLOCKSIZE]\<close> arrays reached through the pointers
  \<open>data\<close> and \<open>oldval\<close> of an \<open>mblock\<close>, which often point to the same array. The heap maps addresses
  to arrays; \<open>NULL\<close> is \<open>None\<close>. Reading or writing through \<open>NULL\<close> or a dangling pointer and deleting
  an array twice is undefined behaviour.
\<close>

type_synonym addr = nat
type_synonym ptr = "addr option"

abbreviation NULL :: ptr where "NULL \<equiv> None"

record mem =
  cells :: "addr \<Rightarrow> byte list option"
  fresh :: addr

definition empty_mem :: mem where
  "empty_mem = \<lparr>cells = (\<lambda>_. None), fresh = 0\<rparr>"

text \<open>\<open>new byte[BLOCKSIZE]\<close>: a new array, not initialised (the empty list stands for that).\<close>

definition new_buffer :: "mem \<Rightarrow> addr \<times> mem" where
  "new_buffer h = (fresh h, \<lparr>cells = (cells h)(fresh h \<mapsto> []), fresh = Suc (fresh h)\<rparr>)"

definition deref :: "mem \<Rightarrow> ptr \<Rightarrow> byte list outcome" where
  "deref h p = (case p of None \<Rightarrow> Undef
     | Some a \<Rightarrow> (case cells h a of None \<Rightarrow> Undef | Some v \<Rightarrow> Ret v))"

definition fill :: "ptr \<Rightarrow> byte list \<Rightarrow> mem \<Rightarrow> mem outcome" where
  "fill p v h = (case p of None \<Rightarrow> Undef
     | Some a \<Rightarrow> (case cells h a of None \<Rightarrow> Undef
         | Some _ \<Rightarrow> Ret (h\<lparr>cells := (cells h)(a \<mapsto> v)\<rparr>)))"

text \<open>\<open>delete p\<close>; deleting \<open>NULL\<close> does nothing.\<close>

definition delete_buffer :: "ptr \<Rightarrow> mem \<Rightarrow> mem outcome" where
  "delete_buffer p h = (case p of None \<Rightarrow> Ret h
     | Some a \<Rightarrow> (case cells h a of None \<Rightarrow> Undef
         | Some _ \<Rightarrow> Ret (h\<lparr>cells := (cells h)(a := None)\<rparr>)))"

text \<open>A new array that is filled at once, as most allocations are.\<close>

definition new_filled :: "byte list \<Rightarrow> mem \<Rightarrow> addr \<times> mem" where
  "new_filled v h = (fresh h, \<lparr>cells = (cells h)(fresh h \<mapsto> v), fresh = Suc (fresh h)\<rparr>)"

lemma fill_new: "obind (fill (Some (fst (new_buffer h))) v (snd (new_buffer h))) Ret =
    Ret (snd (new_filled v h))"
  by (simp add: fill_def new_buffer_def new_filled_def)

section \<open>Live and fresh addresses\<close>

definition live :: "mem \<Rightarrow> ptr \<Rightarrow> bool" where
  "live h p \<longleftrightarrow> (\<exists>a v. p = Some a \<and> cells h a = Some v)"

definition mem_ok :: "mem \<Rightarrow> bool" where
  "mem_ok h \<longleftrightarrow> (\<forall>a \<ge> fresh h. cells h a = None)"

lemma mem_ok_empty [simp]: "mem_ok empty_mem"
  by (simp add: mem_ok_def empty_mem_def)

lemma mem_ok_new [simp, inv_intros]: "mem_ok h \<Longrightarrow> mem_ok (snd (new_filled v h))"
  by (simp add: mem_ok_def new_filled_def)

lemma mem_ok_changes:
  "new_buffer h = (a, h') \<Longrightarrow> mem_ok h \<Longrightarrow> mem_ok h'"
  "fill p v h = Ret h' \<Longrightarrow> mem_ok h \<Longrightarrow> mem_ok h'"
  "delete_buffer p h = Ret h' \<Longrightarrow> mem_ok h \<Longrightarrow> mem_ok h'"
  by (auto simp: mem_ok_def new_buffer_def fill_def delete_buffer_def split: option.splits)

lemma deref_new [simp]: "deref (snd (new_filled v h)) (Some (fst (new_filled v h))) = Ret v"
  by (simp add: deref_def new_filled_def)

lemma deref_new_other: "mem_ok h \<Longrightarrow> live h p \<Longrightarrow> deref (snd (new_filled v h)) p = deref h p"
  by (auto simp: deref_def new_filled_def mem_ok_def live_def)

lemma live_deref: "live h p \<longleftrightarrow> (\<exists>v. deref h p = Ret v)"
  by (auto simp: live_def deref_def split: option.splits)

lemma live_new: "mem_ok h \<Longrightarrow> live h p \<Longrightarrow> live (snd (new_filled v h)) p"
  by (auto simp: live_def new_filled_def mem_ok_def)

lemma live_not_fresh: "mem_ok h \<Longrightarrow> live h p \<Longrightarrow> p \<noteq> Some (fst (new_filled v h))"
  by (auto simp: live_def mem_ok_def new_filled_def)

end
