(* ===== verification/Files.thy ===== *)
theory Files
  imports Trq
begin

text \<open>
  The two block files as POSIX files. A file is its list of bytes; \<open>pread\<close> and \<open>pwrite\<close> are
  \<open>lseek\<close> followed by \<open>read\<close> or \<open>write\<close>. The datastore is read and written in \<open>BLOCKSIZE\<close> bytes at
  offset \<open>(block-1)*BLOCKSIZE\<close>, computed in C \<open>int\<close>; the index holds one character per block. The
  locale \<open>cell_file\<close> is the view the transaction and the log code rely on: cells that can be
  read and written independently. Both files are proved to be instances.
\<close>

definition pread :: "'a list \<Rightarrow> nat \<Rightarrow> nat \<Rightarrow> 'a list" where
  "pread f off n = take n (drop off f)"

definition pwrite :: "'a \<Rightarrow> 'a list \<Rightarrow> nat \<Rightarrow> 'a list \<Rightarrow> 'a list" where
  "pwrite z f off bs = take off f @ replicate (off - length f) z @ bs @ drop (off + length bs) f"

lemma length_pwrite [simp]: "length (pwrite z f off bs) = max (length f) (off + length bs)"
  by (auto simp: pwrite_def)

lemma pread_pwrite_same [lookup_laws]:
  "length bs = n \<Longrightarrow> pread (pwrite z f off bs) off n = bs"
  by (auto simp: pread_def pwrite_def min_def)

lemma pread_pwrite_before [lookup_laws]:
  "off' + n \<le> off \<Longrightarrow> off' + n \<le> length f \<Longrightarrow> pread (pwrite z f off bs) off' n = pread f off' n"
  by (simp add: pread_def pwrite_def drop_take min_def)

lemma pread_pwrite_after [lookup_laws]:
  assumes "off + length bs \<le> off'" and "off + length bs \<le> length f"
  shows "pread (pwrite z f off bs) off' n = pread f off' n"
proof -
  have "drop off' (pwrite z f off bs) = drop off' f"
    using assms by (simp add: pwrite_def min_def)
  then show ?thesis by (simp add: pread_def)
qed

lemma pwrite_pread_id:
  assumes "off + n \<le> length f"
  shows "pwrite z f off (pread f off n) = f"
proof -
  have "take n (drop off f) @ drop (off + n) f = drop off f"
    by (metis append_take_drop_id drop_drop add.commute)
  with assms show ?thesis by (simp add: pwrite_def pread_def)
qed

lemma length_pread: "off + n \<le> length f \<Longrightarrow> length (pread f off n) = n"
  by (simp add: pread_def)

lemma pwrite_inside:
  "off + length bs \<le> length f \<Longrightarrow> pwrite z f off bs = take off f @ bs @ drop (off + length bs) f"
  by (simp add: pwrite_def)

lemma pwrite_nth:
  assumes "off + length bs \<le> length f" "i < length f"
  shows "pwrite z f off bs ! i =
    (if off \<le> i \<and> i < off + length bs then bs ! (i - off) else f ! i)"
  using assms by (auto simp: pwrite_inside nth_append min_def)

lemma pwrite_commute:
  assumes "off + length bs \<le> off' \<or> off' + length bs' \<le> off"
    and "off + length bs \<le> length f" "off' + length bs' \<le> length f"
  shows "pwrite z (pwrite z f off' bs') off bs = pwrite z (pwrite z f off bs) off' bs'"
  using assms by (intro nth_equalityI) (auto simp: pwrite_nth)

section \<open>Files of independent cells\<close>

locale cell_file =
  fixes valid :: "'f \<Rightarrow> block_no \<Rightarrow> bool"
    and get :: "'f \<Rightarrow> block_no \<Rightarrow> 'v"
    and put :: "block_no \<Rightarrow> 'v \<Rightarrow> 'f \<Rightarrow> 'f"
    and good :: "'v \<Rightarrow> bool"
  assumes get_put: "valid f b \<Longrightarrow> good v \<Longrightarrow> get (put b v f) b = v"
    and get_put_other: "valid f b \<Longrightarrow> good v \<Longrightarrow> valid f b' \<Longrightarrow> b' \<noteq> b \<Longrightarrow>
      get (put b v f) b' = get f b'"
    and valid_put: "valid f b \<Longrightarrow> good v \<Longrightarrow> valid (put b v f) b' = valid f b'"
    and good_get: "valid f b \<Longrightarrow> good (get f b)"
    and put_get: "valid f b \<Longrightarrow> put b (get f b) f = f"
    and put_commute: "valid f b \<Longrightarrow> good v \<Longrightarrow> valid f b' \<Longrightarrow> good v' \<Longrightarrow> b' \<noteq> b \<Longrightarrow>
      put b v (put b' v' f) = put b' v' (put b v f)"
begin

lemma get_put_if:
  "valid f b \<Longrightarrow> good v \<Longrightarrow> valid f b' \<Longrightarrow> get (put b v f) b' = (if b' = b then v else get f b')"
  using get_put get_put_other by simp

lemma put_restores:
  "valid f b \<Longrightarrow> good v \<Longrightarrow> valid f b' \<Longrightarrow> get (put b (get f b) (put b v f)) b' = get f b'"
  by (simp add: get_put_if valid_put good_get)

end

section \<open>The index file\<close>

definition index_valid :: "char list \<Rightarrow> block_no \<Rightarrow> bool" where
  "index_valid f b \<longleftrightarrow> 1 \<le> b \<and> b \<le> int (length f)"

definition index_get :: "char list \<Rightarrow> block_no \<Rightarrow> char" where
  "index_get f b = f ! nat (b - 1)"

definition index_put :: "block_no \<Rightarrow> char \<Rightarrow> char list \<Rightarrow> char list" where
  "index_put b c f = pwrite (CHR 0x00) f (nat (b - 1)) [c]"

lemma index_put_update: "index_valid f b \<Longrightarrow> index_put b c f = f[nat (b - 1) := c]"
proof -
  assume "index_valid f b"
  then have "nat (b - 1) < length f" by (auto simp: index_valid_def)
  then show ?thesis by (simp add: index_put_def pwrite_def upd_conv_take_nth_drop)
qed

interpretation ix: cell_file index_valid index_get index_put "\<lambda>c. True"
proof (unfold_locales, goal_cases)
  case (1 f b v)
  then show ?case by (auto simp: index_put_update index_get_def index_valid_def)
next
  case (2 f b v b')
  then have "nat (b' - 1) \<noteq> nat (b - 1)" by (auto simp: index_valid_def)
  with 2 show ?case by (simp add: index_put_update index_get_def)
next
  case (3 f b v b')
  then show ?case by (simp add: index_put_update) (simp add: index_valid_def)
next
  case (5 f b)
  then show ?case by (simp add: index_put_update) (simp add: index_get_def)
next
  case (6 f b v b' v')
  have len: "index_valid (f[i := c]) x = index_valid f x" for i c x
    by (simp add: index_valid_def)
  have "nat (b' - 1) \<noteq> nat (b - 1)" using 6 by (auto simp: index_valid_def)
  then show ?case using 6 by (simp add: index_put_update len list_update_swap)
qed simp

section \<open>The datastore\<close>

text \<open>The offset is an \<open>int\<close> product; past \<open>2^31\<close> it overflows, below block 1 the seek fails.\<close>

definition store_offset :: "block_no \<Rightarrow> int" where
  "store_offset b = (b - 1) * int BLOCKSIZE"

definition offset_ok :: "block_no \<Rightarrow> bool" where
  "offset_ok b \<longleftrightarrow> 0 \<le> store_offset b \<and> store_offset b < 2 ^ 31"

definition store_valid :: "byte list \<Rightarrow> block_no \<Rightarrow> bool" where
  "store_valid f b \<longleftrightarrow> offset_ok b \<and> nat (store_offset b) + BLOCKSIZE \<le> length f"

definition store_get :: "byte list \<Rightarrow> block_no \<Rightarrow> byte list" where
  "store_get f b = pread f (nat (store_offset b)) BLOCKSIZE"

definition store_put :: "block_no \<Rightarrow> byte list \<Rightarrow> byte list \<Rightarrow> byte list" where
  "store_put b bs f = pwrite 0 f (nat (store_offset b)) bs"

definition is_block :: "byte list \<Rightarrow> bool" where
  "is_block bs \<longleftrightarrow> length bs = BLOCKSIZE"

lemma store_offset_apart:
  assumes "offset_ok b" "offset_ok b'" "b' < b"
  shows "nat (store_offset b') + BLOCKSIZE \<le> nat (store_offset b)"
proof -
  have "store_offset b' + int BLOCKSIZE = b' * int BLOCKSIZE"
    by (simp add: store_offset_def algebra_simps)
  also have "\<dots> \<le> (b - 1) * int BLOCKSIZE"
    using assms(3) by (intro mult_right_mono) auto
  finally show ?thesis using assms(1,2) by (simp add: store_offset_def offset_ok_def)
qed

lemma offset_ok_pos: "offset_ok b \<Longrightarrow> 1 \<le> b"
  by (rule ccontr) (simp add: offset_ok_def store_offset_def zero_le_mult_iff BLOCKSIZE_def)

interpretation sf: cell_file store_valid store_get store_put is_block
proof (unfold_locales, goal_cases)
  case (1 f b v)
  then show ?case by (simp add: store_get_def store_put_def is_block_def pread_pwrite_same)
next
  case (2 f b v b')
  then have ok: "offset_ok b" "offset_ok b'" "length v = BLOCKSIZE"
    "nat (store_offset b) + BLOCKSIZE \<le> length f" "nat (store_offset b') + BLOCKSIZE \<le> length f"
    by (auto simp: store_valid_def is_block_def)
  show ?case
  proof (cases "b' < b")
    case True
    with store_offset_apart [OF ok(1,2)] ok show ?thesis
      by (simp add: store_get_def store_put_def pread_pwrite_before)
  next
    case False
    with 2(4) store_offset_apart [OF ok(2,1)] ok show ?thesis
      by (simp add: store_get_def store_put_def pread_pwrite_after)
  qed
next
  case (3 f b v b')
  then show ?case by (auto simp: store_valid_def store_put_def is_block_def)
next
  case (4 f b)
  then show ?case by (simp add: store_valid_def is_block_def store_get_def length_pread)
next
  case (5 f b)
  then show ?case by (simp add: store_valid_def store_get_def store_put_def pwrite_pread_id)
next
  case (6 f b v b' v')
  then have ok: "offset_ok b" "offset_ok b'" "length v = BLOCKSIZE" "length v' = BLOCKSIZE"
    "nat (store_offset b) + BLOCKSIZE \<le> length f" "nat (store_offset b') + BLOCKSIZE \<le> length f"
    by (auto simp: store_valid_def is_block_def)
  show ?case
  proof (cases "b' < b")
    case True
    with store_offset_apart [OF ok(1,2)] ok show ?thesis
      by (simp add: store_put_def pwrite_commute)
  next
    case False
    with 6(5) have "b < b'" by simp
    with store_offset_apart [OF ok(2,1)] ok show ?thesis
      by (simp add: store_put_def pwrite_commute)
  qed
qed

text \<open>Blocks up to \<open>NBLOCKS\<close> stay far inside the range of \<open>int\<close>.\<close>

lemma offset_ok_NBLOCKS: "1 \<le> b \<Longrightarrow> b \<le> NBLOCKS \<Longrightarrow> offset_ok b"
  by (simp add: offset_ok_def store_offset_def BLOCKSIZE_def NBLOCKS_def)

end
