(* ===== verification/LogManager.thy ===== *)
theory LogManager
  imports Files
begin

text \<open>
  \<open>LogManager.hh\<close> and \<open>LogManager.cc\<close>: the log records, the four files of the store, and one
  definition per member function. The binary log is a list of records, because every write to it
  is one \<open>logrecord\<close> at a multiple of its size; \<open>logfd\<close> is the offset of the open descriptor, in
  records. It starts at 0 in every \<open>LogManager\<close> object: the constructor opens the file without
  \<open>O_APPEND\<close> and does not seek.

  \<open>bad\<close> is the environment: the set of system calls that fail, so that each error branch of the code
  is a branch of the model. A failed call changes nothing; torn writes are not modelled.
\<close>

section \<open>LogManager.hh\<close>

datatype logAction = LREAD | LWRITE | LALLOCATE | LABORT | LRELEASE | LBEGIN | LEND | LCOMMIT

record logrecord =
  lr_tid :: trid_t
  lr_action :: logAction
  lr_block :: block_no
  lr_oindex :: char
  lr_oldval :: "byte list"

text \<open>A record after \<open>bzero\<close>.\<close>

definition zero_rec :: logrecord where
  "zero_rec = \<lparr>lr_tid = 0, lr_action = LREAD, lr_block = 0, lr_oindex = CHR 0x00,
     lr_oldval = replicate BLOCKSIZE 0\<rparr>"

section \<open>The files\<close>

record disk =
  index_f :: "char list"
  store_f :: "byte list"
  log_f :: "logrecord list"
  alog_f :: string

datatype iocall = OpenStore | OpenIndex | OpenLog | OpenAlog
  | ReadIndex block_no | WriteIndex block_no | ReadStore block_no | WriteStore block_no
  | ReadLog nat | WriteLog nat

type_synonym env = "iocall set"

text \<open>The answer \<open>False\<close> or \<open>None\<close> is the return value -1 of the call.\<close>

definition write_index :: "env \<Rightarrow> block_no \<Rightarrow> char \<Rightarrow> disk \<Rightarrow> (bool \<times> disk) outcome" where
  "write_index bad b c d =
     (if b < 1 then Undef
      else if WriteIndex b \<notin> bad then Ret (True, d\<lparr>index_f := index_put b c (index_f d)\<rparr>)
      else Ret (False, d))"

definition write_store :: "env \<Rightarrow> block_no \<Rightarrow> byte list \<Rightarrow> disk \<Rightarrow> (bool \<times> disk) outcome" where
  "write_store bad b bs d =
     (if \<not> offset_ok b then Undef
      else if WriteStore b \<notin> bad then Ret (True, d\<lparr>store_f := store_put b bs (store_f d)\<rparr>)
      else Ret (False, d))"

definition read_store :: "env \<Rightarrow> block_no \<Rightarrow> disk \<Rightarrow> (byte list option) outcome" where
  "read_store bad b d =
     (if \<not> offset_ok b then Undef
      else if ReadStore b \<notin> bad
      then if is_block (store_get (store_f d) b) then Ret (Some (store_get (store_f d) b)) else Undef
      else Ret None)"

definition read_index :: "env \<Rightarrow> block_no \<Rightarrow> disk \<Rightarrow> (char option) outcome" where
  "read_index bad b d =
     (if b < 1 then Undef
      else if ReadIndex b \<notin> bad
      then if index_valid (index_f d) b then Ret (Some (index_get (index_f d) b)) else Undef
      else Ret None)"

section \<open>Text of the ascii log\<close>

fun action_char :: "logAction \<Rightarrow> char" where
  "action_char LREAD = CHR ''R''"
| "action_char LWRITE = CHR ''W''"
| "action_char LALLOCATE = CHR ''A''"
| "action_char LABORT = CHR ''T''"
| "action_char LRELEASE = CHR ''S''"
| "action_char LBEGIN = CHR ''B''"
| "action_char LEND = CHR ''E''"
| "action_char LCOMMIT = CHR ''C''"

definition val_string :: "byte list \<Rightarrow> string" where
  "val_string bs = map (\<lambda>b. char_of (unat b)) bs"

fun dec_nat :: "nat \<Rightarrow> string" where
  "dec_nat n = (if n < 10 then [char_of (48 + n)] else dec_nat (n div 10) @ [char_of (48 + n mod 10)])"

declare dec_nat.simps [simp del]

definition dec_int :: "int \<Rightarrow> string" where
  "dec_int i = (if i < 0 then CHR ''-'' # dec_nat (nat (- i)) else dec_nat (nat i))"

abbreviation TAB :: char where "TAB \<equiv> CHR 0x09"
abbreviation NL :: char where "NL \<equiv> CHR 0x0A"

section \<open>The object\<close>

record logmgr =
  logfd :: nat
  dsk :: disk

type_synonym 'a logprog = "(TransactionException, 'a, logmgr) prog"

definition open_logmgr :: "env \<Rightarrow> disk \<Rightarrow> (TransactionException, unit, logmgr) run" where
  "open_logmgr bad d =
     (let s = \<lparr>logfd = 0, dsk = d\<rparr> in
      if OpenStore \<notin> bad \<and> OpenIndex \<notin> bad \<and> OpenLog \<notin> bad \<and> OpenAlog \<notin> bad then Done () s else Quit s)"

definition append_alog :: "string \<Rightarrow> logmgr \<Rightarrow> logmgr" where
  "append_alog x s = s\<lparr>dsk := (dsk s)\<lparr>alog_f := alog_f (dsk s) @ x\<rparr>\<rparr>"

text \<open>\<open>::write(logfd, ...)\<close>: at the offset of the descriptor, which then moves on.\<close>

definition put_record :: "logrecord \<Rightarrow> logmgr \<Rightarrow> logmgr" where
  "put_record r s =
     s\<lparr>logfd := Suc (logfd s),
       dsk := (dsk s)\<lparr>log_f := pwrite zero_rec (log_f (dsk s)) (logfd s) [r]\<rparr>\<rparr>"

definition write_record :: "env \<Rightarrow> logrecord \<Rightarrow> unit logprog" where
  "write_record bad r s =
     (if WriteLog (logfd s) \<notin> bad then Done () (put_record r s) else Quit s)"

definition mk_record :: "trid_t \<Rightarrow> logAction \<Rightarrow> block_no \<Rightarrow> char \<Rightarrow> byte list option \<Rightarrow> logrecord" where
  "mk_record t a b oi ov =
     zero_rec\<lparr>lr_tid := t, lr_action := a, lr_block := b, lr_oindex := oi,
       lr_oldval := (case ov of None \<Rightarrow> lr_oldval zero_rec | Some v \<Rightarrow> v)\<rparr>"

definition lm_log ::
  "env \<Rightarrow> trid_t \<Rightarrow> logAction \<Rightarrow> block_no \<Rightarrow> char \<Rightarrow> byte list option \<Rightarrow> unit logprog" where
  "lm_log bad t a b oi ov s =
     write_record bad (mk_record t a b oi ov)
       (append_alog (dec_nat (unat t) @ [TAB] @ [action_char a, TAB]
          @ (if b \<noteq> 0 then dec_int b @ [TAB] else [])
          @ [oi, TAB]
          @ (case ov of None \<Rightarrow> [] | Some v \<Rightarrow> val_string v @ [TAB]) @ [NL]) s)"

section \<open>Undoing a list of records\<close>

definition undo_write_index :: "env \<Rightarrow> block_no \<Rightarrow> char \<Rightarrow> unit logprog" where
  "undo_write_index bad b c s =
     (case write_index bad b c (dsk s) of
        Ret (done, d') \<Rightarrow> if done then Done () (s\<lparr>dsk := d'\<rparr>) else Quit s
      | Exited \<Rightarrow> Quit s | Undef \<Rightarrow> Wrong | Diverge \<Rightarrow> Loop)"

definition undo_one :: "env \<Rightarrow> logrecord \<Rightarrow> unit logprog" where
  "undo_one bad p s =
     (case lr_action p of
        LWRITE \<Rightarrow>
          (case write_store bad (lr_block p) (lr_oldval p) (dsk s) of
             Ret (done, d') \<Rightarrow> if done then Done () (s\<lparr>dsk := d'\<rparr>) else Quit s
           | Exited \<Rightarrow> Quit s | Undef \<Rightarrow> Wrong | Diverge \<Rightarrow> Loop)
      | LALLOCATE \<Rightarrow> undo_write_index bad (lr_block p) (CHR ''U'') s
      | LRELEASE \<Rightarrow>
          pseq (undo_write_index bad (lr_block p) (lr_oindex p))
            (\<lambda>s1. if lr_oindex p = CHR ''A''
              then (case write_store bad (lr_block p) (lr_oldval p) (dsk s1) of
                      Ret (done, d') \<Rightarrow> Done () (s1\<lparr>dsk := d'\<rparr>)
                    | Exited \<Rightarrow> Quit s1 | Undef \<Rightarrow> Wrong | Diverge \<Rightarrow> Loop)
              else Done () s1) s
      | _ \<Rightarrow> Done () s)"

fun undo_rec :: "env \<Rightarrow> logrecord list \<Rightarrow> unit logprog" where
  "undo_rec bad [] = Done ()"
| "undo_rec bad (p # ps) = pseq (undo_one bad p) (undo_rec bad ps)"

definition seek_end :: "logmgr \<Rightarrow> logmgr" where
  "seek_end s = s\<lparr>logfd := length (log_f (dsk s))\<rparr>"

definition write_abort_rec :: "env \<Rightarrow> trid_t \<Rightarrow> unit logprog" where
  "write_abort_rec bad t =
     pseq (write_record bad (zero_rec\<lparr>lr_tid := t, lr_action := LABORT\<rparr>))
          (\<lambda>s. Done () (append_alog (dec_nat (unat t) @ [TAB, CHR ''T'', NL]) s))"

section \<open>Online rollback\<close>

text \<open>
  The backward walk over the log. At offset 0 the relative seek by one record fails and leaves the
  offset, so the walk reads the first record again and again: \<open>None\<close> is a walk that never ends. On
  an empty file the read delivers nothing and \<open>lgr\<close> is used uninitialised.
\<close>

datatype scan = Collected "logrecord list" | EndFound | ScanExit | ScanUndef

partial_function (option) rollback_scan ::
  "env \<Rightarrow> logrecord list \<Rightarrow> trid_t \<Rightarrow> nat \<Rightarrow> logrecord list \<Rightarrow> scan option" where
  "rollback_scan bad recs t off acc =
     (let o1 = (if off = 0 then 0 else off - 1) in
      if ReadLog o1 \<in> bad then Some ScanExit
      else if length recs \<le> o1 then Some ScanUndef
      else let lgr = recs ! o1 in
        if lr_tid lgr = t then
          if lr_action lgr = LEND then Some EndFound
          else if lr_action lgr = LBEGIN then Some (Collected (acc @ [lgr]))
          else rollback_scan bad recs t o1 (acc @ [lgr])
        else rollback_scan bad recs t o1 acc)"

definition front_tid :: "logrecord list \<Rightarrow> trid_t outcome" where
  "front_tid l = (case l of [] \<Rightarrow> Undef | p # _ \<Rightarrow> Ret (lr_tid p))"

definition abort_front :: "env \<Rightarrow> logrecord list \<Rightarrow> unit logprog" where
  "abort_front bad l s =
     (case front_tid l of Ret t \<Rightarrow> write_abort_rec bad t (seek_end s) | _ \<Rightarrow> Wrong)"

definition rollback :: "env \<Rightarrow> trid_t \<Rightarrow> unit logprog" where
  "rollback bad t s =
     (if OpenLog \<in> bad then Quit s
      else case rollback_scan bad (log_f (dsk s)) t (length (log_f (dsk s))) [] of
          None \<Rightarrow> Loop
        | Some EndFound \<Rightarrow> Done () s
        | Some ScanExit \<Rightarrow> Quit s
        | Some ScanUndef \<Rightarrow> Wrong
        | Some (Collected l) \<Rightarrow> pseq (undo_rec bad l) (abort_front bad l) s)"

section \<open>Offline recovery\<close>

text \<open>The forward pass keeps, per transaction, the records since its last END or ABORT.\<close>

definition collect_step ::
  "(trid_t, logrecord list) stdmap \<Rightarrow> logrecord \<Rightarrow> (trid_t, logrecord list) stdmap" where
  "collect_step bts lgr =
     (let bts1 = (if mfind bts (lr_tid lgr) = None then mput (lr_tid lgr) [] bts else bts) in
      if lr_action lgr = LEND \<or> lr_action lgr = LABORT then merase (lr_tid lgr) bts1
      else mupd (lr_tid lgr) (\<lambda>l. l @ [lgr]) bts1)"

definition collect :: "logrecord list \<Rightarrow> (trid_t, logrecord list) stdmap" where
  "collect recs = foldl collect_step [] recs"

definition readable :: "env \<Rightarrow> logrecord list \<Rightarrow> logrecord list" where
  "readable bad recs = map snd (takeWhile (\<lambda>p. ReadLog (fst p) \<notin> bad) (enumerate 0 recs))"

fun undo_broken :: "env \<Rightarrow> (trid_t \<times> logrecord list) list \<Rightarrow> unit logprog" where
  "undo_broken bad [] = Done ()"
| "undo_broken bad ((t, l) # bts) =
     pseq (undo_rec bad l) (pseq (abort_front bad l) (undo_broken bad bts))"

text \<open>\<open>recs\<close> is the content of the file named by the argument, \<open>LOGFILE\<close> by default.\<close>

definition doRecovery :: "env \<Rightarrow> logrecord list \<Rightarrow> unit logprog" where
  "doRecovery bad recs s =
     (if OpenLog \<in> bad then Quit s else undo_broken bad (collect (readable bad recs)) s)"

text \<open>\<open>recover.cc\<close>: a fresh log manager, then recovery from the log file itself.\<close>

definition recover_main :: "env \<Rightarrow> disk \<Rightarrow> (TransactionException, unit, logmgr) run" where
  "recover_main bad d =
     (case open_logmgr bad d of
        Done _ s \<Rightarrow> doRecovery bad (log_f (dsk s)) s
      | r \<Rightarrow> r)"

section \<open>initstore.cc\<close>

definition initstore :: disk where
  "initstore = \<lparr>index_f = replicate (nat NBLOCKS) (CHR ''U''),
     store_f = replicate (nat NBLOCKS * BLOCKSIZE) 48, log_f = [], alog_f = []\<rparr>"

end
