(* ===== verification/Transaction.thy ===== *)
theory Transaction
  imports Heap LogManager
begin

text \<open>
  \<open>Transaction.hh\<close> and \<open>Transaction.cc\<close>: the client library. One definition per member function,
  over the state of the process that runs the transaction. \<open>srv\<close> is everything behind the socket
  (the monitor, and the other processes that run while this one waits for a reply); it is reached
  only through the record \<open>tpm\<close>: \<open>ask\<close> sends a request and waits for the reply, which may change
  \<open>srv\<close> and the files, and \<open>bye\<close> closes the connection. The monitor of theory Monitor is one
  instance.
\<close>

section \<open>Transaction.hh\<close>

record mblock =
  lock :: locktype
  data :: ptr
  oldval :: ptr
  oldindex :: char

record 'm cstate =
  tid :: trid_t
  pid :: pid_t
  error_occured :: bool
  last_sleep :: "32 word"
  last_free_block :: int
  bmap :: "(block_no, mblock) stdmap"
  heap :: mem
  lfd :: nat
  files :: disk
  sleeps :: "32 word list"
  srv :: 'm

type_synonym ('a, 'm) cprog = "(TransactionException, 'a, 'm cstate) prog"

record 'm tpm =
  ask :: "trq \<Rightarrow> disk \<Rightarrow> 'm \<Rightarrow> (trq \<times> disk \<times> 'm) outcome"
  bye :: "disk \<Rightarrow> 'm \<Rightarrow> disk \<times> 'm"

section \<open>Leaving and talking to the monitor\<close>

text \<open>\<open>abort()\<close>.\<close>

definition tx_abort :: "('a, 'm) cprog" where
  "tx_abort s = Throw TE_ABORT (s\<lparr>error_occured := True\<rparr>)"

text \<open>
  \<open>ask_tpm\<close> returns whether the reply is OK, with the reply. \<open>Exited\<close> is a failed \<open>send\<close> or \<open>recv\<close>,
  which ends the process; \<open>Undef\<close> is a closed connection, after which the reply is uninitialised.
\<close>

definition ask_tpm :: "'m tpm \<Rightarrow> request_t \<Rightarrow> block_no \<Rightarrow> (bool \<times> trq, 'm) cprog" where
  "ask_tpm T rqt b s =
     (case ask T \<lparr>rq_tid = tid s, rq_pid = pid s, rq_request = rqt, rq_reply = OK, rq_block = b\<rparr>
             (files s) (srv s) of
        Ret (rply, d', m') \<Rightarrow>
          let s1 = s\<lparr>files := d', srv := m'\<rparr> in
          if rq_reply rply = DIE then tx_abort s1 else Done (rq_reply rply = OK, rply) s1
      | Exited \<Rightarrow> Quit s | Undef \<Rightarrow> Wrong | Diverge \<Rightarrow> Loop)"

definition sleeptime :: "32 word \<Rightarrow> 32 word" where
  "sleeptime n = push_bit (unat n) 1"

definition backoff_sleep :: "(unit, 'm) cprog" where
  "backoff_sleep s =
     (if unat (last_sleep s) \<ge> 32 then Wrong
      else let st = sleeptime (last_sleep s); s1 = s\<lparr>last_sleep := last_sleep s + 1\<rparr> in
        if st > MAXTIMEOUT then tx_abort s1
        else Done () (s1\<lparr>sleeps := sleeps s1 @ [st]\<rparr>))"

definition restart :: "'m tpm \<Rightarrow> ('a, 'm) cprog" where
  "restart T =
     pbind (ask_tpm T RESTART 0) (\<lambda>(okay, _).
       if \<not> okay then tx_abort
       else pseq backoff_sleep (\<lambda>s. Throw TE_RESTART (s\<lparr>error_occured := True\<rparr>)))"

section \<open>The index\<close>

text \<open>\<open>throw TE_ABORT\<close> without \<open>abort()\<close>: \<open>error_occured\<close> keeps its value.\<close>

definition throw_abort :: "('a, 'm) cprog" where
  "throw_abort s = Throw TE_ABORT s"

definition is_allocated :: "env \<Rightarrow> block_no \<Rightarrow> (bool, 'm) cprog" where
  "is_allocated bad b s =
     (if b > NBLOCKS then Done False s
      else case read_index bad b (files s) of
          Ret (Some c) \<Rightarrow> Done (c = CHR ''A'') s
        | Ret None \<Rightarrow> tx_abort s
        | Exited \<Rightarrow> Quit s | Undef \<Rightarrow> Wrong | Diverge \<Rightarrow> Loop)"

text \<open>
  The loop of \<open>find_free_block\<close> over the bytes of the index from block \<open>b\<close> on: the new value of
  \<open>last_free_block\<close>, and whether a free block was found before the end of the file. A failing read
  returns -1, which the loop takes for a byte: it spins on the stale byte until the counter
  overflows.
\<close>

fun scan_free :: "env \<Rightarrow> char list \<Rightarrow> int \<Rightarrow> (int \<times> bool) outcome" where
  "scan_free bad [] b = Ret (b, False)"
| "scan_free bad (c # cs) b =
     (if ReadIndex b \<in> bad then Undef
      else if c = CHR ''U'' then Ret (b, True)
      else scan_free bad cs (b + 1))"

definition find_free_block :: "'m tpm \<Rightarrow> env \<Rightarrow> (int, 'm) cprog" where
  "find_free_block T bad s =
     (let b = last_free_block s + 1 in
      if b < 1 then Wrong
      else case scan_free bad (drop (nat (b - 1)) (index_f (files s))) b of
          Ret (b', found) \<Rightarrow>
            let s1 = s\<lparr>last_free_block := b'\<rparr> in
            if found then Done b' s1 else restart T s1
        | Exited \<Rightarrow> Quit s | Undef \<Rightarrow> Wrong | Diverge \<Rightarrow> Loop)"

section \<open>Heap access of the library\<close>

definition tx_new :: "(addr, 'm) cprog" where
  "tx_new s = (let (a, h) = new_buffer (heap s) in Done a (s\<lparr>heap := h\<rparr>))"

definition tx_fill :: "ptr \<Rightarrow> byte list \<Rightarrow> (unit, 'm) cprog" where
  "tx_fill p v s = (case fill p v (heap s) of Ret h \<Rightarrow> Done () (s\<lparr>heap := h\<rparr>) | _ \<Rightarrow> Wrong)"

definition tx_deref :: "ptr \<Rightarrow> (byte list, 'm) cprog" where
  "tx_deref p s = (case deref (heap s) p of Ret v \<Rightarrow> Done v s | _ \<Rightarrow> Wrong)"

definition tx_delete :: "ptr \<Rightarrow> (unit, 'm) cprog" where
  "tx_delete p s = (case delete_buffer p (heap s) of Ret h \<Rightarrow> Done () (s\<lparr>heap := h\<rparr>) | _ \<Rightarrow> Wrong)"

definition set_entry :: "block_no \<Rightarrow> mblock \<Rightarrow> (unit, 'm) cprog" where
  "set_entry b mb s = Done () (s\<lparr>bmap := mput b mb (bmap s)\<rparr>)"

text \<open>Reading a block of the datastore; a failing read aborts the transaction.\<close>

definition tx_read_store :: "env \<Rightarrow> block_no \<Rightarrow> (byte list, 'm) cprog" where
  "tx_read_store bad b s =
     (case read_store bad b (files s) of
        Ret (Some v) \<Rightarrow> Done v s
      | Ret None \<Rightarrow> tx_abort s
      | Exited \<Rightarrow> Quit s | Undef \<Rightarrow> Wrong | Diverge \<Rightarrow> Loop)"

section \<open>allocate\<close>

partial_function (option) allocate_loop ::
  "'m tpm \<Rightarrow> env \<Rightarrow> 'm cstate \<Rightarrow> (TransactionException, int, 'm cstate) run option" where
  "allocate_loop T bad s =
     (case find_free_block T bad s of
        Done b s1 \<Rightarrow>
          (case ask_tpm T ALLOCATE b s1 of
             Done r s2 \<Rightarrow> if fst r then Some (Done b s2) else allocate_loop T bad s2
           | Throw e s2 \<Rightarrow> Some (Throw e s2)
           | Quit s2 \<Rightarrow> Some (Quit s2) | Wrong \<Rightarrow> Some Wrong | Loop \<Rightarrow> Some Loop)
      | Throw e s1 \<Rightarrow> Some (Throw e s1)
      | Quit s1 \<Rightarrow> Some (Quit s1) | Wrong \<Rightarrow> Some Wrong | Loop \<Rightarrow> Some Loop)"

definition zeros :: "byte list" where
  "zeros = replicate BLOCKSIZE 48"

definition allocate :: "'m tpm \<Rightarrow> env \<Rightarrow> (int, 'm) cprog" where
  "allocate T bad =
     pbind (\<lambda>s. case allocate_loop T bad s of None \<Rightarrow> Loop | Some r \<Rightarrow> r) (\<lambda>fblock.
       pbind tx_new (\<lambda>a.
         pseq (tx_fill (Some a) zeros)
           (pseq (set_entry fblock \<lparr>lock = A_LOCK, data = Some a, oldval = Some a, oldindex = CHR ''U''\<rparr>)
             (Done fblock))))"

section \<open>read\<close>

definition read_from_store :: "'m tpm \<Rightarrow> env \<Rightarrow> block_no \<Rightarrow> (ptr, 'm) cprog" where
  "read_from_store T bad b =
     pbind (is_allocated bad b) (\<lambda>al.
       if \<not> al then tx_abort
       else pbind (ask_tpm T READ b) (\<lambda>(okay, _).
         if \<not> okay then restart T
         else pbind tx_new (\<lambda>a.
           pbind (tx_read_store bad b) (\<lambda>v.
             pseq (tx_fill (Some a) v)
               (pseq (set_entry b \<lparr>lock = R_LOCK, data = Some a, oldval = Some a, oldindex = CHR ''A''\<rparr>)
                 (Done (Some a)))))))"

definition tx_read :: "'m tpm \<Rightarrow> env \<Rightarrow> block_no \<Rightarrow> (ptr, 'm) cprog" where
  "tx_read T bad b s =
     (if b \<le> 0 then throw_abort s
      else case mfind (bmap s) b of
          Some mb \<Rightarrow> if lock mb = S_LOCK then tx_abort s else Done (data mb) s
        | None \<Rightarrow> read_from_store T bad b s)"

section \<open>write\<close>

text \<open>Dropping the read buffer before an upgrade: \<open>delete data; data = NULL\<close>, \<open>oldval\<close> stays.\<close>

definition drop_read_buffer :: "block_no \<Rightarrow> mblock \<Rightarrow> (unit, 'm) cprog" where
  "drop_read_buffer b mb =
     pseq (if data mb \<noteq> NULL then tx_delete (data mb) else Done ())
       (\<lambda>s. Done () (s\<lparr>bmap := mupd b (\<lambda>mb. mb\<lparr>data := NULL\<rparr>) (bmap s)\<rparr>))"

definition write_to_store :: "'m tpm \<Rightarrow> env \<Rightarrow> block_no \<Rightarrow> byte list \<Rightarrow> (byte list, 'm) cprog" where
  "write_to_store T bad b newval =
     pbind (is_allocated bad b) (\<lambda>al.
       if \<not> al then tx_abort
       else pbind (ask_tpm T WRITE b) (\<lambda>(okay, _).
         if \<not> okay then restart T
         else pbind (tx_read_store bad b) (\<lambda>old.
           pbind tx_new (\<lambda>saved.
             pseq (tx_fill (Some saved) old)
               (pbind tx_new (\<lambda>a.
                 pseq (tx_fill (Some a) newval)
                   (pseq (set_entry b \<lparr>lock = W_LOCK, data = Some a, oldval = Some saved,
                                        oldindex = CHR ''A''\<rparr>)
                     (Done old))))))))"

text \<open>The result is what \<open>memcpy\<close> puts into the caller's \<open>oldval\<close> buffer.\<close>

definition tx_write :: "'m tpm \<Rightarrow> env \<Rightarrow> block_no \<Rightarrow> byte list \<Rightarrow> (byte list, 'm) cprog" where
  "tx_write T bad b newval s =
     (if b \<le> 0 then throw_abort s
      else case mfind (bmap s) b of
          None \<Rightarrow> write_to_store T bad b newval s
        | Some mb \<Rightarrow>
            (case lock mb of
               S_LOCK \<Rightarrow> tx_abort s
             | R_LOCK \<Rightarrow> pseq (drop_read_buffer b mb) (write_to_store T bad b newval) s
             | _ \<Rightarrow> pbind (tx_deref (data mb)) (\<lambda>old.
                      pseq (tx_fill (data mb) newval) (Done old)) s))"

section \<open>release\<close>

definition release_in_store :: "'m tpm \<Rightarrow> env \<Rightarrow> block_no \<Rightarrow> (unit, 'm) cprog" where
  "release_in_store T bad b =
     pbind (is_allocated bad b) (\<lambda>al.
       if \<not> al then tx_abort
       else pbind (ask_tpm T RELEASE b) (\<lambda>(okay, _).
         if \<not> okay then restart T
         else pbind tx_new (\<lambda>a.
           pbind (tx_read_store bad b) (\<lambda>v.
             pseq (tx_fill (Some a) v)
               (set_entry b \<lparr>lock = S_LOCK, data = Some a, oldval = Some a, oldindex = CHR ''A''\<rparr>)))))"

definition tx_release :: "'m tpm \<Rightarrow> env \<Rightarrow> block_no \<Rightarrow> (unit, 'm) cprog" where
  "tx_release T bad b s =
     (if b \<le> 0 then throw_abort s
      else case mfind (bmap s) b of
          None \<Rightarrow> release_in_store T bad b s
        | Some mb \<Rightarrow>
            (case lock mb of
               R_LOCK \<Rightarrow> pseq (drop_read_buffer b mb) (release_in_store T bad b) s
             | _ \<Rightarrow> Done () (s\<lparr>bmap := mupd b (\<lambda>mb. mb\<lparr>lock := S_LOCK\<rparr>) (bmap s)\<rparr>)))"

section \<open>commit\<close>

definition tx_log ::
  "env \<Rightarrow> logAction \<Rightarrow> block_no \<Rightarrow> char \<Rightarrow> byte list option \<Rightarrow> (unit, 'm) cprog" where
  "tx_log bad a b oi ov s =
     (case lm_log bad (tid s) a b oi ov \<lparr>logfd = lfd s, dsk = files s\<rparr> of
        Done _ l \<Rightarrow> Done () (s\<lparr>lfd := logfd l, files := dsk l\<rparr>)
      | Throw e l \<Rightarrow> Throw e (s\<lparr>lfd := logfd l, files := dsk l\<rparr>)
      | Quit l \<Rightarrow> Quit (s\<lparr>lfd := logfd l, files := dsk l\<rparr>)
      | Wrong \<Rightarrow> Wrong | Loop \<Rightarrow> Loop)"

definition put_index :: "env \<Rightarrow> block_no \<Rightarrow> char \<Rightarrow> (unit, 'm) cprog" where
  "put_index bad b c s =
     (case write_index bad b c (files s) of
        Ret (okay, d') \<Rightarrow> if okay then Done () (s\<lparr>files := d'\<rparr>) else tx_abort s
      | Exited \<Rightarrow> Quit s | Undef \<Rightarrow> Wrong | Diverge \<Rightarrow> Loop)"

definition put_store :: "env \<Rightarrow> block_no \<Rightarrow> byte list \<Rightarrow> (unit, 'm) cprog" where
  "put_store bad b v s =
     (case write_store bad b v (files s) of
        Ret (okay, d') \<Rightarrow> if okay then Done () (s\<lparr>files := d'\<rparr>) else tx_abort s
      | Exited \<Rightarrow> Quit s | Undef \<Rightarrow> Wrong | Diverge \<Rightarrow> Loop)"

text \<open>The argument \<open>(void * )oldval\<close> of \<open>log\<close>: no value for \<open>NULL\<close>.\<close>

definition oldval_arg :: "ptr \<Rightarrow> (byte list option, 'm) cprog" where
  "oldval_arg p = (if p = NULL then Done None else pbind (tx_deref p) (\<lambda>v. Done (Some v)))"

definition commit_entry :: "env \<Rightarrow> block_no \<Rightarrow> mblock \<Rightarrow> (unit, 'm) cprog" where
  "commit_entry bad b mb =
     (case lock mb of
        A_LOCK \<Rightarrow>
          pseq (tx_log bad LALLOCATE b (CHR '' '') None)
            (pseq (put_index bad b (CHR ''A''))
              (pbind (tx_deref (data mb)) (put_store bad b)))
      | W_LOCK \<Rightarrow>
          pbind (oldval_arg (oldval mb)) (\<lambda>ov.
            pseq (tx_log bad LWRITE b (oldindex mb) ov)
              (pbind (tx_deref (data mb)) (put_store bad b)))
      | S_LOCK \<Rightarrow>
          pbind (oldval_arg (oldval mb)) (\<lambda>ov.
            pseq (tx_log bad LRELEASE b (oldindex mb) ov) (put_index bad b (CHR ''U'')))
      | R_LOCK \<Rightarrow> tx_log bad LREAD b (CHR '' '') None)"

fun commit_entries :: "env \<Rightarrow> (block_no \<times> mblock) list \<Rightarrow> (unit, 'm) cprog" where
  "commit_entries bad [] = Done ()"
| "commit_entries bad ((b, mb) # es) = pseq (commit_entry bad b mb) (commit_entries bad es)"

definition commit :: "'m tpm \<Rightarrow> env \<Rightarrow> (unit, 'm) cprog" where
  "commit T bad =
     pbind (ask_tpm T COMMIT 0) (\<lambda>(okay, _).
       if \<not> okay then tx_abort
       else pseq (tx_log bad LBEGIN 0 (CHR '' '') None)
         (pseq (\<lambda>s. commit_entries bad (bmap s) s)
           (pseq (tx_log bad LEND 0 (CHR '' '') None)
             (pbind (ask_tpm T END 0) (\<lambda>(okay, _). if \<not> okay then throw_abort else Done ())))))"

text \<open>\<open>lock\<close> and \<open>unlock\<close> are empty: locks are taken by the requests above and given back by the monitor.\<close>

definition tx_lock :: "block_no \<Rightarrow> locktype \<Rightarrow> (unit, 'm) cprog" where
  "tx_lock b l s = Done () s"

definition tx_unlock :: "block_no \<Rightarrow> (unit, 'm) cprog" where
  "tx_unlock b s = Done () s"

section \<open>Construction and destruction\<close>

text \<open>
  \<open>createSocket\<close> and \<open>connectSocket\<close> either succeed or end the program (theory Transport); as in every
  request, that the monitor cannot be reached is the answer \<open>Exited\<close> of \<open>ask\<close>.
\<close>

definition construct :: "'m tpm \<Rightarrow> env \<Rightarrow> pid_t \<Rightarrow> (unit, 'm) cprog" where
  "construct T bad p s =
     (let s1 = s\<lparr>tid := 0, pid := p, error_occured := False, last_free_block := 0, bmap := mempty,
                 lfd := 0\<rparr> in
      if OpenStore \<in> bad \<or> OpenIndex \<in> bad \<or> OpenLog \<in> bad \<or> OpenAlog \<in> bad then Quit s1
      else pbind (ask_tpm T BEGIN 0) (\<lambda>(okay, rq) s2.
             if \<not> okay then Quit s2 else Done () (s2\<lparr>tid := rq_tid rq\<rparr>)) s1)"

definition free_entry :: "mblock \<Rightarrow> (unit, 'm) cprog" where
  "free_entry mb =
     pseq (if oldval mb \<noteq> data mb \<and> oldval mb \<noteq> NULL then tx_delete (oldval mb) else Done ())
       (if data mb \<noteq> NULL then tx_delete (data mb) else Done ())"

fun free_entries :: "(block_no \<times> mblock) list \<Rightarrow> (unit, 'm) cprog" where
  "free_entries [] = Done ()"
| "free_entries ((b, mb) # es) = pseq (free_entry mb) (free_entries es)"

definition close_connection :: "'m tpm \<Rightarrow> (unit, 'm) cprog" where
  "close_connection T s =
     (let (d', m') = bye T (files s) (srv s) in Done () (s\<lparr>files := d', srv := m'\<rparr>))"

definition destruct :: "'m tpm \<Rightarrow> env \<Rightarrow> (unit, 'm) cprog" where
  "destruct T bad =
     pseq (\<lambda>s. if \<not> error_occured s then commit T bad s else Done () s)
       (pseq (\<lambda>s. free_entries (bmap s) s) (close_connection T))"

section \<open>Begin(T) ... End(T)\<close>

text \<open>
  One pass through the block. When an exception leaves the body, the destructor runs during stack
  unwinding; an exception of its own then terminates the process.
\<close>

definition run_once ::
  "'m tpm \<Rightarrow> env \<Rightarrow> pid_t \<Rightarrow> ('a, 'm) cprog \<Rightarrow> (unit, 'm) cprog" where
  "run_once T bad p body =
     pseq (construct T bad p) (\<lambda>s.
       case body s of
         Done _ s1 \<Rightarrow> destruct T bad s1
       | Throw e s1 \<Rightarrow>
           (case destruct T bad s1 of
              Done _ s2 \<Rightarrow> Throw e s2
            | Throw _ s2 \<Rightarrow> Quit s2
            | Quit s2 \<Rightarrow> Quit s2 | Wrong \<Rightarrow> Wrong | Loop \<Rightarrow> Loop)
       | Quit s1 \<Rightarrow> Quit s1 | Wrong \<Rightarrow> Wrong | Loop \<Rightarrow> Loop)"

text \<open>
  The catch clause of \<open>End\<close>: restart goes back to \<open>begin_transaction\<close>, abort is \<open>exit(1)\<close>. None is a loop of
  restarts without end, \<open>Some Loop\<close> an attempt with a call that does not return.
\<close>

partial_function (option) transaction_loop ::
  "'m tpm \<Rightarrow> env \<Rightarrow> pid_t \<Rightarrow> ('a, 'm) cprog \<Rightarrow> 'm cstate \<Rightarrow>
   (TransactionException, unit, 'm cstate) run option" where
  "transaction_loop T bad p body s =
     (case run_once T bad p body s of
        Throw e s1 \<Rightarrow>
          (case e of
             TE_RESTART \<Rightarrow> transaction_loop T bad p body s1
           | TE_ABORT \<Rightarrow> Some (Quit s1)
           | TE_FAIL \<Rightarrow> Some (Done () s1))
      | Done x s1 \<Rightarrow> Some (Done x s1)
      | Quit s1 \<Rightarrow> Some (Quit s1) | Wrong \<Rightarrow> Some Wrong | Loop \<Rightarrow> Some Loop)"

text \<open>A process before its first transaction.\<close>

definition new_process :: "disk \<Rightarrow> 'm \<Rightarrow> 'm cstate" where
  "new_process d m = \<lparr>tid = 0, pid = 0, error_occured = False, last_sleep = 0, last_free_block = 0,
     bmap = mempty, heap = empty_mem, lfd = 0, files = d, sleeps = [], srv = m\<rparr>"

end
