(* ===== verification/Triples.thy ===== *)
theory Triples
  imports Prelude
begin

text \<open>
  Pre- and postconditions of programs that may throw, exit, go wrong or loop. \<open>triple w P p Q X\<close>:
  started in a state of \<open>P\<close>, \<open>p\<close> returns in \<open>Q\<close>; if it throws \<open>e\<close> the state is in \<open>X (Some e)\<close>, if it
  exits in \<open>X None\<close>; it goes wrong or loops only if \<open>w\<close> allows it.
\<close>

fun post ::
  "bool \<Rightarrow> ('a \<Rightarrow> 's \<Rightarrow> bool) \<Rightarrow> ('e option \<Rightarrow> 's \<Rightarrow> bool) \<Rightarrow> ('e, 'a, 's) run \<Rightarrow> bool" where
  "post w Q X (Done x s) = Q x s"
| "post w Q X (Throw e s) = X (Some e) s"
| "post w Q X (Quit s) = X None s"
| "post w Q X Wrong = w"
| "post w Q X Loop = w"

definition triple ::
  "bool \<Rightarrow> ('s \<Rightarrow> bool) \<Rightarrow> ('e, 'a, 's) prog \<Rightarrow> ('a \<Rightarrow> 's \<Rightarrow> bool) \<Rightarrow> ('e option \<Rightarrow> 's \<Rightarrow> bool) \<Rightarrow> bool"
where
  "triple w P p Q X \<longleftrightarrow> (\<forall>s. P s \<longrightarrow> post w Q X (p s))"

lemma post_mono:
  "post w Q' X' r \<Longrightarrow> (\<And>x s. Q' x s \<Longrightarrow> Q x s) \<Longrightarrow> (\<And>e s. X' e s \<Longrightarrow> X e s) \<Longrightarrow> post w Q X r"
  by (cases r) auto

lemma post_bind:
  "post w R X (p s) \<Longrightarrow> (\<And>x s'. R x s' \<Longrightarrow> post w Q X (f x s')) \<Longrightarrow> post w Q X (pbind p f s)"
  by (cases "p s") (auto simp: pbind_def)

lemma tripleI: "(\<And>s. P s \<Longrightarrow> post w Q X (p s)) \<Longrightarrow> triple w P p Q X"
  by (simp add: triple_def)

lemma tripleD: "triple w P p Q X \<Longrightarrow> P s \<Longrightarrow> post w Q X (p s)"
  by (simp add: triple_def)

lemma triple_Done: "(\<And>s. P s \<Longrightarrow> Q x s) \<Longrightarrow> triple w P (Done x) Q X"
  by (simp add: triple_def)

lemma triple_pbind:
  "triple w P p R X \<Longrightarrow> (\<And>x. triple w (R x) (f x) Q X) \<Longrightarrow> triple w P (pbind p f) Q X"
  unfolding triple_def by (blast intro: post_bind)

lemma triple_pseq:
  assumes "triple w P p (\<lambda>_. R) X" "triple w R q Q X"
  shows "triple w P (pseq p q) Q X"
  using assms by (auto simp: pseq_def intro: triple_pbind)

lemma triple_if:
  assumes "c \<Longrightarrow> triple w P p Q X" "\<not> c \<Longrightarrow> triple w P q Q X"
  shows "triple w P (if c then p else q) Q X"
  using assms by simp

lemma triple_conseq:
  assumes "triple w P' p Q' X'" "\<And>s. P s \<Longrightarrow> P' s" "\<And>x s. Q' x s \<Longrightarrow> Q x s"
    "\<And>e s. X' e s \<Longrightarrow> X e s"
  shows "triple w P p Q X"
  using assms unfolding triple_def by (blast intro: post_mono)

lemma triple_state: "(\<And>s0. P s0 \<Longrightarrow> triple w (\<lambda>s. s = s0) p Q X) \<Longrightarrow> triple w P p Q X"
  by (auto simp: triple_def)

end
