(* ===== verification/Recovery.thy ===== *)
theory Recovery
  imports LogManager
begin

text \<open>
  What the log manager's code achieves: the backward walk of \<open>rollback\<close> ends exactly when the log
  holds a BEGIN or END record of the transaction; \<open>undo_rec\<close> restores the cells its records name and
  no others, in any order; \<open>collect\<close> finds the unfinished transactions; a finished recovery leaves
  none.
\<close>

text \<open>The environment in which no system call fails.\<close>

abbreviation no_faults :: env where
  "no_faults \<equiv> {}"

section \<open>The backward walk\<close>

definition ends_walk :: "trid_t \<Rightarrow> logrecord \<Rightarrow> bool" where
  "ends_walk t r \<longleftrightarrow> lr_tid r = t \<and> (lr_action r = LEND \<or> lr_action r = LBEGIN)"

fun walk :: "trid_t \<Rightarrow> logrecord list \<Rightarrow> logrecord list \<Rightarrow> scan option" where
  "walk t [] acc = None"
| "walk t (r # rs) acc =
     (if lr_tid r = t then
        if lr_action r = LEND then Some EndFound
        else if lr_action r = LBEGIN then Some (Collected (acc @ [r]))
        else walk t rs (acc @ [r])
      else walk t rs acc)"

lemma scan_stuck_aux:
  assumes "rollback_scan bad recs t off acc = Some r"
  shows "\<not> (off = 0 \<and> recs \<noteq> [] \<and> ReadLog 0 \<notin> bad \<and> \<not> ends_walk t (recs ! 0))"
proof (rule rollback_scan.raw_induct
    [where P = "\<lambda>bad recs t off acc r.
        \<not> (off = 0 \<and> recs \<noteq> [] \<and> ReadLog 0 \<notin> bad \<and> \<not> ends_walk t (recs ! 0))", OF _ assms])
  fix f :: "env \<Rightarrow> logrecord list \<Rightarrow> trid_t \<Rightarrow> nat \<Rightarrow> logrecord list \<Rightarrow> scan option"
    and bad recs t off acc r
  assume IH: "\<And>bad recs t off acc r. f bad recs t off acc = Some r \<Longrightarrow>
      \<not> (off = 0 \<and> recs \<noteq> [] \<and> ReadLog 0 \<notin> bad \<and> \<not> ends_walk t (recs ! 0))"
    and eq: "(let o1 = (if off = 0 then 0 else off - 1) in
      if ReadLog o1 \<in> bad then Some ScanExit
      else if length recs \<le> o1 then Some ScanUndef
      else let lgr = recs ! o1 in
        if lr_tid lgr = t then
          if lr_action lgr = LEND then Some EndFound
          else if lr_action lgr = LBEGIN then Some (Collected (acc @ [lgr]))
          else f bad recs t o1 (acc @ [lgr])
        else f bad recs t o1 acc) = Some r"
  show "\<not> (off = 0 \<and> recs \<noteq> [] \<and> ReadLog 0 \<notin> bad \<and> \<not> ends_walk t (recs ! 0))"
  proof
    assume stuck: "off = 0 \<and> recs \<noteq> [] \<and> ReadLog 0 \<notin> bad \<and> \<not> ends_walk t (recs ! 0)"
    with eq obtain acc' where "f bad recs t 0 acc' = Some r"
      by (auto simp: ends_walk_def Let_def split: if_splits)
    from IH [OF this] stuck show False by blast
  qed
qed

lemma scan_stuck:
  "recs \<noteq> [] \<Longrightarrow> ReadLog 0 \<notin> bad \<Longrightarrow> \<not> ends_walk t (recs ! 0) \<Longrightarrow>
   rollback_scan bad recs t 0 acc = None"
  using scan_stuck_aux by (metis not_None_eq)

lemma scan_walk:
  assumes "n \<le> length recs" "recs \<noteq> []" "\<forall>i < n. ReadLog i \<notin> bad" "ReadLog 0 \<notin> bad"
    and "n = 0 \<Longrightarrow> \<not> ends_walk t (recs ! 0)"
  shows "rollback_scan bad recs t n acc = walk t (rev (take n recs)) acc"
  using assms
proof (induction n arbitrary: acc)
  case 0
  then show ?case by (simp add: scan_stuck)
next
  case (Suc n)
  let ?r = "recs ! n"
  have tk: "rev (take (Suc n) recs) = ?r # rev (take n recs)"
    using Suc.prems(1) by (simp add: take_Suc_conv_app_nth)
  show ?case
  proof (cases "ends_walk t ?r")
    case True
    then show ?thesis using Suc.prems(1,3)
      by (subst rollback_scan.simps) (auto simp: tk ends_walk_def)
  next
    case False
    have IH: "rollback_scan bad recs t n acc' = walk t (rev (take n recs)) acc'" for acc'
      using Suc.IH Suc.prems False by (cases "n = 0") auto
    have "rollback_scan bad recs t (Suc n) acc =
        (if lr_tid ?r = t then rollback_scan bad recs t n (acc @ [?r])
         else rollback_scan bad recs t n acc)"
      using Suc.prems(1,3) False by (subst rollback_scan.simps) (auto simp: ends_walk_def)
    then show ?thesis using False by (simp add: tk IH ends_walk_def)
  qed
qed

lemma scan_whole:
  "recs \<noteq> [] \<Longrightarrow>
   rollback_scan no_faults recs t (length recs) [] = walk t (rev recs) []"
  by (subst scan_walk) auto

lemma walk_None: "walk t rs acc = None \<longleftrightarrow> (\<forall>r \<in> set rs. \<not> ends_walk t r)"
  by (induction t rs acc rule: walk.induct) (auto simp: ends_walk_def)

text \<open>Records of other transactions in front do not matter.\<close>

lemma walk_skip: "\<forall>r \<in> set rs. lr_tid r \<noteq> t \<Longrightarrow> walk t (rs @ rs') acc = walk t rs' acc"
  by (induction rs arbitrary: acc) auto

lemma walk_collect:
  "\<forall>r \<in> set rs. lr_tid r = t \<and> \<not> ends_walk t r \<Longrightarrow> walk t (rs @ rs') acc = walk t rs' (acc @ rs)"
  by (induction rs arbitrary: acc) (auto simp: ends_walk_def)

section \<open>The effect of one undone record\<close>

fun undo_eff :: "logrecord \<Rightarrow> disk \<Rightarrow> disk" where
  "undo_eff p d =
     (case lr_action p of
        LWRITE \<Rightarrow> d\<lparr>store_f := store_put (lr_block p) (lr_oldval p) (store_f d)\<rparr>
      | LALLOCATE \<Rightarrow> d\<lparr>index_f := index_put (lr_block p) (CHR ''U'') (index_f d)\<rparr>
      | LRELEASE \<Rightarrow>
          if lr_oindex p = CHR ''A''
          then d\<lparr>index_f := index_put (lr_block p) (lr_oindex p) (index_f d),
                 store_f := store_put (lr_block p) (lr_oldval p) (store_f d)\<rparr>
          else d\<lparr>index_f := index_put (lr_block p) (lr_oindex p) (index_f d)\<rparr>
      | _ \<Rightarrow> d)"

declare undo_eff.simps [simp del]

definition undo_all :: "logrecord list \<Rightarrow> disk \<Rightarrow> disk" where
  "undo_all rs d = foldl (\<lambda>d r. undo_eff r d) d rs"

text \<open>The records whose undoing stays inside the files.\<close>

definition block_valid :: "disk \<Rightarrow> block_no \<Rightarrow> bool" where
  "block_valid d b \<longleftrightarrow> index_valid (index_f d) b \<and> store_valid (store_f d) b"

definition effective :: "logAction \<Rightarrow> bool" where
  "effective a \<longleftrightarrow> a = LWRITE \<or> a = LALLOCATE \<or> a = LRELEASE"

definition rec_ok :: "disk \<Rightarrow> logrecord \<Rightarrow> bool" where
  "rec_ok d r \<longleftrightarrow> (effective (lr_action r) \<longrightarrow> block_valid d (lr_block r) \<and> is_block (lr_oldval r))"

lemma block_valid_pos: "block_valid d b \<Longrightarrow> 1 \<le> b \<and> offset_ok b"
  by (simp add: block_valid_def index_valid_def store_valid_def)

lemma undo_one_eff:
  assumes "rec_ok (dsk s) r"
  shows "undo_one no_faults r s = Done () (s\<lparr>dsk := undo_eff r (dsk s)\<rparr>)"
proof -
  have "effective (lr_action r) \<Longrightarrow> 1 \<le> lr_block r \<and> offset_ok (lr_block r)"
    using assms by (auto simp: rec_ok_def dest: block_valid_pos)
  then show ?thesis
    by (cases "lr_action r")
      (auto simp: undo_one_def undo_eff.simps effective_def write_store_def undo_write_index_def
        write_index_def pseq_def pbind_def)
qed

lemma block_valid_undo_eff [simp]:
  "rec_ok d r \<Longrightarrow> block_valid (undo_eff r d) b = block_valid d b"
  by (cases "lr_action r")
    (auto simp: undo_eff.simps block_valid_def rec_ok_def effective_def ix.valid_put sf.valid_put)

lemma rec_ok_undo_eff [simp]: "rec_ok d r \<Longrightarrow> rec_ok (undo_eff r d) r' = rec_ok d r'"
  by (simp add: rec_ok_def [of _ r'])

lemma undo_eff_log [simp]: "log_f (undo_eff r d) = log_f d" "alog_f (undo_eff r d) = alog_f d"
  by (cases "lr_action r"; simp add: undo_eff.simps)+

lemma undo_rec_all:
  assumes "\<forall>r \<in> set rs. rec_ok (dsk s) r"
  shows "undo_rec no_faults rs s = Done () (s\<lparr>dsk := undo_all rs (dsk s)\<rparr>)"
  using assms
proof (induction rs arbitrary: s)
  case Nil
  show ?case by (simp add: undo_all_def)
next
  case (Cons r rs)
  then show ?case
    using Cons.IH [of "s\<lparr>dsk := undo_eff r (dsk s)\<rparr>"]
    by (simp add: pseq_def pbind_def undo_one_eff undo_all_def)
qed

section \<open>Undoing touches the named cells only\<close>

definition dindex :: "disk \<Rightarrow> block_no \<Rightarrow> char" where
  "dindex d b = index_get (index_f d) b"

definition dblock :: "disk \<Rightarrow> block_no \<Rightarrow> byte list" where
  "dblock d b = store_get (store_f d) b"

text \<open>The records of a list that undo something on block \<open>b\<close>.\<close>

definition touches :: "logrecord \<Rightarrow> block_no \<Rightarrow> bool" where
  "touches r b \<longleftrightarrow> effective (lr_action r) \<and> lr_block r = b"

lemma undo_eff_other [lookup_laws]:
  assumes "rec_ok d r" "block_valid d b" "\<not> touches r b"
  shows "dindex (undo_eff r d) b = dindex d b" "dblock (undo_eff r d) b = dblock d b"
  using assms
  by (cases "lr_action r"; auto simp: undo_eff.simps rec_ok_def block_valid_def dindex_def dblock_def
      touches_def effective_def ix.get_put_other sf.get_put_other)+

lemma undo_eff_same [lookup_laws]:
  assumes "rec_ok d r" "touches r b"
  shows "dindex (undo_eff r d) b =
      (case lr_action r of LALLOCATE \<Rightarrow> CHR ''U'' | LRELEASE \<Rightarrow> lr_oindex r | _ \<Rightarrow> dindex d b)"
    and "dblock (undo_eff r d) b =
      (case lr_action r of LWRITE \<Rightarrow> lr_oldval r
       | LRELEASE \<Rightarrow> if lr_oindex r = CHR ''A'' then lr_oldval r else dblock d b
       | _ \<Rightarrow> dblock d b)"
  using assms
  by (cases "lr_action r"; auto simp: undo_eff.simps rec_ok_def block_valid_def dindex_def dblock_def
      touches_def effective_def ix.get_put sf.get_put)+

lemma undo_all_simps [simp]:
  "undo_all [] d = d" "undo_all (r # rs) d = undo_all rs (undo_eff r d)"
  "undo_all (rs @ rs') d = undo_all rs' (undo_all rs d)"
  by (simp_all add: undo_all_def)

lemma undo_all_valid:
  assumes "\<forall>r \<in> set rs. rec_ok d r"
  shows "block_valid (undo_all rs d) b = block_valid d b" "rec_ok (undo_all rs d) r' = rec_ok d r'"
    "log_f (undo_all rs d) = log_f d" "alog_f (undo_all rs d) = alog_f d"
  using assms by (induction rs arbitrary: d; simp)+

lemma undo_all_other:
  assumes "\<forall>r \<in> set rs. rec_ok d r" "block_valid d b" "\<forall>r \<in> set rs. \<not> touches r b"
  shows "dindex (undo_all rs d) b = dindex d b \<and> dblock (undo_all rs d) b = dblock d b"
  using assms by (induction rs arbitrary: d) (auto simp: undo_eff_other)

text \<open>One record per block: the state of each cell afterwards is what its own record says.\<close>

definition one_per_block :: "logrecord list \<Rightarrow> bool" where
  "one_per_block rs \<longleftrightarrow> distinct (map lr_block (filter (\<lambda>r. effective (lr_action r)) rs))"

lemma one_per_block_Cons:
  "one_per_block (r # rs) \<longleftrightarrow>
     one_per_block rs \<and> (effective (lr_action r) \<longrightarrow> (\<forall>x \<in> set rs. \<not> touches x (lr_block r)))"
  by (auto simp: one_per_block_def touches_def image_iff)

lemma one_per_block_rev [simp]: "one_per_block (rev rs) = one_per_block rs"
  by (simp add: one_per_block_def flip: rev_filter rev_map)

lemma undo_all_own:
  assumes "\<forall>x \<in> set rs. rec_ok d x" "one_per_block rs" "r \<in> set rs" "touches r b"
  shows "dindex (undo_all rs d) b = dindex (undo_eff r d) b \<and>
         dblock (undo_all rs d) b = dblock (undo_eff r d) b"
  using assms
proof (induction rs arbitrary: d)
  case Nil
  then show ?case by simp
next
  case (Cons x rs)
  have bv: "block_valid d b" using Cons.prems by (auto simp: rec_ok_def touches_def)
  show ?case
  proof (cases "r = x")
    case True
    then have "\<forall>y \<in> set rs. \<not> touches y b"
      using Cons.prems(2,4) by (auto simp: one_per_block_Cons touches_def)
    then show ?thesis using Cons.prems(1) bv True by (simp add: undo_all_other)
  next
    case False
    then have r: "r \<in> set rs" using Cons.prems(3) by simp
    then have nx: "\<not> touches x b"
      using Cons.prems(2,4) by (auto simp: one_per_block_Cons touches_def)
    have "dindex (undo_all rs (undo_eff x d)) b = dindex (undo_eff r (undo_eff x d)) b \<and>
          dblock (undo_all rs (undo_eff x d)) b = dblock (undo_eff r (undo_eff x d)) b"
      using Cons.IH [of "undo_eff x d"] Cons.prems r by (simp add: one_per_block_Cons)
    moreover have "dindex (undo_eff r (undo_eff x d)) b = dindex (undo_eff r d) b \<and>
          dblock (undo_eff r (undo_eff x d)) b = dblock (undo_eff r d) b"
      using Cons.prems(1,3,4) bv nx
      by (auto simp: undo_eff_same undo_eff_other split: logAction.splits)
    ultimately show ?thesis by simp
  qed
qed

section \<open>The order of undoing does not matter\<close>

lemma undo_eff_commute:
  assumes "rec_ok d r" "rec_ok d r'" "effective (lr_action r) \<Longrightarrow> \<not> touches r' (lr_block r)"
  shows "undo_eff r (undo_eff r' d) = undo_eff r' (undo_eff r d)"
  using assms
  by (cases "lr_action r"; cases "lr_action r'")
    (auto simp: undo_eff.simps rec_ok_def block_valid_def effective_def touches_def
      ix.put_commute sf.put_commute ix.valid_put sf.valid_put)

lemma undo_all_snoc_front:
  assumes "\<forall>x \<in> set rs. rec_ok d x" "rec_ok d r"
    "effective (lr_action r) \<Longrightarrow> \<forall>x \<in> set rs. \<not> touches x (lr_block r)"
  shows "undo_eff r (undo_all rs d) = undo_all rs (undo_eff r d)"
  using assms
proof (induction rs arbitrary: d)
  case Nil
  show ?case by simp
next
  case (Cons x rs)
  have "undo_eff r (undo_all rs (undo_eff x d)) = undo_all rs (undo_eff r (undo_eff x d))"
    using Cons by simp
  also have "undo_eff r (undo_eff x d) = undo_eff x (undo_eff r d)"
    using Cons.prems by (intro undo_eff_commute) auto
  finally show ?case by simp
qed

lemma undo_all_rev:
  "\<forall>x \<in> set rs. rec_ok d x \<Longrightarrow> one_per_block rs \<Longrightarrow> undo_all (rev rs) d = undo_all rs d"
proof (induction rs arbitrary: d)
  case Nil
  show ?case by simp
next
  case (Cons r rs)
  then have "undo_all (rev (r # rs)) d = undo_eff r (undo_all rs d)"
    by (simp add: one_per_block_Cons)
  also have "\<dots> = undo_all rs (undo_eff r d)"
    using Cons.prems by (intro undo_all_snoc_front) (auto simp: one_per_block_Cons)
  finally show ?case by simp
qed

end
