(* ===== verification/ClientView.thy ===== *)
theory ClientView
  imports Transaction Triples Recovery
begin

text \<open>
  The abstract meaning of a running transaction. \<open>store_view\<close> is the store as a map from the allocated
  blocks to their contents; \<open>view\<close> is the store as the transaction sees it, its own pending changes
  included. \<open>client_ok\<close> is the invariant of the library's data: every entry of the block map agrees
  with the files, owns its buffers, and the buffers of different entries are different arrays.
\<close>

definition store_view :: "disk \<Rightarrow> block_no \<Rightarrow> byte list option" where
  "store_view d b = (if block_valid d b \<and> dindex d b = CHR ''A'' then Some (dblock d b) else None)"

definition bufval :: "mem \<Rightarrow> ptr \<Rightarrow> byte list" where
  "bufval h p = (case deref h p of Ret v \<Rightarrow> v | _ \<Rightarrow> [])"

definition view :: "'m cstate \<Rightarrow> block_no \<Rightarrow> byte list option" where
  "view s b = (case mfind (bmap s) b of
     None \<Rightarrow> store_view (files s) b
   | Some mb \<Rightarrow> (case lock mb of
       A_LOCK \<Rightarrow> Some (bufval (heap s) (data mb))
     | W_LOCK \<Rightarrow> Some (bufval (heap s) (data mb))
     | R_LOCK \<Rightarrow> store_view (files s) b
     | S_LOCK \<Rightarrow> None))"

section \<open>The invariant\<close>

definition buffers :: "mblock \<Rightarrow> ptr set" where
  "buffers mb = {data mb, oldval mb}"

definition good_buffer :: "mem \<Rightarrow> ptr \<Rightarrow> bool" where
  "good_buffer h p \<longleftrightarrow> live h p \<and> is_block (bufval h p)"

text \<open>The files of a store: every block of the index lies inside the datastore.\<close>

definition files_ok :: "disk \<Rightarrow> bool" where
  "files_ok d \<longleftrightarrow> NBLOCKS \<le> int (length (index_f d)) \<and>
     (\<forall>b. index_valid (index_f d) b \<longrightarrow> store_valid (store_f d) b)"

definition entry_ok :: "disk \<Rightarrow> mem \<Rightarrow> int \<Rightarrow> block_no \<Rightarrow> mblock \<Rightarrow> bool" where
  "entry_ok d h lfb b mb \<longleftrightarrow>
     block_valid d b \<and> good_buffer h (data mb) \<and> good_buffer h (oldval mb) \<and>
     (case lock mb of
        A_LOCK \<Rightarrow> dindex d b = CHR ''U'' \<and> oldindex mb = CHR ''U'' \<and> b \<le> lfb
      | R_LOCK \<Rightarrow> dindex d b = CHR ''A'' \<and> bufval h (data mb) = dblock d b \<and> oldval mb = data mb
      | W_LOCK \<Rightarrow> dindex d b = CHR ''A'' \<and> oldindex mb = CHR ''A'' \<and>
          bufval h (oldval mb) = dblock d b \<and> oldval mb \<noteq> data mb
      | S_LOCK \<Rightarrow> dindex d b = oldindex mb \<and>
          (oldindex mb = CHR ''A'' \<and> bufval h (oldval mb) = dblock d b \<or>
           oldindex mb = CHR ''U'' \<and> b \<le> lfb))"

text \<open>All entries but that of \<open>x\<close> are in order (\<open>x = 0\<close>: all of them).\<close>

definition client_ok_but :: "block_no \<Rightarrow> 'm cstate \<Rightarrow> bool" where
  "client_ok_but x s \<longleftrightarrow> mem_ok (heap s) \<and> ordered (bmap s) \<and> 0 \<le> last_free_block s \<and>
     files_ok (files s) \<and>
     (\<forall>b mb. mfind (bmap s) b = Some mb \<longrightarrow> b \<noteq> x \<longrightarrow>
        entry_ok (files s) (heap s) (last_free_block s) b mb) \<and>
     (\<forall>b b' mb mb'. mfind (bmap s) b = Some mb \<longrightarrow> mfind (bmap s) b' = Some mb' \<longrightarrow> b \<noteq> b' \<longrightarrow>
        b \<noteq> x \<longrightarrow> b' \<noteq> x \<longrightarrow> buffers mb \<inter> buffers mb' = {})"

definition client_ok :: "'m cstate \<Rightarrow> bool" where
  "client_ok s \<longleftrightarrow> client_ok_but 0 s \<and> mfind (bmap s) 0 = None"

lemma client_okD:
  assumes "client_ok s"
  shows "mem_ok (heap s)" "ordered (bmap s)" "0 \<le> last_free_block s" "files_ok (files s)"
    "mfind (bmap s) b = Some mb \<Longrightarrow> entry_ok (files s) (heap s) (last_free_block s) b mb"
    "mfind (bmap s) b = Some mb \<Longrightarrow> mfind (bmap s) b' = Some mb' \<Longrightarrow> b \<noteq> b' \<Longrightarrow>
       buffers mb \<inter> buffers mb' = {}"
  using assms unfolding client_ok_def client_ok_but_def by (metis option.distinct(1))+

section \<open>Views of heap changes\<close>

lemma bufval_deref: "deref h p = Ret v \<Longrightarrow> bufval h p = v"
  by (simp add: bufval_def)

lemma live_bufval: "live h p \<Longrightarrow> deref h p = Ret (bufval h p)"
  by (auto simp: live_deref bufval_def)

lemma bufval_new [simp]:
  "bufval (snd (new_filled v h)) (Some (fst (new_filled v h))) = v"
  "mem_ok h \<Longrightarrow> live h p \<Longrightarrow> bufval (snd (new_filled v h)) p = bufval h p"
  by (simp_all add: bufval_def deref_new_other)

lemma live_new_own [simp]: "live (snd (new_filled v h)) (Some (fst (new_filled v h)))"
  by (simp add: live_def new_filled_def)

lemma good_buffer_new [intro]:
  "is_block v \<Longrightarrow> good_buffer (snd (new_filled v h)) (Some (fst (new_filled v h)))"
  "mem_ok h \<Longrightarrow> good_buffer h p \<Longrightarrow> good_buffer (snd (new_filled v h)) p"
  by (simp_all add: good_buffer_def live_new)

lemma entry_ok_new:
  assumes "mem_ok h" "entry_ok d h l b mb"
  shows "entry_ok d (snd (new_filled v h)) l b mb"
  using assms by (auto simp: entry_ok_def good_buffer_def live_new split: locktype.splits)

lemma entry_ok_lfb: "entry_ok d h l b mb \<Longrightarrow> l \<le> l' \<Longrightarrow> entry_ok d h l' b mb"
  by (auto simp: entry_ok_def split: locktype.splits)

lemma entry_ok_live: "entry_ok d h l b mb \<Longrightarrow> p \<in> buffers mb \<Longrightarrow> live h p"
  by (auto simp: entry_ok_def good_buffer_def buffers_def)

lemma files_ok_valid: "files_ok d \<Longrightarrow> index_valid (index_f d) b \<Longrightarrow> block_valid d b"
  by (simp add: files_ok_def block_valid_def)

end
