(* ===== verification/ClientOps.thy ===== *)
theory ClientOps
  imports ClientView
begin

text \<open>
  The library calls of a transaction refine the operations of a map. The locale \<open>quiet_tpm\<close> is what
  they rely on: while the transaction waits for a reply, the files do not change. Within it every
  call that returns keeps \<open>client_ok\<close>, leaves the files alone and acts on \<open>view\<close> as a map would:
  \<open>read\<close> is lookup, \<open>write\<close> and \<open>allocate\<close> are update, \<open>release\<close> is deletion.
\<close>

locale quiet_tpm =
  fixes T :: "'m tpm"
  assumes quiet: "ask T rq d m = Ret (r, d', m') \<Longrightarrow> d' = d"

section \<open>New entries\<close>

lemma client_ok_srv [simp]:
  "client_ok_but x (s\<lparr>srv := m\<rparr>) = client_ok_but x s" "client_ok (s\<lparr>srv := m\<rparr>) = client_ok s"
  "view (s\<lparr>srv := m\<rparr>) = view s"
  by (simp_all add: client_ok_but_def client_ok_def view_def fun_eq_iff
      split: option.split locktype.split)

lemma client_ok_but_weaken: "client_ok s \<Longrightarrow> client_ok_but x s"
  unfolding client_ok_def client_ok_but_def by (metis option.distinct(1))

lemma client_ok_base:
  assumes "client_ok s"
  shows "mem_ok (heap s)" "client_ok_but b s" "mfind (bmap s) 0 = None"
  by (rule client_okD(1) [OF assms]) (rule client_ok_but_weaken [OF assms],
    use assms in \<open>simp add: client_ok_def\<close>)

lemma fresh_dead: "mem_ok h \<Longrightarrow> \<not> live h (Some (fresh h))"
  by (simp add: mem_ok_def live_def)

lemma client_ok_butI:
  assumes "mem_ok (heap s)" "ordered (bmap s)" "0 \<le> last_free_block s" "files_ok (files s)"
    and "\<And>b mb. mfind (bmap s) b = Some mb \<Longrightarrow> b \<noteq> x \<Longrightarrow>
      entry_ok (files s) (heap s) (last_free_block s) b mb"
    and "\<And>b b' mb mb'. mfind (bmap s) b = Some mb \<Longrightarrow> mfind (bmap s) b' = Some mb' \<Longrightarrow> b \<noteq> b' \<Longrightarrow>
      b \<noteq> x \<Longrightarrow> b' \<noteq> x \<Longrightarrow> buffers mb \<inter> buffers mb' = {}"
  shows "client_ok_but x s"
  using assms unfolding client_ok_but_def by blast

lemma client_okI:
  assumes "mem_ok (heap s)" "ordered (bmap s)" "0 \<le> last_free_block s" "files_ok (files s)"
    and "\<And>b mb. mfind (bmap s) b = Some mb \<Longrightarrow> entry_ok (files s) (heap s) (last_free_block s) b mb"
    and "\<And>b b' mb mb'. mfind (bmap s) b = Some mb \<Longrightarrow> mfind (bmap s) b' = Some mb' \<Longrightarrow> b \<noteq> b' \<Longrightarrow>
      buffers mb \<inter> buffers mb' = {}"
    and "mfind (bmap s) 0 = None"
  shows "client_ok s"
  unfolding client_ok_def using assms by (blast intro: client_ok_butI)

definition extends :: "mem \<Rightarrow> mem \<Rightarrow> bool" where
  "extends h h' \<longleftrightarrow> mem_ok h' \<and> (\<forall>p. live h p \<longrightarrow> live h' p \<and> bufval h' p = bufval h p)"

lemma extends_new: "mem_ok h \<Longrightarrow> extends h (snd (new_filled v h))"
  by (simp add: extends_def live_new)

lemma extends_trans: "extends h h1 \<Longrightarrow> extends h1 h2 \<Longrightarrow> extends h h2"
  by (simp add: extends_def)

lemma extends_entry:
  assumes "extends h h'" "entry_ok d h l b mb" "l \<le> l'"
  shows "entry_ok d h' l' b mb"
  using assms by (auto simp: extends_def entry_ok_def good_buffer_def split: locktype.splits)

lemma client_ok_put:
  assumes ok: "client_ok_but b s" "mfind (bmap s) 0 = None" "b \<noteq> 0"
    and h: "extends (heap s) h'" and sep: "\<forall>p \<in> buffers mb. \<not> live (heap s) p"
    and e: "entry_ok (files s) h' l b mb" "last_free_block s \<le> l"
  shows "client_ok (s\<lparr>heap := h', bmap := mput b mb (bmap s), last_free_block := l\<rparr>)"
proof -
  let ?s = "s\<lparr>heap := h', bmap := mput b mb (bmap s), last_free_block := l\<rparr>"
  have old: "entry_ok (files s) h' l c mc \<and> buffers mb \<inter> buffers mc = {}"
    if "mfind (bmap s) c = Some mc" "c \<noteq> b" for c mc
  proof -
    have "entry_ok (files s) (heap s) (last_free_block s) c mc"
      using ok(1) that unfolding client_ok_but_def by blast
    then show ?thesis using extends_entry [OF h] e(2) sep entry_ok_live by blast
  qed
  have "entry_ok (files ?s) (heap ?s) (last_free_block ?s) c mc" if "mfind (bmap ?s) c = Some mc" for c mc
    using that old e(1) by (auto split: if_splits)
  moreover have "buffers mc \<inter> buffers mc' = {}"
    if "mfind (bmap ?s) c = Some mc" "mfind (bmap ?s) c' = Some mc'" "c \<noteq> c'" for c c' mc mc'
  proof (cases "c = b \<or> c' = b")
    case True
    then show ?thesis using that old by (auto split: if_splits)
  next
    case False
    then show ?thesis using that ok(1) unfolding client_ok_but_def by auto
  qed
  ultimately show ?thesis
    using ok h e(2) unfolding client_ok_def client_ok_but_def extends_def by auto
qed

lemma view_put:
  assumes ok: "client_ok_but b s" "mfind (bmap s) 0 = None" and h: "extends (heap s) h'"
  shows "view (s\<lparr>heap := h', bmap := mput b mb (bmap s), last_free_block := l\<rparr>) =
    (view s)(b := (case lock mb of
       A_LOCK \<Rightarrow> Some (bufval h' (data mb)) | W_LOCK \<Rightarrow> Some (bufval h' (data mb))
     | R_LOCK \<Rightarrow> store_view (files s) b | S_LOCK \<Rightarrow> None))"
proof
  fix c
  have "bufval h' (data mc) = bufval (heap s) (data mc)"
    if "mfind (bmap s) c = Some mc" "c \<noteq> b" for mc
  proof -
    have "entry_ok (files s) (heap s) (last_free_block s) c mc"
      using ok(1) that unfolding client_ok_but_def by blast
    then have "live (heap s) (data mc)" by (rule entry_ok_live) (simp add: buffers_def)
    then show ?thesis using h by (simp add: extends_def)
  qed
  then show "view (s\<lparr>heap := h', bmap := mput b mb (bmap s), last_free_block := l\<rparr>) c =
    ((view s)(b := (case lock mb of
       A_LOCK \<Rightarrow> Some (bufval h' (data mb)) | W_LOCK \<Rightarrow> Some (bufval h' (data mb))
     | R_LOCK \<Rightarrow> store_view (files s) b | S_LOCK \<Rightarrow> None))) c"
    by (auto simp: view_def split: option.splits locktype.splits)
qed

section \<open>The pieces that every call is made of\<close>

lemma is_allocated_Done:
  assumes "is_allocated bad b s = Done al s'"
  shows "s' = s \<and> (al \<longrightarrow> index_valid (index_f (files s)) b \<and> dindex (files s) b = CHR ''A'')"
  using assms by (auto simp: is_allocated_def read_index_def dindex_def tx_abort_def
      split: if_splits option.splits outcome.splits)

lemma read_store_Done:
  assumes "tx_read_store bad b s = Done v s'"
  shows "s' = s \<and> v = dblock (files s) b \<and> is_block (dblock (files s) b)"
  using assms by (auto simp: tx_read_store_def read_store_def dblock_def tx_abort_def
      split: if_splits option.splits outcome.splits)

lemma tx_new_Done:
  "tx_new s = Done a s' \<longleftrightarrow> a = fresh (heap s) \<and> s' = s\<lparr>heap := snd (new_buffer (heap s))\<rparr>"
  by (auto simp: tx_new_def new_buffer_def)

lemma tx_fill_Done:
  "tx_fill (Some (fresh h)) v (s\<lparr>heap := snd (new_buffer h)\<rparr>) = Done u s' \<longleftrightarrow>
     s' = s\<lparr>heap := snd (new_filled v h)\<rparr>"
  by (auto simp: tx_fill_def fill_def new_buffer_def new_filled_def)

lemma set_entry_Done: "set_entry b mb s = Done u s' \<longleftrightarrow> s' = s\<lparr>bmap := mput b mb (bmap s)\<rparr>"
  by (auto simp: set_entry_def)

text \<open>The two buffers of a write: the saved old value and the new value.\<close>

lemma two_buffers_Done:
  assumes "pbind tx_new (\<lambda>saved. pseq (tx_fill (Some saved) old)
      (pbind tx_new (\<lambda>a. pseq (tx_fill (Some a) new)
        (pseq (set_entry b \<lparr>lock = l, data = Some a, oldval = Some saved, oldindex = oi\<rparr>)
          (Done old))))) s = Done x s'"
  shows "x = old \<and> s' = s\<lparr>heap := snd (new_filled new (snd (new_filled old (heap s)))),
    bmap := mput b \<lparr>lock = l, data = Some (fresh (snd (new_filled old (heap s)))),
      oldval = Some (fresh (heap s)), oldindex = oi\<rparr> (bmap s)\<rparr>"
  using assms by (auto simp: pbind_eq_Done pseq_eq_Done tx_new_Done tx_fill_Done set_entry_Done)

lemma with_stored_Done:
  "pbind (tx_read_store bad b) f s = Done x s' \<Longrightarrow>
   is_block (dblock (files s) b) \<and> f (dblock (files s) b) s = Done x s'"
  by (auto simp: pbind_eq_Done dest: read_store_Done)

lemma restart_Done: "restart T s \<noteq> Done x s'"
  by (auto simp: restart_def pbind_eq_Done pseq_eq_Done tx_abort_def split: if_splits)

context quiet_tpm
begin

lemma ask_Done: "ask_tpm T q b s = Done r s' \<Longrightarrow> \<exists>m. s' = s\<lparr>srv := m\<rparr>"
  by (auto simp: ask_tpm_def Let_def tx_abort_def dest!: quiet split: outcome.splits if_splits)


text \<open>The part that \<open>read\<close>, \<open>write\<close> and \<open>release\<close> share: the block is allocated and the lock granted.\<close>

lemma with_lock_Done:
  assumes "pbind (is_allocated bad b) (\<lambda>al. if \<not> al then tx_abort
     else pbind (ask_tpm T q b) (\<lambda>(okay, _). if \<not> okay then restart T else f)) s = Done x s'"
  obtains m where "index_valid (index_f (files s)) b" "dindex (files s) b = CHR ''A''"
    "f (s\<lparr>srv := m\<rparr>) = Done x s'"
  using assms by (auto simp: pbind_eq_Done tx_abort_def restart_Done split: if_splits
      dest!: is_allocated_Done ask_Done)

section \<open>Read\<close>

lemma read_from_store_Done:
  assumes r: "read_from_store T bad b s = Done p s'" and ok: "client_ok s"
    and fresh_b: "mfind (bmap s) b = None" "b > 0"
  shows "client_ok s' \<and> files s' = files s \<and> view s' = view s \<and>
    deref (heap s') p = Ret (the (view s b)) \<and> view s b \<noteq> None"
proof -
  from r obtain m where al: "index_valid (index_f (files s)) b" "dindex (files s) b = CHR ''A''"
    and p: "p = Some (fresh (heap s))" and blk: "is_block (dblock (files s) b)"
    and s': "s' = s\<lparr>srv := m, heap := snd (new_filled (dblock (files s) b) (heap s)),
      bmap := mput b \<lparr>lock = R_LOCK, data = p, oldval = p, oldindex = CHR ''A''\<rparr> (bmap s)\<rparr>"
    by (auto simp: read_from_store_def pbind_eq_Done pseq_eq_Done tx_abort_def restart_Done
        tx_new_Done tx_fill_Done set_entry_Done split: if_splits
        dest!: ask_Done is_allocated_Done read_store_Done)
  let ?h = "snd (new_filled (dblock (files s) b) (heap s))"
  let ?mb = "\<lparr>lock = R_LOCK, data = p, oldval = p, oldindex = CHR ''A''\<rparr>"
  note mem = client_ok_base(1) [OF ok] and okb = client_ok_base(2) [OF ok]
    and z = client_ok_base(3) [OF ok]
  have p': "p = Some (fst (new_filled (dblock (files s) b) (heap s)))"
    by (simp add: p new_filled_def)
  have bv: "block_valid (files s) b" using al(1) client_okD(4) [OF ok] files_ok_valid by blast
  have e: "entry_ok (files s) ?h (last_free_block s) b ?mb"
    using al(2) bv blk by (auto simp: entry_ok_def p' good_buffer_def)
  have s'': "s' = (s\<lparr>heap := ?h, bmap := mput b ?mb (bmap s), last_free_block := last_free_block s\<rparr>)\<lparr>srv := m\<rparr>"
    by (simp add: s')
  have sep: "\<forall>q \<in> buffers ?mb. \<not> live (heap s) q"
    using fresh_dead [OF mem] p by (simp add: buffers_def)
  have "client_ok s'" unfolding s''
    using client_ok_put [OF okb z _ extends_new [OF mem] sep e] fresh_b(2) by simp
  moreover have "view s' = view s" unfolding s''
    using view_put [OF okb z extends_new [OF mem, of "dblock (files s) b"],
        where mb = ?mb and l = "last_free_block s"]
      fresh_b(1) by (auto simp: view_def)
  moreover have "view s b = Some (dblock (files s) b)"
    using fresh_b(1) al(2) bv by (simp add: view_def store_view_def)
  ultimately show ?thesis by (simp add: s' p')
qed

lemma tx_read_Done:
  assumes r: "tx_read T bad b s = Done p s'" and ok: "client_ok s"
  shows "client_ok s' \<and> files s' = files s \<and> view s' = view s \<and>
    deref (heap s') p = Ret (the (view s b)) \<and> view s b \<noteq> None"
proof -
  have b: "b > 0" using r by (simp add: tx_read_def throw_abort_def split: if_splits)
  show ?thesis
  proof (cases "mfind (bmap s) b")
    case None
    then show ?thesis using r b read_from_store_Done [OF _ ok None b] by (simp add: tx_read_def)
  next
    case (Some mb)
    then have e: "entry_ok (files s) (heap s) (last_free_block s) b mb" using client_okD(5) [OF ok] by blast
    have "lock mb \<noteq> S_LOCK \<and> p = data mb \<and> s' = s"
      using r b Some by (auto simp: tx_read_def tx_abort_def split: if_splits)
    moreover have "deref (heap s) (data mb) = Ret (bufval (heap s) (data mb))"
      using e by (intro live_bufval) (simp add: entry_ok_def good_buffer_def)
    ultimately show ?thesis using e ok Some
      by (cases "lock mb") (auto simp: view_def entry_ok_def store_view_def)
  qed
qed

section \<open>Write\<close>

lemma write_to_store_Done:
  assumes r: "write_to_store T bad b new s = Done old s'"
    and ok: "client_ok_but b s" "mfind (bmap s) 0 = None" "b > 0" "is_block new"
  shows "client_ok s' \<and> files s' = files s \<and> view s' = (view s)(b \<mapsto> new) \<and>
    store_view (files s) b = Some old"
proof -
  let ?h1 = "snd (new_filled (dblock (files s) b) (heap s))"
  let ?h2 = "snd (new_filled new ?h1)"
  let ?mb = "\<lparr>lock = W_LOCK, data = Some (fresh ?h1), oldval = Some (fresh (heap s)), oldindex = CHR ''A''\<rparr>"
  from with_lock_Done [OF r [unfolded write_to_store_def]] obtain m
    where al: "index_valid (index_f (files s)) b" "dindex (files s) b = CHR ''A''"
      and f: "pbind (tx_read_store bad b) (\<lambda>old. pbind tx_new (\<lambda>saved. pseq (tx_fill (Some saved) old)
        (pbind tx_new (\<lambda>a. pseq (tx_fill (Some a) new)
          (pseq (set_entry b \<lparr>lock = W_LOCK, data = Some a, oldval = Some saved,
                                oldindex = CHR ''A''\<rparr>) (Done old)))))) (s\<lparr>srv := m\<rparr>) = Done old s'" .
  note w = with_stored_Done [OF f]
  have blk: "is_block (dblock (files s) b)" using w by simp
  note tb = two_buffers_Done [OF w [THEN conjunct2]]
  have old: "old = dblock (files s) b" using tb by simp
  have s': "s' = s\<lparr>srv := m, heap := ?h2, bmap := mput b ?mb (bmap s)\<rparr>"
    using tb by simp
  have mem: "mem_ok (heap s)" and fok: "files_ok (files s)" using ok(1) by (auto simp: client_ok_but_def)
  have mem1: "mem_ok ?h1" using mem by simp
  have ext: "extends (heap s) ?h2" using extends_trans extends_new mem mem1 by blast
  have bv: "block_valid (files s) b" using al(1) fok files_ok_valid by blast
  have fr: "fresh ?h1 = Suc (fresh (heap s))" by (simp add: new_filled_def)
  have "good_buffer ?h2 (Some (fresh ?h1)) \<and> bufval ?h2 (Some (fresh ?h1)) = new"
    using ok(4) by (auto simp: good_buffer_def live_def bufval_def deref_def new_filled_def)
  moreover have "good_buffer ?h2 (Some (fresh (heap s))) \<and>
      bufval ?h2 (Some (fresh (heap s))) = dblock (files s) b"
    using blk by (auto simp: good_buffer_def live_def bufval_def deref_def new_filled_def)
  ultimately have e: "entry_ok (files s) ?h2 (last_free_block s) b ?mb"
      and dat: "bufval ?h2 (data ?mb) = new"
    using al(2) bv fr by (auto simp: entry_ok_def)
  have s'': "s' = (s\<lparr>heap := ?h2, bmap := mput b ?mb (bmap s), last_free_block := last_free_block s\<rparr>)\<lparr>srv := m\<rparr>"
    by (simp add: s')
  have "\<not> live (heap s) (Some (fresh ?h1))" using mem fr by (simp add: live_def mem_ok_def)
  then have sep: "\<forall>q \<in> buffers ?mb. \<not> live (heap s) q"
    using fresh_dead [OF mem] by (simp add: buffers_def)
  have "client_ok s'" unfolding s''
    using client_ok_put [OF ok(1,2) _ ext sep e] ok(3) by simp
  moreover have "view s' = (view s)(b \<mapsto> new)" unfolding s''
    using view_put [OF ok(1,2) ext, where mb = ?mb and l = "last_free_block s"] dat by simp
  moreover have "store_view (files s) b = Some old" using al(2) bv old by (simp add: store_view_def)
  ultimately show ?thesis by (simp add: s')
qed

end

text \<open>Filling or dropping one buffer of an entry leaves the other entries alone.\<close>

lemma entry_ok_other:
  assumes "entry_ok d h l b mb" "a \<notin> buffers mb" "mem_ok h"
    and "\<forall>p. p \<noteq> a \<longrightarrow> live h p \<longrightarrow> live h' p \<and> bufval h' p = bufval h p"
  shows "entry_ok d h' l b mb"
  using assms by (auto simp: entry_ok_def good_buffer_def buffers_def split: locktype.splits)

lemma fill_others:
  assumes "fill p v h = Ret h'"
  shows "\<forall>q. q \<noteq> p \<longrightarrow> live h q \<longrightarrow> live h' q \<and> bufval h' q = bufval h q" "mem_ok h \<Longrightarrow> mem_ok h'"
    "live h' p" "bufval h' p = v"
  using assms by (auto simp: fill_def live_def bufval_def deref_def mem_ok_def
      split: option.splits if_splits)

lemma delete_others:
  assumes "delete_buffer p h = Ret h'"
  shows "\<forall>q. q \<noteq> p \<longrightarrow> live h q \<longrightarrow> live h' q \<and> bufval h' q = bufval h q" "mem_ok h \<Longrightarrow> mem_ok h'"
  using assms by (auto simp: delete_buffer_def live_def bufval_def deref_def mem_ok_def
      split: option.splits if_splits)

lemma local_write_ok:
  assumes ok: "client_ok s" "mfind (bmap s) b = Some mb" "lock mb = A_LOCK \<or> lock mb = W_LOCK"
    and f: "fill (data mb) v (heap s) = Ret h" "is_block v"
  shows "client_ok (s\<lparr>heap := h\<rparr>) \<and> view (s\<lparr>heap := h\<rparr>) = (view s)(b \<mapsto> v)"
proof -
  note fo = fill_others [OF f(1)]
  have e: "entry_ok (files s) (heap s) (last_free_block s) c mc" if "mfind (bmap s) c = Some mc" for c mc
    using client_okD(5) [OF ok(1) that] .
  have sep: "data mb \<notin> buffers mc" if "mfind (bmap s) c = Some mc" "c \<noteq> b" for c mc
    using client_okD(6) [OF ok(1) that(1) ok(2) that(2)] by (auto simp: buffers_def)
  have "entry_ok (files s) h (last_free_block s) c mc" if "mfind (bmap s) c = Some mc" for c mc
  proof (cases "c = b")
    case True
    then show ?thesis using that e [OF that] ok(2,3) fo f(2)
      by (cases "oldval mb = data mb") (auto simp: entry_ok_def good_buffer_def split: locktype.splits)
  next
    case False
    then show ?thesis
      using entry_ok_other [OF e [OF that] sep [OF that] client_okD(1) [OF ok(1)] fo(1)] by blast
  qed
  then have "client_ok (s\<lparr>heap := h\<rparr>)"
    using client_okD [OF ok(1)] fo(2) client_ok_base(3) [OF ok(1)] by (intro client_okI) simp_all
  moreover have "view (s\<lparr>heap := h\<rparr>) c = ((view s)(b \<mapsto> v)) c" for c
  proof (cases "c = b")
    case True
    then show ?thesis using ok(2,3) fo(4) by (auto simp: view_def)
  next
    case False
    have "bufval h (data mc) = bufval (heap s) (data mc)" if "mfind (bmap s) c = Some mc" for mc
      using fo(1) sep [OF that False] entry_ok_live [OF e [OF that]] by (auto simp: buffers_def)
    then show ?thesis using False by (auto simp: view_def split: option.split locktype.split)
  qed
  ultimately show ?thesis by blast
qed

lemma drop_read_buffer_Done:
  assumes r: "drop_read_buffer b mb s = Done u s1"
    and ok: "client_ok s" "mfind (bmap s) b = Some mb" "lock mb = R_LOCK"
  shows "client_ok_but b s1 \<and> mfind (bmap s1) 0 = None \<and> files s1 = files s \<and> view s1 = view s"
proof -
  have e: "entry_ok (files s) (heap s) (last_free_block s) c mc" if "mfind (bmap s) c = Some mc" for c mc
    using client_okD(5) [OF ok(1) that] .
  have "data mb \<noteq> NULL" using e [OF ok(2)] by (auto simp: entry_ok_def good_buffer_def live_def)
  then obtain h where d: "delete_buffer (data mb) (heap s) = Ret h"
    and s1: "s1 = s\<lparr>heap := h, bmap := mupd b (\<lambda>mb. mb\<lparr>data := NULL\<rparr>) (bmap s)\<rparr>"
    using r by (auto simp: drop_read_buffer_def pseq_eq_Done tx_delete_def split: outcome.splits)
  note dd = delete_others [OF d]
  have sep: "data mb \<notin> buffers mc" if "mfind (bmap s) c = Some mc" "c \<noteq> b" for c mc
    using client_okD(6) [OF ok(1) that(1) ok(2) that(2)] by (auto simp: buffers_def)
  have e': "entry_ok (files s) h (last_free_block s) c mc" if "mfind (bmap s) c = Some mc" "c \<noteq> b" for c mc
    using entry_ok_other [OF e [OF that(1)] sep [OF that] client_okD(1) [OF ok(1)] dd(1)] .
  have "client_ok_but b s1"
    using client_okD [OF ok(1)] dd(2) e' unfolding s1
    by (intro client_ok_butI) (simp_all split: if_splits)
  moreover have "view s1 c = view s c" for c
  proof (cases "c = b")
    case True
    then show ?thesis using ok(2,3) by (simp add: s1 view_def)
  next
    case False
    have "bufval h (data mc) = bufval (heap s) (data mc)" if "mfind (bmap s) c = Some mc" for mc
      using dd(1) sep [OF that False] entry_ok_live [OF e [OF that]] by (auto simp: buffers_def)
    then show ?thesis using False by (auto simp: s1 view_def split: option.split locktype.split)
  qed
  ultimately show ?thesis using ok(1) by (auto simp: s1 client_ok_def)
qed

context quiet_tpm
begin

lemma tx_write_Done:
  assumes r: "tx_write T bad b new s = Done old s'" and ok: "client_ok s" "is_block new"
  shows "b > 0 \<and> client_ok s' \<and> files s' = files s \<and> view s' = (view s)(b \<mapsto> new) \<and>
    view s b = Some old"
proof -
  have b: "b > 0" using r by (simp add: tx_write_def throw_abort_def split: if_splits)
  note base = client_ok_base(2,3) [OF ok(1)]
  show ?thesis
  proof (cases "mfind (bmap s) b")
    case None
    then have "write_to_store T bad b new s = Done old s'" using r b by (simp add: tx_write_def)
    then show ?thesis using write_to_store_Done [OF _ base b ok(2)] b None by (simp add: view_def)
  next
    case mb: (Some mb)
    show ?thesis
    proof (cases "lock mb = R_LOCK")
      case True
      then obtain u s1 where s1: "drop_read_buffer b mb s = Done u s1"
          "write_to_store T bad b new s1 = Done old s'"
        using r b mb by (auto simp: tx_write_def pseq_eq_Done)
      note d = drop_read_buffer_Done [OF s1(1) ok(1) mb True]
      have "view s b = store_view (files s) b" using mb True by (simp add: view_def)
      then show ?thesis using write_to_store_Done [OF s1(2) _ _ b ok(2)] d b by simp
    next
      case False
      then have "lock mb = A_LOCK \<or> lock mb = W_LOCK"
        using r b mb by (cases "lock mb") (auto simp: tx_write_def tx_abort_def)
      moreover from this obtain h where h: "deref (heap s) (data mb) = Ret old"
          "fill (data mb) new (heap s) = Ret h" "s' = s\<lparr>heap := h\<rparr>"
        using r b mb by (auto simp: tx_write_def pseq_eq_Done pbind_eq_Done tx_deref_def tx_fill_def
            split: outcome.splits)
      moreover have "view s b = Some old"
        using mb calculation(1) bufval_deref [OF h(1)] by (auto simp: view_def)
      ultimately show ?thesis using local_write_ok [OF ok(1) mb _ h(2) ok(2)] b by simp
    qed
  qed
qed

section \<open>Release\<close>

lemma release_in_store_Done:
  assumes r: "release_in_store T bad b s = Done u s'"
    and ok: "client_ok_but b s" "mfind (bmap s) 0 = None" "b > 0"
  shows "client_ok s' \<and> files s' = files s \<and> view s' = (view s)(b := None)"
proof -
  let ?v = "dblock (files s) b"
  let ?h = "snd (new_filled ?v (heap s))" and ?p = "Some (fresh (heap s))"
  let ?mb = "\<lparr>lock = S_LOCK, data = ?p, oldval = ?p, oldindex = CHR ''A''\<rparr>"
  from with_lock_Done [OF r [unfolded release_in_store_def]] obtain m
    where al: "index_valid (index_f (files s)) b" "dindex (files s) b = CHR ''A''"
      and f: "pbind tx_new (\<lambda>a. pbind (tx_read_store bad b) (\<lambda>v. pseq (tx_fill (Some a) v)
        (set_entry b \<lparr>lock = S_LOCK, data = Some a, oldval = Some a, oldindex = CHR ''A''\<rparr>)))
        (s\<lparr>srv := m\<rparr>) = Done u s'" .
  have "is_block ?v \<and> s' = s\<lparr>srv := m, heap := ?h, bmap := mput b ?mb (bmap s)\<rparr>"
    using f by (auto simp: pbind_eq_Done pseq_eq_Done tx_new_Done tx_fill_Done set_entry_Done
        dest!: read_store_Done)
  then have blk: "is_block ?v"
    and s': "s' = (s\<lparr>heap := ?h, bmap := mput b ?mb (bmap s), last_free_block := last_free_block s\<rparr>)\<lparr>srv := m\<rparr>"
    by simp_all
  have mem: "mem_ok (heap s)" and fok: "files_ok (files s)" using ok(1) by (auto simp: client_ok_but_def)
  have bv: "block_valid (files s) b" using al(1) fok files_ok_valid by blast
  have p: "?p = Some (fst (new_filled ?v (heap s)))" by (simp add: new_filled_def)
  have e: "entry_ok (files s) ?h (last_free_block s) b ?mb"
    using al(2) bv blk unfolding p by (auto simp: entry_ok_def good_buffer_def)
  have sep: "\<forall>q \<in> buffers ?mb. \<not> live (heap s) q" using fresh_dead [OF mem] by (simp add: buffers_def)
  have "client_ok s'" unfolding s'
    using client_ok_put [OF ok(1,2) _ extends_new [OF mem] sep e] ok(3) by simp
  moreover have "view s' = (view s)(b := None)" unfolding s'
    using view_put [OF ok(1,2) extends_new [OF mem, of ?v], where mb = ?mb and l = "last_free_block s"]
    by simp
  ultimately show ?thesis by (simp add: s')
qed

lemma tx_release_Done:
  assumes r: "tx_release T bad b s = Done u s'" and ok: "client_ok s"
  shows "client_ok s' \<and> files s' = files s \<and> view s' = (view s)(b := None)"
proof -
  have b: "b > 0" using r by (simp add: tx_release_def throw_abort_def split: if_splits)
  note base = client_ok_base(2,3) [OF ok]
  show ?thesis
  proof (cases "mfind (bmap s) b")
    case None
    then show ?thesis using r b release_in_store_Done [OF _ base b] by (simp add: tx_release_def)
  next
    case mb: (Some mb)
    have e: "entry_ok (files s) (heap s) (last_free_block s) c mc" if "mfind (bmap s) c = Some mc" for c mc
      using client_okD(5) [OF ok that] .
    show ?thesis
    proof (cases "lock mb = R_LOCK")
      case True
      then obtain u1 s1 where s1: "drop_read_buffer b mb s = Done u1 s1"
          "release_in_store T bad b s1 = Done u s'"
        using r b mb by (auto simp: tx_release_def pseq_eq_Done)
      note d = drop_read_buffer_Done [OF s1(1) ok mb True]
      show ?thesis using release_in_store_Done [OF s1(2) _ _ b] d by simp
    next
      case False
      let ?s = "s\<lparr>bmap := mupd b (\<lambda>mb. mb\<lparr>lock := S_LOCK\<rparr>) (bmap s)\<rparr>"
      have s': "s' = ?s" using r b mb False by (cases "lock mb") (auto simp: tx_release_def)
      have "entry_ok (files s) (heap s) (last_free_block s) b (mb\<lparr>lock := S_LOCK\<rparr>)"
        using e [OF mb] False by (cases "lock mb") (auto simp: entry_ok_def)
      then have "entry_ok (files ?s) (heap ?s) (last_free_block ?s) c mc" if "mfind (bmap ?s) c = Some mc" for c mc
        using that e mb by (auto split: if_splits)
      moreover have "buffers mc \<inter> buffers mc' = {}"
        if "mfind (bmap ?s) c = Some mc" "mfind (bmap ?s) c' = Some mc'" "c \<noteq> c'" for c c' mc mc'
      proof -
        have "\<exists>x. mfind (bmap s) d = Some x \<and> buffers x = buffers md" if "mfind (bmap ?s) d = Some md" for d md
          using that by (auto simp: buffers_def split: if_splits)
        then show ?thesis using that client_okD(6) [OF ok] by metis
      qed
      ultimately have "client_ok ?s"
        using client_okD [OF ok] base(2) b by (intro client_okI) simp_all
      moreover have "view ?s c = ((view s)(b := None)) c" for c
        using mb by (auto simp: view_def split: option.split locktype.split)
      ultimately show ?thesis by (auto simp: s')
    qed
  qed
qed

end

end
