(* ===== verification/AllocateOp.thy ===== *)
theory AllocateOp
  imports ClientOps
begin

text \<open>
  \<open>allocate\<close>: the search for a free block, the loop that asks for blocks until one is granted (with
  its termination), and the effect of the call on the transaction's view.
\<close>

section \<open>The search\<close>

lemma scan_free_spec:
  assumes "scan_free bad cs b = Ret (b', found)"
  shows "b \<le> b'" "b' \<le> b + int (length cs)"
    "found \<Longrightarrow> b' < b + int (length cs) \<and> cs ! nat (b' - b) = CHR ''U''"
    "\<forall>i. b \<le> i \<longrightarrow> i < b' \<longrightarrow> cs ! nat (i - b) \<noteq> CHR ''U''"
    "\<not> found \<Longrightarrow> b' = b + int (length cs)"
  using assms
proof (induction cs arbitrary: b)
  case (Cons c cs)
  have shift: "(c # cs) ! nat (i - b) = cs ! nat (i - (b + 1))" if "b + 1 \<le> i" for i b :: int
  proof -
    have "nat (i - b) = Suc (nat (i - (b + 1)))" using that by simp
    then show ?thesis by simp
  qed
  {
    case (1 b) then show ?case using Cons.IH(1) [of "b + 1"] by (auto split: if_splits)
  next
    case (2 b) then show ?case using Cons.IH(2) [of "b + 1"] by (auto split: if_splits)
  next
    case (3 b)
    show ?case
    proof (cases "c = CHR ''U''")
      case True
      then show ?thesis using 3 by (auto split: if_splits)
    next
      case False
      then have "scan_free bad cs (b + 1) = Ret (b', found)" using 3(2) by (auto split: if_splits)
      then have "b' < b + 1 + int (length cs)" "b + 1 \<le> b'" "cs ! nat (b' - (b + 1)) = CHR ''U''"
        using 3(1) Cons.IH(3) [of "b + 1"] Cons.IH(1) [of "b + 1"] by simp_all
      then have "b' < b + int (length (c # cs)) \<and> (c # cs) ! nat (b' - b) = CHR ''U''"
        unfolding shift [OF \<open>b + 1 \<le> b'\<close>] by simp
      then show ?thesis .
    qed
  next
    case (4 b)
    show ?case
    proof (intro allI impI)
      fix i assume i: "b \<le> i" "i < b'"
      show "(c # cs) ! nat (i - b) \<noteq> CHR ''U''"
        using 4 i Cons.IH(4) [of "b + 1"] shift [of b i]
        by (cases "i = b") (simp_all split: if_splits)
    qed
  next
    case (5 b) then show ?case using Cons.IH(5) [of "b + 1"] by (auto split: if_splits)
  }
qed auto

lemma scan_free_all:
  "{} = bad \<Longrightarrow> \<exists>b' found. scan_free bad cs b = Ret (b', found)"
  by (induction cs arbitrary: b) auto

lemma find_free_block_Done:
  assumes "find_free_block T bad s = Done b s'"
  shows "last_free_block s < b \<and> s' = s\<lparr>last_free_block := b\<rparr> \<and>
    (0 \<le> last_free_block s \<longrightarrow> index_valid (index_f (files s)) b \<and> dindex (files s) b = CHR ''U'' \<and>
      (\<forall>i. last_free_block s < i \<longrightarrow> i < b \<longrightarrow> dindex (files s) i \<noteq> CHR ''U''))"
proof -
  let ?l = "last_free_block s + 1"
  let ?cs = "drop (nat (?l - 1)) (index_f (files s))"
  have sc: "scan_free bad ?cs ?l = Ret (b, True)" and s': "s' = s\<lparr>last_free_block := b\<rparr>"
    and l: "1 \<le> ?l"
    using assms by (auto simp: find_free_block_def Let_def restart_Done split: if_splits outcome.splits)
  note sp = scan_free_spec [OF sc]
  have nth: "?cs ! nat (i - ?l) = dindex (files s) i"
    if "?l \<le> i" "i < ?l + int (length ?cs)" for i
  proof -
    have "nat (?l - 1) + nat (i - ?l) = nat (i - 1)" using that l by linarith
    moreover have "nat (?l - 1) \<le> length (index_f (files s))" using that by auto
    ultimately show ?thesis by (simp add: dindex_def index_get_def)
  qed
  have in_range: "b < ?l + int (length ?cs)" using sp(3) by simp
  have iv: "index_valid (index_f (files s)) b" using in_range sp(1) l by (auto simp: index_valid_def)
  show ?thesis using sp nth in_range iv s' by auto
qed

context quiet_tpm
begin

lemma find_free_Done:
  "find_free_block T bad s = Done b s' \<Longrightarrow>
   last_free_block s < b \<and> s' = s\<lparr>last_free_block := b\<rparr> \<and>
   (0 \<le> last_free_block s \<longrightarrow> index_valid (index_f (files s)) b \<and> dindex (files s) b = CHR ''U'')"
  using find_free_block_Done by blast

lemma allocate_loop_Done:
  assumes "allocate_loop T bad s = Some (Done b s')" "0 \<le> last_free_block s"
  shows "\<exists>m. s' = s\<lparr>last_free_block := b, srv := m\<rparr> \<and> last_free_block s < b \<and>
    index_valid (index_f (files s)) b \<and> dindex (files s) b = CHR ''U''"
proof -
  have "0 \<le> last_free_block s \<longrightarrow> (\<forall>b s'. r = Done b s' \<longrightarrow>
      (\<exists>m. s' = s\<lparr>last_free_block := b, srv := m\<rparr> \<and> last_free_block s < b \<and>
        index_valid (index_f (files s)) b \<and> dindex (files s) b = CHR ''U''))"
    if "allocate_loop T bad s = Some r" for r
  proof (rule allocate_loop.raw_induct [where P = "\<lambda>T' bad s r. T' = T \<longrightarrow> 0 \<le> last_free_block s \<longrightarrow>
      (\<forall>b s'. r = Done b s' \<longrightarrow> (\<exists>m. s' = s\<lparr>last_free_block := b, srv := m\<rparr> \<and>
        last_free_block s < b \<and> index_valid (index_f (files s)) b \<and> dindex (files s) b = CHR ''U''))",
      OF _ that, THEN mp, OF _ refl], goal_cases)
    case (1 f T' bad s r)
    show ?case
    proof (intro impI allI)
      fix b s'
      assume T': "T' = T" and l: "0 \<le> last_free_block s" and r: "r = Done b s'"
      from 1(2) r obtain b1 s1 rp s2 where s1: "find_free_block T bad s = Done b1 s1"
          and s2: "ask_tpm T ALLOCATE b1 s1 = Done rp s2"
          and rest: "if fst rp then b = b1 \<and> s' = s2 else f T bad s2 = Some (Done b s')"
        unfolding T' by (auto split: run.splits if_splits)
      obtain m where m: "s2 = s1\<lparr>srv := m\<rparr>" using ask_Done [OF s2] by blast
      note ff = find_free_Done [OF s1]
      show "\<exists>m. s' = s\<lparr>last_free_block := b, srv := m\<rparr> \<and> last_free_block s < b \<and>
          index_valid (index_f (files s)) b \<and> dindex (files s) b = CHR ''U''"
      proof (cases "fst rp")
        case True
        then show ?thesis using rest ff l m by auto
      next
        case False
        then have "f T bad s2 = Some (Done b s')" using rest by simp
        then obtain m' where "s' = s2\<lparr>last_free_block := b, srv := m'\<rparr>" "last_free_block s2 < b"
            "index_valid (index_f (files s2)) b" "dindex (files s2) b = CHR ''U''"
          using 1(1) ff m l T' by force
        then show ?thesis using ff m by auto
      qed
    qed
  qed
  then show ?thesis using assms by blast
qed

lemma allocate_Done:
  assumes r: "allocate T bad s = Done b s'" and ok: "client_ok s"
  shows "client_ok s' \<and> files s' = files s \<and> view s b = None \<and> view s' = (view s)(b \<mapsto> zeros) \<and>
    block_valid (files s) b \<and> dindex (files s) b = CHR ''U''"
proof -
  let ?h = "snd (new_filled zeros (heap s))" and ?p = "Some (fresh (heap s))"
  let ?mb = "\<lparr>lock = A_LOCK, data = ?p, oldval = ?p, oldindex = CHR ''U''\<rparr>"
  have l0: "0 \<le> last_free_block s" using client_okD(3) [OF ok] .
  obtain s1 where s1: "allocate_loop T bad s = Some (Done b s1)"
      "pbind tx_new (\<lambda>a. pseq (tx_fill (Some a) zeros)
         (pseq (set_entry b \<lparr>lock = A_LOCK, data = Some a, oldval = Some a, oldindex = CHR ''U''\<rparr>)
           (Done b))) s1 = Done b s'"
    using r by (auto simp: allocate_def pbind_eq_Done pseq_eq_Done split: option.splits)
  obtain m where m: "s1 = s\<lparr>last_free_block := b, srv := m\<rparr>" "last_free_block s < b"
      "index_valid (index_f (files s)) b" "dindex (files s) b = CHR ''U''"
    using allocate_loop_Done [OF s1(1) l0] by blast
  have s': "s' = (s\<lparr>heap := ?h, bmap := mput b ?mb (bmap s), last_free_block := b\<rparr>)\<lparr>srv := m\<rparr>"
    using s1(2) by (auto simp: m(1) pbind_eq_Done pseq_eq_Done tx_new_def tx_fill_def fill_def
        new_buffer_def new_filled_def set_entry_Done)
  note mem = client_ok_base(1) [OF ok] and okb = client_ok_base(2) [OF ok] and z = client_ok_base(3) [OF ok]
  have bv: "block_valid (files s) b" using m(3) client_okD(4) [OF ok] files_ok_valid by blast
  have p: "?p = Some (fst (new_filled zeros (heap s)))" by (simp add: new_filled_def)
  have zb: "is_block zeros" by (simp add: is_block_def zeros_def)
  have bf: "bufval ?h ?p = zeros" unfolding p by simp
  have e: "entry_ok (files s) ?h b b ?mb"
    using m(4) bv zb unfolding p by (auto simp: entry_ok_def good_buffer_def)
  have sep: "\<forall>q \<in> buffers ?mb. \<not> live (heap s) q" using fresh_dead [OF mem] by (simp add: buffers_def)
  have "mfind (bmap s) b = None"
  proof (rule ccontr)
    assume "mfind (bmap s) b \<noteq> None"
    then obtain mb where "mfind (bmap s) b = Some mb" by auto
    then have "entry_ok (files s) (heap s) (last_free_block s) b mb" using client_okD(5) [OF ok] by blast
    then show False using m(2,4) by (cases "lock mb") (auto simp: entry_ok_def)
  qed
  then have "view s b = None" using m(4) by (simp add: view_def store_view_def)
  moreover have "client_ok s'" unfolding s'
    using client_ok_put [OF okb z _ extends_new [OF mem] sep e] m(2) l0 by simp
  moreover have "view s' = (view s)(b \<mapsto> zeros)" unfolding s'
    using view_put [OF okb z extends_new [OF mem, of zeros], where mb = ?mb and l = b] bf by simp
  ultimately show ?thesis using m(4) bv by (simp add: s')
qed

end

section \<open>The loop ends\<close>

text \<open>
  Each turn raises \<open>last_free_block\<close>, and past the end of the index the search restarts the
  transaction, so the loop ends after at most as many turns as the index has characters.
\<close>

lemma allocate_loop_returns:
  assumes "\<And>rq d m r d' m'. ask T rq d m = Ret (r, d', m') \<Longrightarrow> length (index_f d) \<le> n \<Longrightarrow> length (index_f d') \<le> n"
    and "length (index_f (files s)) \<le> n" "0 \<le> last_free_block s"
  shows "allocate_loop T bad s \<noteq> None"
  using assms(2,3)
proof (induction "nat (int n - last_free_block s)" arbitrary: s rule: less_induct)
  case less
  show ?case
  proof (cases "find_free_block T bad s")
    case s1: (Done b s1)
    show ?thesis
    proof (cases "ask_tpm T ALLOCATE b s1")
      case s2: (Done rp s2)
      note ff = find_free_block_Done [OF s1]
      have b: "last_free_block s < b" "b \<le> int n" "s1 = s\<lparr>last_free_block := b\<rparr>"
        using ff less.prems by (auto simp: index_valid_def)
      have len: "length (index_f (files s2)) \<le> n" "last_free_block s2 = b"
        using s2 assms(1) b(3) less.prems(1) by (auto simp: ask_tpm_def Let_def tx_abort_def split: outcome.splits if_splits)
      have "allocate_loop T bad s2 \<noteq> None"
        using less.hyps [OF _ len(1)] less.prems(2) b len(2) by auto
      then show ?thesis using s1 s2 by (subst allocate_loop.simps) auto
    qed (use s1 in \<open>subst allocate_loop.simps; simp\<close>)+
  qed (subst allocate_loop.simps; simp)+
qed

end
