(* ===== verification/LibraryLaws.thy ===== *)
theory LibraryLaws
  imports Triples Transaction
begin

text \<open>
  Facts about the state that hold along every run of the library calls \<open>allocate\<close>, \<open>read\<close>, \<open>write\<close> and
  \<open>release\<close>, however the call ends. \<open>obeys I X p\<close>: started in \<open>I\<close>, the program \<open>p\<close> returns in \<open>I\<close> and
  leaves by an exception or by \<open>exit\<close> in \<open>X\<close>. The locale says what \<open>I\<close> and \<open>X\<close> must satisfy so that all
  four calls obey them: they must survive the exchange with the monitor, a restart and an abort, and
  \<open>I\<close> must not look at the block map and the allocation cursor, nor at more of the heap than that
  addresses not yet handed out are unused.
\<close>

definition obeys ::
  "('s \<Rightarrow> bool) \<Rightarrow> ('e option \<Rightarrow> 's \<Rightarrow> bool) \<Rightarrow> ('e, 'a, 's) prog \<Rightarrow> bool" where
  "obeys I X p \<longleftrightarrow> triple True I p (\<lambda>_. I) X"

named_theorems obeys_intros \<open>programs that obey a law\<close>

lemma obeysI: "(\<And>s. I s \<Longrightarrow> post True (\<lambda>_. I) X (p s)) \<Longrightarrow> obeys I X p"
  by (simp add: obeys_def triple_def)

lemma obeysD: "obeys I X p \<Longrightarrow> I s \<Longrightarrow> post True (\<lambda>_. I) X (p s)"
  by (simp add: obeys_def triple_def)

lemma obeys_Done [obeys_intros]: "obeys I X (Done x)"
  by (rule obeysI) simp

lemma obeys_Wrong [obeys_intros]: "obeys I X (\<lambda>_. Wrong)"
  by (rule obeysI) simp

lemma obeys_pbind [obeys_intros]: "obeys I X p \<Longrightarrow> (\<And>x. obeys I X (f x)) \<Longrightarrow> obeys I X (pbind p f)"
  unfolding obeys_def by (rule triple_pbind)

lemma obeys_pseq [obeys_intros]: "obeys I X p \<Longrightarrow> obeys I X q \<Longrightarrow> obeys I X (pseq p q)"
  unfolding obeys_def by (rule triple_pseq)

lemma obeys_if [obeys_intros]:
  "(c \<Longrightarrow> obeys I X p) \<Longrightarrow> (\<not> c \<Longrightarrow> obeys I X q) \<Longrightarrow> obeys I X (if c then p else q)"
  by simp

lemma obeys_prod [obeys_intros]: "(\<And>a b. obeys I X (f a b)) \<Longrightarrow> obeys I X (case r of (a, b) \<Rightarrow> f a b)"
  by (cases r) simp

lemma obeys_at: "(\<And>s. I s \<Longrightarrow> \<exists>p. obeys I X p \<and> q s = p s) \<Longrightarrow> obeys I X q"
  by (rule obeysI) (metis obeysD)

lemma obeys_Throw: "obeys I X p \<Longrightarrow> I s \<Longrightarrow> p s = Throw e s' \<Longrightarrow> X (Some e) s'"
  using obeysD [of I X p s] by simp

lemma obeys_returns: "obeys I X p \<Longrightarrow> I s \<Longrightarrow> p s = Done x s' \<Longrightarrow> I s'"
  using obeysD [of I X p s] by simp

section \<open>The cases of the calls\<close>

lemma tx_read_at:
  "b \<le> 0 \<and> tx_read T bad b s = throw_abort s \<or> tx_read T bad b s = tx_abort s \<or>
   tx_read T bad b s = read_from_store T bad b s \<or> (\<exists>x. tx_read T bad b s = Done x s)"
  by (auto simp: tx_read_def split: option.split)

lemma tx_write_at:
  "b \<le> 0 \<and> tx_write T bad b v s = throw_abort s \<or> tx_write T bad b v s = tx_abort s \<or>
   tx_write T bad b v s = write_to_store T bad b v s \<or>
   (\<exists>mb. tx_write T bad b v s = pseq (drop_read_buffer b mb) (write_to_store T bad b v) s) \<or>
   (\<exists>p. tx_write T bad b v s = pbind (tx_deref p) (\<lambda>old. pseq (tx_fill p v) (Done old)) s)"
  by (auto simp: tx_write_def split: option.split locktype.split)

lemma tx_release_at:
  "b \<le> 0 \<and> tx_release T bad b s = throw_abort s \<or> tx_release T bad b s = release_in_store T bad b s \<or>
   (\<exists>mb. tx_release T bad b s = pseq (drop_read_buffer b mb) (release_in_store T bad b) s) \<or>
   tx_release T bad b s = Done () (s\<lparr>bmap := mupd b (\<lambda>mb. mb\<lparr>lock := S_LOCK\<rparr>) (bmap s)\<rparr>)"
  by (auto simp: tx_release_def split: option.split locktype.split)

text \<open>\<open>restart\<close> never returns, so the type of its result does not matter.\<close>

lemma restart_any:
  assumes "post w Q X (restart T s :: (TransactionException, unit, 'm cstate) run)"
  shows "post w Q' X (restart T s :: (TransactionException, 'a, 'm cstate) run)"
  using assms
  by (cases "ask_tpm T RESTART 0 s")
    (auto simp: restart_def pbind_def pseq_def tx_abort_def backoff_sleep_def Let_def split: if_splits)

lemma restart_law:
  assumes "obeys I X (ask_tpm T RESTART 0)" "I s"
    and "\<And>s. I s \<Longrightarrow> X (Some TE_ABORT) (s\<lparr>error_occured := True\<rparr>)"
    and "\<And>s e n xs. I s \<Longrightarrow> e \<in> {TE_ABORT, TE_RESTART} \<Longrightarrow>
      X (Some e) (s\<lparr>last_sleep := n, sleeps := xs, error_occured := True\<rparr>)"
  shows "post True (\<lambda>_ _. True) X (restart T s :: (TransactionException, 'a, 'm cstate) run)"
  unfolding restart_def
proof (rule post_bind, rule obeysD [OF assms(1,2)])
  fix r and s1 :: "'m cstate" assume s1: "I s1"
  have "X (Some TE_ABORT) (s1\<lparr>last_sleep := n, error_occured := True\<rparr>)" for n
    using assms(4) [OF s1, where e = TE_ABORT and n = n and xs = "sleeps s1"] by simp
  then show "post True (\<lambda>_ _. True) X ((case r of (okay, _) \<Rightarrow>
      if \<not> okay then tx_abort else pseq backoff_sleep (\<lambda>s. Throw TE_RESTART (s\<lparr>error_occured := True\<rparr>))) s1)"
    using assms(3) [OF s1] assms(4) [OF s1]
    by (auto simp: pseq_def pbind_def backoff_sleep_def Let_def tx_abort_def split: prod.split)
qed

section \<open>The law\<close>

locale library_law =
  fixes T :: "'m tpm"
    and I :: "'m cstate \<Rightarrow> bool"
    and X :: "TransactionException option \<Rightarrow> 'm cstate \<Rightarrow> bool"
  assumes asks: "q \<in> {ALLOCATE, READ, WRITE, RELEASE} \<Longrightarrow> obeys I X (ask_tpm T q b)"
    and restarts: "I s \<Longrightarrow> post True (\<lambda>_ _. True) X (restart T s :: (TransactionException, unit, 'm cstate) run)"
    and aborts: "I s \<Longrightarrow> X (Some TE_ABORT) (s\<lparr>error_occured := True\<rparr>)"
    and quits: "I s \<Longrightarrow> X None s"
    and cursor: "I s \<Longrightarrow> I (s\<lparr>last_free_block := n\<rparr>)"
    and buffers: "I s \<Longrightarrow> mem_ok (heap s) \<longrightarrow> mem_ok h \<Longrightarrow> I (s\<lparr>heap := h\<rparr>)"
    and entries: "I s \<Longrightarrow> I (s\<lparr>bmap := m\<rparr>)"
begin

lemma pieces [obeys_intros]:
  "obeys I X tx_abort" "obeys I X (is_allocated bad b)" "obeys I X tx_new" "obeys I X (tx_fill p v)"
  "obeys I X (tx_deref p)" "obeys I X (tx_delete p)" "obeys I X (set_entry b mb)"
  "obeys I X (tx_read_store bad b)" "obeys I X (\<lambda>s. Done x (s\<lparr>bmap := f s\<rparr>))"
  by (rule obeysI; auto simp: tx_abort_def is_allocated_def tx_new_def tx_fill_def
      tx_deref_def tx_delete_def set_entry_def tx_read_store_def aborts quits buffers entries mem_ok_changes
      split: outcome.split option.split prod.split)+

lemma restarting [obeys_intros]: "obeys I X (restart T)"
  by (rule obeysI) (rule restart_any [OF restarts])

lemma finding [obeys_intros]: "obeys I X (find_free_block T bad)"
proof (rule obeysI)
  fix s assume s: "I s"
  show "post True (\<lambda>_. I) X (find_free_block T bad s)"
    using cursor [OF s] obeysD [OF restarting cursor [OF s]] quits [OF s]
    by (auto simp: find_free_block_def Let_def split: outcome.split)
qed

lemma looping:
  assumes "allocate_loop T bad s = Some r" "I s"
  shows "post True (\<lambda>_. I) X r"
proof -
  have "T = T \<longrightarrow> I s \<longrightarrow> post True (\<lambda>_. I) X r"
  proof (rule allocate_loop.raw_induct [where P = "\<lambda>T' bad s r. T' = T \<longrightarrow> I s \<longrightarrow>
      post True (\<lambda>_. I) X r", OF _ assms(1)], goal_cases)
    case (1 f T' bad s r)
    show ?case
    proof (intro impI)
      assume T': "T' = T" and s: "I s"
      note ff = obeysD [OF finding s, of bad]
      show "post True (\<lambda>_. I) X r"
      proof (cases "find_free_block T bad s")
        case s1: (Done b s1)
        then have "I s1" using ff by simp
        then have aq: "post True (\<lambda>_. I) X (ask_tpm T ALLOCATE b s1)" by (intro obeysD [OF asks]) simp
        show ?thesis using 1 s1 aq T' by (cases "ask_tpm T ALLOCATE b s1") (auto split: if_splits)
      qed (use 1(2) ff T' in auto)
    qed
  qed
  then show ?thesis using assms(2) by blast
qed

lemma allocating [obeys_intros]: "obeys I X (allocate T bad)"
proof -
  have "obeys I X (\<lambda>s. case allocate_loop T bad s of None \<Rightarrow> Loop | Some r \<Rightarrow> r)"
    by (rule obeysI) (auto split: option.split dest: looping)
  then show ?thesis unfolding allocate_def by (intro obeys_intros)
qed

text \<open>The parts of the calls that talk to the monitor and the disk.\<close>

lemma dropping [obeys_intros]: "obeys I X (drop_read_buffer b mb)"
  unfolding drop_read_buffer_def by (intro obeys_intros)

lemma reading [obeys_intros]: "obeys I X (read_from_store T bad b)"
  unfolding read_from_store_def by (intro obeys_intros asks) simp_all

lemma writing [obeys_intros]: "obeys I X (write_to_store T bad b v)"
  unfolding write_to_store_def by (intro obeys_intros asks) simp_all

lemma releasing [obeys_intros]: "obeys I X (release_in_store T bad b)"
  unfolding release_in_store_def by (intro obeys_intros asks) simp_all

lemma local_writing [obeys_intros]:
  "obeys I X (pbind (tx_deref p) (\<lambda>old. pseq (tx_fill p v) (Done old)))"
  by (intro obeys_intros)

text \<open>A block number that is not positive makes the calls throw without \<open>abort()\<close>.\<close>

lemma calls:
  assumes "b > 0 \<or> (\<forall>s. I s \<longrightarrow> X (Some TE_ABORT) s)"
  shows "obeys I X (tx_read T bad b)" "obeys I X (tx_write T bad b v)" "obeys I X (tx_release T bad b)"
proof -
  have th: "b \<le> 0 \<Longrightarrow> obeys I X throw_abort"
    using assms by (auto intro!: obeysI simp: throw_abort_def)
  show "obeys I X (tx_read T bad b)"
    by (rule obeys_at) (use tx_read_at [of b T bad] th pieces(1) reading obeys_Done in metis)
  show "obeys I X (tx_write T bad b v)"
    by (rule obeys_at) (use tx_write_at [of b T bad v] th pieces(1) writing local_writing
        obeys_pseq [OF dropping writing] in metis)
  have mark: "obeys I X (\<lambda>s. Done () (s\<lparr>bmap := mupd b (\<lambda>mb. mb\<lparr>lock := S_LOCK\<rparr>) (bmap s)\<rparr>))"
    by (rule pieces)
  show "obeys I X (tx_release T bad b)"
  proof (rule obeys_at)
    fix s
    show "\<exists>p. obeys I X p \<and> tx_release T bad b s = p s"
      using tx_release_at [of b T bad s]
    proof (elim disjE exE conjE)
      assume "b \<le> 0" "tx_release T bad b s = throw_abort s"
      then show ?thesis using th by blast
    next
      assume "tx_release T bad b s = Done () (s\<lparr>bmap := mupd b (\<lambda>mb. mb\<lparr>lock := S_LOCK\<rparr>) (bmap s)\<rparr>)"
      then show ?thesis using mark by (intro exI conjI)
    qed (use releasing obeys_pseq [OF dropping releasing] in blast)+
  qed
qed

end

text \<open>Laws that also survive the bare \<open>throw TE_ABORT\<close> hold for calls with any block number.\<close>

locale strict_law = library_law +
  assumes throws: "I s \<Longrightarrow> X (Some TE_ABORT) s"
begin

lemma every_call [obeys_intros]:
  "obeys I X (tx_read T bad b)" "obeys I X (tx_write T bad b v)" "obeys I X (tx_release T bad b)"
  using calls throws by blast+

end

section \<open>The law of the commit phase\<close>

locale commit_law =
  fixes bad :: env
    and I :: "'m cstate \<Rightarrow> bool"
    and X :: "TransactionException option \<Rightarrow> 'm cstate \<Rightarrow> bool"
  assumes logging: "obeys I X (tx_log bad a b oi ov)"
    and indexing: "obeys I X (put_index bad b c)"
    and storing: "obeys I X (put_store bad b v)"
    and derefs: "obeys I X (tx_deref p)"
begin

lemma entry: "obeys I X (commit_entry bad b mb)"
proof -
  have ov: "obeys I X (oldval_arg p)" for p
    unfolding oldval_arg_def by (intro obeys_intros derefs)
  show ?thesis
    by (cases "lock mb") (auto simp: commit_entry_def intro!: obeys_pseq obeys_pbind logging indexing
        storing derefs ov)
qed

lemma all_entries: "obeys I X (commit_entries bad es)"
  by (induction es) (auto intro!: obeys_intros entry)

lemma block_map: "obeys I X (\<lambda>s. commit_entries bad (bmap s) s)"
  by (rule obeysI) (rule obeysD [OF all_entries])

end

end
