(* ===== verification/Scripts.thy ===== *)
theory Scripts
  imports AllocateOp LibraryLaws
begin

text \<open>
  Transaction bodies as scripts: the calls a program makes on its \<open>Transaction\<close> object between
  \<open>Begin(T)\<close> and \<open>End(T)\<close>, where what follows may depend on the results. \<open>exec\<close> runs a script with the
  library, \<open>runs_to\<close> is its meaning on a plain map from blocks to contents, and \<open>exec_refines\<close> says
  that the library implements the map.
\<close>

datatype script = Finish
  | Alloc "int \<Rightarrow> script"
  | ReadB block_no "byte list \<Rightarrow> script"
  | WriteB block_no "byte list" "byte list \<Rightarrow> script"
  | ReleaseB block_no script
  | AbortT

text \<open>\<open>memcpy\<close> reads \<open>BLOCKSIZE\<close> bytes from the caller's buffer, so a shorter one is undefined.\<close>

primrec exec :: "'m tpm \<Rightarrow> env \<Rightarrow> script \<Rightarrow> (unit, 'm) cprog" where
  "exec T bad Finish = Done ()"
| "exec T bad (Alloc k) = pbind (allocate T bad) (\<lambda>b. exec T bad (k b))"
| "exec T bad (ReadB b k) = pbind (tx_read T bad b) (\<lambda>p. pbind (tx_deref p) (\<lambda>v. exec T bad (k v)))"
| "exec T bad (WriteB b new k) =
     (if is_block new then pbind (tx_write T bad b new) (\<lambda>old. exec T bad (k old)) else (\<lambda>_. Wrong))"
| "exec T bad (ReleaseB b k) = pseq (tx_release T bad b) (exec T bad k)"
| "exec T bad AbortT = tx_abort"

inductive runs_to ::
  "script \<Rightarrow> (block_no \<rightharpoonup> byte list) \<Rightarrow> (block_no \<rightharpoonup> byte list) \<Rightarrow> bool" where
  on_finish: "runs_to Finish \<sigma> \<sigma>"
| on_alloc: "\<sigma> b = None \<Longrightarrow> runs_to (k b) (\<sigma>(b \<mapsto> zeros)) \<sigma>' \<Longrightarrow> runs_to (Alloc k) \<sigma> \<sigma>'"
| on_read: "\<sigma> b = Some v \<Longrightarrow> runs_to (k v) \<sigma> \<sigma>' \<Longrightarrow> runs_to (ReadB b k) \<sigma> \<sigma>'"
| on_write: "\<sigma> b = Some old \<Longrightarrow> runs_to (k old) (\<sigma>(b \<mapsto> new)) \<sigma>' \<Longrightarrow> runs_to (WriteB b new k) \<sigma> \<sigma>'"
| on_release: "runs_to k (\<sigma>(b := None)) \<sigma>' \<Longrightarrow> runs_to (ReleaseB b k) \<sigma> \<sigma>'"

inductive_cases runs_toE:
  "runs_to Finish \<sigma> \<sigma>'" "runs_to (Alloc k) \<sigma> \<sigma>'" "runs_to (ReadB b k) \<sigma> \<sigma>'"
  "runs_to (WriteB b new k) \<sigma> \<sigma>'" "runs_to (ReleaseB b k) \<sigma> \<sigma>'" "runs_to AbortT \<sigma> \<sigma>'"

lemma tx_deref_Done: "tx_deref p s = Done v s' \<longleftrightarrow> deref (heap s) p = Ret v \<and> s' = s"
  by (cases "deref (heap s) p") (auto simp: tx_deref_def)

context quiet_tpm
begin

theorem exec_refines:
  assumes "exec T bad scr s = Done u s'" "client_ok s"
  shows "runs_to scr (view s) (view s') \<and> client_ok s' \<and> files s' = files s"
  using assms
proof (induction scr arbitrary: s)
  case Finish
  then show ?case by (auto intro: runs_to.intros)
next
  case (Alloc k)
  then obtain b s1 where s1: "allocate T bad s = Done b s1" "exec T bad (k b) s1 = Done u s'"
    by (auto simp: pbind_eq_Done)
  note a = allocate_Done [OF s1(1) Alloc.prems(2)]
  then have "runs_to (k b) ((view s)(b \<mapsto> zeros)) (view s') \<and> client_ok s' \<and> files s' = files s"
    using Alloc.IH [OF rangeI s1(2)] by (metis a)
  then show ?case using a runs_to.on_alloc [of "view s" b k] by blast
next
  case (ReadB b k)
  then obtain p v s1 where s1: "tx_read T bad b s = Done p s1" "tx_deref p s1 = Done v s1"
      "exec T bad (k v) s1 = Done u s'"
    by (auto simp: pbind_eq_Done tx_deref_Done)
  note a = tx_read_Done [OF s1(1) ReadB.prems(2)]
  have "view s b = Some v" using a s1(2) by (auto simp: tx_deref_Done)
  moreover have "runs_to (k v) (view s) (view s') \<and> client_ok s' \<and> files s' = files s"
    using ReadB.IH [OF rangeI s1(3)] by (metis a)
  ultimately show ?case using runs_to.on_read [of "view s" b v k] by blast
next
  case (WriteB b new k)
  then obtain old s1 where s1: "tx_write T bad b new s = Done old s1" "exec T bad (k old) s1 = Done u s'"
    and new: "is_block new"
    by (auto simp: pbind_eq_Done split: if_splits)
  note a = tx_write_Done [OF s1(1) WriteB.prems(2) new]
  then have "runs_to (k old) ((view s)(b \<mapsto> new)) (view s') \<and> client_ok s' \<and> files s' = files s"
    using WriteB.IH [OF rangeI s1(2)] by (metis a)
  then show ?case using a runs_to.on_write [of "view s" b old k] by blast
next
  case (ReleaseB b k)
  then obtain u1 s1 where s1: "tx_release T bad b s = Done u1 s1" "exec T bad k s1 = Done u s'"
    by (auto simp: pseq_eq_Done)
  note a = tx_release_Done [OF s1(1) ReleaseB.prems(2)]
  then have "runs_to k ((view s)(b := None)) (view s') \<and> client_ok s' \<and> files s' = files s"
    using ReleaseB.IH [OF s1(2)] by (metis a)
  then show ?case using runs_to.on_release by blast
next
  case AbortT
  then show ?case by (simp add: tx_abort_def)
qed

end

section \<open>What every transaction keeps\<close>

context strict_law
begin

lemma executing: "obeys I X (exec T bad scr)"
  by (induction scr) (auto intro!: obeys_intros)

end

text \<open>
  Without a commit nothing but the allocation cursor, the buffers, the block map, the flag and the
  backoff state of the process changes.
\<close>

definition frame :: "disk \<Rightarrow> trid_t \<Rightarrow> nat \<Rightarrow> 'm cstate \<Rightarrow> bool" where
  "frame d t l s \<longleftrightarrow> files s = d \<and> tid s = t \<and> lfd s = l"

lemma frame_ask:
  assumes "quiet_tpm T"
  shows "obeys (frame d t l) (\<lambda>_. frame d t l) (ask_tpm T q b)"
  by (rule obeysI) (auto simp: frame_def ask_tpm_def tx_abort_def Let_def
      dest!: quiet_tpm.quiet [OF assms] split: outcome.split)

lemma frame_restart:
  assumes "quiet_tpm T" "frame d t l s"
  shows "post True (\<lambda>_ _. True) (\<lambda>_. frame d t l) (restart T s)"
  by (rule restart_law [OF frame_ask [OF assms(1)] assms(2)]) (simp_all add: frame_def)

sublocale quiet_tpm < fr: strict_law T "frame d t l" "\<lambda>_. frame d t l" for d t l
proof (unfold_locales, goal_cases)
  case (1 q b)
  show ?case by (rule frame_ask [OF quiet_tpm_axioms])
next
  case (2 s)
  then show ?case by (rule frame_restart [OF quiet_tpm_axioms])
qed (simp_all add: frame_def)

text \<open>A call that returns has not touched the error flag.\<close>

lemma restart_never: "post True (\<lambda>_ _. True) (\<lambda>_ _. True) r"
  by (cases r) auto

interpretation clean: strict_law T "\<lambda>s. error_occured s = e" "\<lambda>_ _. True" for T e
  by unfold_locales (auto intro!: obeysI restart_never simp: ask_tpm_def tx_abort_def Let_def
      split: outcome.split)

context quiet_tpm
begin

text \<open>Until the commit a transaction changes no file, whatever it calls and however it ends.\<close>

theorem exec_defers_writes:
  assumes "final (exec T bad scr s) = Some s'"
  shows "files s' = files s \<and> tid s' = tid s \<and> lfd s' = lfd s"
proof -
  have "post True (\<lambda>_. frame (files s) (tid s) (lfd s)) (\<lambda>_. frame (files s) (tid s) (lfd s)) (exec T bad scr s)"
    by (rule obeysD [OF fr.executing]) (simp add: frame_def)
  then show ?thesis using assms by (cases "exec T bad scr s") (auto simp: frame_def)
qed

end

end
