(* ===== verification/RecoverAll.thy ===== *)
theory RecoverAll
  imports Recovery
begin

text \<open>
  The offline recovery of \<open>doRecovery\<close>: which transactions \<open>collect\<close> calls broken, what undoing all of
  them does to the files, and that a second run finds nothing to do.
\<close>

definition closes :: "logrecord \<Rightarrow> bool" where
  "closes r \<longleftrightarrow> lr_action r = LEND \<or> lr_action r = LABORT"

text \<open>The records of \<open>t\<close> after its last END or ABORT.\<close>

definition open_tail :: "trid_t \<Rightarrow> logrecord list \<Rightarrow> logrecord list" where
  "open_tail t recs = rev (takeWhile (\<lambda>r. \<not> closes r) (rev (filter (\<lambda>r. lr_tid r = t) recs)))"

lemma open_tail_Nil [simp]: "open_tail t [] = []"
  by (simp add: open_tail_def)

lemma open_tail_snoc [simp]:
  "open_tail t (recs @ [r]) =
     (if lr_tid r \<noteq> t then open_tail t recs else if closes r then [] else open_tail t recs @ [r])"
  by (simp add: open_tail_def)

lemma collect_snoc: "collect (recs @ [r]) = collect_step (collect recs) r"
  by (simp add: collect_def)

lemma mfind_collect_step:
  "mfind (collect_step bts r) t =
     (if lr_tid r \<noteq> t then mfind bts t
      else if closes r then None
      else Some ((case mfind bts t of None \<Rightarrow> [] | Some l \<Rightarrow> l) @ [r]))"
  by (auto simp: collect_step_def closes_def Let_def split: option.splits)

lemma mfind_collect:
  "mfind (collect recs) t = (if open_tail t recs = [] then None else Some (open_tail t recs))"
proof (induction recs rule: rev_induct)
  case Nil
  show ?case by (simp add: collect_def)
next
  case (snoc r recs)
  then show ?case by (auto simp: collect_snoc mfind_collect_step)
qed

lemma ordered_collect [simp]: "ordered (collect recs)"
proof (induction recs rule: rev_induct)
  case (snoc r recs)
  then show ?case by (simp add: collect_snoc collect_step_def Let_def)
qed (simp add: collect_def)

lemma open_tail_own: "r \<in> set (open_tail t recs) \<Longrightarrow> r \<in> set recs \<and> lr_tid r = t \<and> \<not> closes r"
  by (auto simp: open_tail_def dest: set_takeWhileD)

lemma collect_entry:
  assumes "(t, l) \<in> set (collect recs)"
  shows "l = open_tail t recs" "l \<noteq> []"
  using ordered_mfind [OF ordered_collect assms] by (auto simp: mfind_collect split: if_splits)

lemma collect_empty_iff: "collect recs = [] \<longleftrightarrow> (\<forall>t. open_tail t recs = [])"
proof
  assume "\<forall>t. open_tail t recs = []"
  then have "mfind (collect recs) t = None" for t by (simp add: mfind_collect)
  then have "mdom (collect recs) = {}" using mfind_mdom by (metis all_not_in_conv)
  then show "collect recs = []" by simp
next
  assume "collect recs = []"
  then show "\<forall>t. open_tail t recs = []"
    using mfind_collect [of recs] by (metis mfind_empty option.distinct(1))
qed

lemma mdom_collect: "t \<in> mdom (collect recs) \<longleftrightarrow> open_tail t recs \<noteq> []"
  by (simp add: mfind_mdom mfind_collect)

text \<open>Records appended behind a log.\<close>

lemma open_tail_append_other:
  "\<forall>r \<in> set rs. lr_tid r \<noteq> t \<Longrightarrow> open_tail t (recs @ rs) = open_tail t recs"
  by (induction rs rule: rev_induct) (auto simp flip: append_assoc)

lemma open_tail_closed:
  assumes "closes r" "lr_tid r = t" "\<forall>x \<in> set rs. lr_tid x = t \<longrightarrow> closes x"
  shows "open_tail t (recs @ r # rs) = []"
  using assms(3)
proof (induction rs rule: rev_induct)
  case Nil
  then show ?case using assms(1,2) by simp
next
  case (snoc x rs)
  then show ?case by (auto simp flip: append_assoc append_Cons)
qed

lemma readable_all [simp]: "readable no_faults recs = recs"
  by (simp add: readable_def takeWhile_eq_all_conv [THEN iffD2])

section \<open>The effect of undoing every broken transaction\<close>

definition abort_record :: "trid_t \<Rightarrow> logrecord" where
  "abort_record t = zero_rec\<lparr>lr_tid := t, lr_action := LABORT\<rparr>"

lemma abort_record_sel [simp]: "lr_tid (abort_record t) = t" "lr_action (abort_record t) = LABORT"
  "closes (abort_record t)"
  by (simp_all add: abort_record_def closes_def)

definition same_files :: "disk \<Rightarrow> disk \<Rightarrow> bool" where
  "same_files d d' \<longleftrightarrow> index_f d = index_f d' \<and> store_f d = store_f d'"

lemma same_files_refl [simp]: "same_files d d"
  by (simp add: same_files_def)

lemma same_files_views:
  assumes "same_files d d'"
  shows "dindex d b = dindex d' b" "dblock d b = dblock d' b" "block_valid d b = block_valid d' b"
    "rec_ok d r = rec_ok d' r"
  using assms by (auto simp: same_files_def dindex_def dblock_def block_valid_def rec_ok_def)

lemma same_files_undo_eff: "same_files d d' \<Longrightarrow> same_files (undo_eff r d) (undo_eff r d')"
  by (cases "lr_action r") (auto simp: same_files_def undo_eff.simps)

lemma same_files_undo_all: "same_files d d' \<Longrightarrow> same_files (undo_all rs d) (undo_all rs d')"
  by (induction rs arbitrary: d d') (auto intro: same_files_undo_eff)

lemma pwrite_at_end [simp]: "pwrite z f (length f) bs = f @ bs"
  by (simp add: pwrite_def)

lemma abort_front_all:
  assumes "l \<noteq> []"
  shows "\<exists>s'. abort_front no_faults l s = Done () s' \<and> same_files (dsk s') (dsk s) \<and>
     log_f (dsk s') = log_f (dsk s) @ [abort_record (lr_tid (hd l))]"
  using assms
  by (cases l) (auto simp: abort_front_def front_tid_def write_abort_rec_def write_record_def
      pseq_def pbind_def put_record_def append_alog_def seek_end_def same_files_def abort_record_def)

lemma undo_broken_all:
  assumes "\<forall>(t, l) \<in> set bts. l \<noteq> [] \<and> (\<forall>r \<in> set l. rec_ok (dsk s) r \<and> lr_tid r = t)"
  shows "\<exists>s'. undo_broken no_faults bts s = Done () s' \<and>
     same_files (dsk s') (undo_all (concat (map snd bts)) (dsk s)) \<and>
     log_f (dsk s') = log_f (dsk s) @ map (\<lambda>p. abort_record (fst p)) bts"
  using assms
proof (induction bts arbitrary: s)
  case Nil
  show ?case by simp
next
  case (Cons p bts)
  obtain t l where p: "p = (t, l)" by (cases p)
  let ?s1 = "s\<lparr>dsk := undo_all l (dsk s)\<rparr>"
  have l: "l \<noteq> []" "\<forall>r \<in> set l. rec_ok (dsk s) r" "lr_tid (hd l) = t"
    using Cons.prems p by auto
  obtain s2 where s2: "abort_front no_faults l ?s1 = Done () s2" "same_files (dsk s2) (dsk ?s1)"
      "log_f (dsk s2) = log_f (dsk ?s1) @ [abort_record t]"
    using abort_front_all [OF l(1), of ?s1] l(3) by auto
  have "\<forall>(t, l) \<in> set bts. l \<noteq> [] \<and> (\<forall>r \<in> set l. rec_ok (dsk s2) r \<and> lr_tid r = t)"
    using Cons.prems l(2) by (auto simp: same_files_views [OF s2(2)] undo_all_valid)
  then obtain s' where s': "undo_broken no_faults bts s2 = Done () s'"
      "same_files (dsk s') (undo_all (concat (map snd bts)) (dsk s2))"
      "log_f (dsk s') = log_f (dsk s2) @ map (\<lambda>p. abort_record (fst p)) bts"
    using Cons.IH by blast
  have "undo_broken no_faults (p # bts) s = Done () s'"
    using s2(1) s'(1) by (simp add: p pseq_def pbind_def undo_rec_all [OF l(2)])
  moreover have "same_files (dsk s') (undo_all (concat (map snd (p # bts))) (dsk s))"
    using s'(2) same_files_undo_all [OF s2(2), of "concat (map snd bts)"]
    by (auto simp: p same_files_def)
  moreover have "log_f (dsk s') = log_f (dsk s) @ map (\<lambda>p. abort_record (fst p)) (p # bts)"
    using s'(3) s2(3) l(2) by (simp add: p undo_all_valid)
  ultimately show ?case by blast
qed

text \<open>A whole recovery run over a log whose effective records name valid cells.\<close>

lemma doRecovery_all:
  assumes "recs = log_f (dsk s)" "\<forall>r \<in> set recs. rec_ok (dsk s) r"
  shows "\<exists>s'. doRecovery no_faults recs s = Done () s' \<and>
     same_files (dsk s') (undo_all (concat (map snd (collect recs))) (dsk s)) \<and>
     log_f (dsk s') = recs @ map (\<lambda>p. abort_record (fst p)) (collect recs)"
proof -
  have "\<forall>(t, l) \<in> set (collect recs). l \<noteq> [] \<and> (\<forall>r \<in> set l. rec_ok (dsk s) r \<and> lr_tid r = t)"
    using assms(2) open_tail_own by (auto dest: collect_entry)
  then show ?thesis
    using undo_broken_all [of "collect recs" s] assms(1) by (simp add: doRecovery_def)
qed

lemma aborted_log_closed:
  "collect (recs @ map (\<lambda>p. abort_record (fst p)) (collect recs)) = []"
proof -
  have "open_tail t (recs @ map (\<lambda>p. abort_record (fst p)) (collect recs)) = []" for t
  proof (cases "t \<in> mdom (collect recs)")
    case True
    then obtain l where "(t, l) \<in> set (collect recs)" by auto
    then obtain xs ys where "collect recs = xs @ (t, l) # ys" by (meson split_list)
    then show ?thesis
      using open_tail_closed [of "abort_record t" t "map (\<lambda>p. abort_record (fst p)) ys"
          "recs @ map (\<lambda>p. abort_record (fst p)) xs"] by auto
  next
    case False
    then have "\<forall>r \<in> set (map (\<lambda>p. abort_record (fst p)) (collect recs)). lr_tid r \<noteq> t"
      by auto
    then show ?thesis using False by (simp add: open_tail_append_other mdom_collect)
  qed
  then show ?thesis by (simp add: collect_empty_iff)
qed

end
