(* ===== verification/Rollback.thy ===== *)
theory Rollback
  imports RecoverAll
begin

text \<open>
  What one call of \<open>LogManager::rollback\<close> does with a log that may hold records of other
  transactions before, between and behind those of the transaction it undoes.
\<close>

definition own_recs :: "trid_t \<Rightarrow> logrecord list \<Rightarrow> logrecord list" where
  "own_recs t recs = filter (\<lambda>r. lr_tid r = t) recs"

lemma own_recs_simps [simp]:
  "own_recs t [] = []" "own_recs t (r # rs) = (if lr_tid r = t then r # own_recs t rs else own_recs t rs)"
  "own_recs t (rs @ rs') = own_recs t rs @ own_recs t rs'" "own_recs t (rev rs) = rev (own_recs t rs)"
  "set (own_recs t rs) = {r \<in> set rs. lr_tid r = t}"
  by (auto simp: own_recs_def rev_filter)

lemma walk_own:
  "\<forall>r \<in> set rs. \<not> ends_walk t r \<Longrightarrow> walk t (rs @ rs') acc = walk t rs' (acc @ own_recs t rs)"
  by (induction rs arbitrary: acc) (auto simp: ends_walk_def)

lemma walk_begin:
  assumes "lr_tid b = t" "lr_action b = LBEGIN" "\<forall>r \<in> set mid. \<not> ends_walk t r"
  shows "walk t (rev (pre @ b # mid)) [] = Some (Collected (rev (own_recs t mid) @ [b]))"
  using assms walk_own [of "rev mid" t "b # rev pre" "[]"] by simp

lemma walk_end:
  assumes "lr_tid b = t" "lr_action b = LEND" "\<forall>r \<in> set mid. \<not> ends_walk t r"
  shows "walk t (rev (pre @ b # mid)) [] = Some EndFound"
  using assms walk_own [of "rev mid" t "b # rev pre" "[]"] by simp

lemma undo_eff_begin: "lr_action b = LBEGIN \<Longrightarrow> undo_eff b d = d"
  by (simp add: undo_eff.simps)

text \<open>The log as \<open>rollback\<close> finds it: the last BEGIN or END record of \<open>t\<close> is a BEGIN.\<close>

lemma rollback_undoes:
  assumes log: "log_f (dsk s) = pre @ b # mid" "lr_tid b = t" "lr_action b = LBEGIN"
    and mid: "\<forall>r \<in> set mid. \<not> ends_walk t r"
    and ok: "\<forall>r \<in> set (own_recs t mid). rec_ok (dsk s) r" "one_per_block (own_recs t mid)"
  shows "\<exists>s'. rollback no_faults t s = Done () s' \<and>
    same_files (dsk s') (undo_all (own_recs t mid) (dsk s)) \<and>
    log_f (dsk s') = log_f (dsk s) @ [abort_record t]"
proof -
  let ?l = "rev (own_recs t mid) @ [b]"
  have okl: "\<forall>r \<in> set ?l. rec_ok (dsk s) r" using ok(1) log(3) by (auto simp: rec_ok_def effective_def)
  have scan: "rollback_scan no_faults (log_f (dsk s)) t (length (log_f (dsk s))) [] =
      Some (Collected ?l)"
    using walk_begin [OF log(2,3) mid] scan_whole [of "log_f (dsk s)" t] log(1) by simp
  obtain s' where s': "abort_front no_faults ?l (s\<lparr>dsk := undo_all ?l (dsk s)\<rparr>) = Done () s'"
      "same_files (dsk s') (undo_all ?l (dsk s))"
      "log_f (dsk s') = log_f (undo_all ?l (dsk s)) @ [abort_record (lr_tid (hd ?l))]"
    using abort_front_all [of ?l "s\<lparr>dsk := undo_all ?l (dsk s)\<rparr>"] by auto
  have "lr_tid (hd ?l) = t"
    using log(2) by (cases "rev (own_recs t mid)")
      (auto dest!: arg_cong [of _ _ set])
  moreover have "undo_all ?l (dsk s) = undo_all (own_recs t mid) (dsk s)"
    using undo_all_rev [OF ok] log(3) by (simp add: undo_eff_begin)
  moreover have "rollback no_faults t s = Done () s'"
    using s'(1) by (simp add: rollback_def scan pseq_def pbind_def undo_rec_all [OF okl])
  ultimately show ?thesis using s'(2,3) undo_all_valid(3) [OF okl] by auto
qed

lemma rollback_ended:
  assumes "log_f (dsk s) = pre @ b # mid" "lr_tid b = t" "lr_action b = LEND"
    and "\<forall>r \<in> set mid. \<not> ends_walk t r"
  shows "rollback no_faults t s = Done () s"
  using walk_end [OF assms(2-4)] scan_whole [of "log_f (dsk s)" t] assms(1)
  by (simp add: rollback_def)

lemma rollback_lost:
  assumes "log_f (dsk s) \<noteq> []" "\<forall>r \<in> set (log_f (dsk s)). \<not> ends_walk t r"
  shows "rollback no_faults t s = Loop"
  using walk_None [of t "rev (log_f (dsk s))" "[]"] scan_whole [OF assms(1), of t] assms(2)
  by (simp add: rollback_def)

lemma rollback_empty: "log_f (dsk s) = [] \<Longrightarrow> rollback no_faults t s = Wrong"
  by (simp add: rollback_def rollback_scan.simps)

text \<open>The call never returns exactly when a non-empty log lacks both records.\<close>

lemma rollback_scan_cases:
  assumes "log_f (dsk s) \<noteq> []" "r \<in> set (log_f (dsk s))" "ends_walk t r"
  obtains (beg) pre b mid where "log_f (dsk s) = pre @ b # mid" "lr_tid b = t" "lr_action b = LBEGIN"
      "\<forall>r \<in> set mid. \<not> ends_walk t r"
    | (fin) pre b mid where "log_f (dsk s) = pre @ b # mid" "lr_tid b = t" "lr_action b = LEND"
      "\<forall>r \<in> set mid. \<not> ends_walk t r"
proof -
  obtain pre b mid where "log_f (dsk s) = pre @ b # mid" "ends_walk t b"
      "\<forall>r \<in> set mid. \<not> ends_walk t r"
    using split_list_last_prop [of "log_f (dsk s)" "ends_walk t"] assms by blast
  then show ?thesis using that by (auto simp: ends_walk_def)
qed

lemma rollback_loops_iff:
  assumes "log_f (dsk s) \<noteq> []"
    and "\<forall>r \<in> set (own_recs t (log_f (dsk s))). rec_ok (dsk s) r"
  shows "rollback no_faults t s = Loop \<longleftrightarrow> (\<forall>r \<in> set (log_f (dsk s)). \<not> ends_walk t r)"
proof
  assume lp: "rollback no_faults t s = Loop"
  show "\<forall>r \<in> set (log_f (dsk s)). \<not> ends_walk t r"
  proof (rule ballI, rule notI)
    fix r assume r: "r \<in> set (log_f (dsk s))" "ends_walk t r"
    from assms(1) r show False
    proof (cases rule: rollback_scan_cases)
      case (beg pre b mid)
      let ?l = "rev (own_recs t mid) @ [b]"
      have okl: "\<forall>r \<in> set ?l. rec_ok (dsk s) r" using assms(2) beg by auto
      have "rollback_scan no_faults (log_f (dsk s)) t (length (log_f (dsk s))) [] =
          Some (Collected ?l)"
        using walk_begin [OF beg(2-4)] scan_whole [OF assms(1), of t] beg(1) by simp
      moreover obtain s' where "abort_front no_faults ?l (s\<lparr>dsk := undo_all ?l (dsk s)\<rparr>) = Done () s'"
        using abort_front_all [of ?l "s\<lparr>dsk := undo_all ?l (dsk s)\<rparr>"] by auto
      ultimately have "rollback no_faults t s = Done () s'"
        by (simp add: rollback_def pseq_def pbind_def undo_rec_all [OF okl])
      with lp show False by simp
    next
      case (fin pre b mid)
      with rollback_ended [OF fin] lp show False by simp
    qed
  qed
qed (use rollback_lost [OF assms(1)] in blast)

end
