(* ===== verification/Commit.thy ===== *)
theory Commit
  imports ClientOps Rollback LibraryLaws
begin

text \<open>
  The commit phase, step by step. \<open>undoable d0 W d\<close> relates the files \<open>d0\<close> before the commit, the
  records \<open>W\<close> the transaction has logged since its BEGIN and the files \<open>d\<close> now: undoing \<open>W\<close> leads back
  to the store of \<open>d0\<close>. Every log record and every write of \<open>Transaction::commit\<close> keeps it, wherever a
  failing system call stops the code; \<open>committed\<close> is what a finished commit leaves.
\<close>

section \<open>Undoable files\<close>

definition restores :: "disk \<Rightarrow> disk \<Rightarrow> logrecord \<Rightarrow> bool" where
  "restores d0 d r \<longleftrightarrow> (let b = lr_block r in
     (case lr_action r of
        LWRITE \<Rightarrow> dindex d b = CHR ''A'' \<and> dindex d0 b = CHR ''A'' \<and> lr_oldval r = dblock d0 b
      | LALLOCATE \<Rightarrow> dindex d0 b = CHR ''U''
      | LRELEASE \<Rightarrow> lr_oindex r = dindex d0 b \<and> dblock d b = dblock d0 b \<and>
          (lr_oindex r = CHR ''A'' \<longrightarrow> lr_oldval r = dblock d0 b)
      | LREAD \<Rightarrow> True | _ \<Rightarrow> False))"

definition undoable :: "disk \<Rightarrow> logrecord list \<Rightarrow> disk \<Rightarrow> bool" where
  "undoable d0 W d \<longleftrightarrow> one_per_block W \<and> (\<forall>b. block_valid d b = block_valid d0 b) \<and>
     (\<forall>b. index_valid (index_f d) b = index_valid (index_f d0) b) \<and>
     (\<forall>r \<in> set W. rec_ok d0 r \<and> restores d0 d r) \<and>
     (\<forall>b. block_valid d0 b \<longrightarrow> (\<forall>r \<in> set W. \<not> touches r b) \<longrightarrow>
        dindex d b = dindex d0 b \<and> dblock d b = dblock d0 b)"

lemma undoable_rec_ok: "undoable d0 W d \<Longrightarrow> r \<in> set W \<Longrightarrow> rec_ok d r"
  by (auto simp: undoable_def rec_ok_def)

lemma undoable_refl: "undoable d [] d"
  by (simp add: undoable_def one_per_block_def)

lemma undoable_same_files:
  assumes "same_files d d'"
  shows "undoable d0 W d = undoable d0 W d'"
  using same_files_views [OF assms] assms
  by (simp add: undoable_def restores_def Let_def same_files_def cong: logAction.case_cong)

lemma undoable_actions: "undoable d0 W d \<Longrightarrow> r \<in> set W \<Longrightarrow> \<not> ends_walk t r \<and> \<not> closes r"
  by (auto simp: undoable_def restores_def ends_walk_def closes_def Let_def)

theorem undoable_restores:
  assumes u: "undoable d0 W d"
  shows "store_view (undo_all W d) b = store_view d0 b"
proof (cases "block_valid d0 b")
  case bv: True
  have okd: "\<forall>r \<in> set W. rec_ok d r" using undoable_rec_ok [OF u] by blast
  have bvd: "block_valid d b" using u bv by (simp add: undoable_def)
  have bvu: "block_valid (undo_all W d) b" using undo_all_valid(1) [OF okd] bvd by simp
  show ?thesis
  proof (cases "\<exists>r \<in> set W. touches r b")
    case True
    then obtain r where r: "r \<in> set W" "touches r b" by blast
    have one: "one_per_block W" using u by (simp add: undoable_def)
    note own = undo_all_own [OF okd one r]
    note eff = undo_eff_same [OF undoable_rec_ok [OF u r(1)] r(2)]
    have blk: "lr_block r = b" using r(2) by (simp add: touches_def)
    have res: "restores d0 d r" using u r(1) by (simp add: undoable_def)
    show ?thesis using own eff res r(2) bvu bv
      by (cases "lr_action r") (auto simp: store_view_def restores_def blk Let_def touches_def effective_def)
  next
    case False
    then show ?thesis using undo_all_other [OF okd bvd] u bv bvu
      by (auto simp: store_view_def undoable_def)
  qed
next
  case False
  then have "\<not> block_valid (undo_all W d) b"
    using u undo_all_valid(1) [of W d b] undoable_rec_ok [OF u] by (auto simp: undoable_def)
  then show ?thesis using False by (simp add: store_view_def)
qed

text \<open>A record for a block that no earlier record touches; a change of that block behind it.\<close>

lemma undoable_log:
  assumes u: "undoable d0 W d" and n: "\<forall>x \<in> set W. \<not> touches x (lr_block r)"
    and ok: "rec_ok d0 r" "block_valid d0 (lr_block r)"
    and res: "restores d0 d r"
  shows "undoable d0 (W @ [r]) d"
proof -
  have "one_per_block (W @ [r])"
    using u n by (auto simp: undoable_def one_per_block_def touches_def image_iff)
  then show ?thesis using u ok(1) res by (auto simp: undoable_def)
qed

lemma undoable_change:
  assumes u: "undoable d0 W d" and r: "r \<in> set W" "touches r b"
    and bv: "\<forall>c. block_valid d' c = block_valid d c" "\<forall>c. index_valid (index_f d') c = index_valid (index_f d) c"
    and other: "\<forall>c. block_valid d0 c \<longrightarrow> c \<noteq> b \<longrightarrow> dindex d' c = dindex d c \<and> dblock d' c = dblock d c"
    and w: "lr_action r = LWRITE \<Longrightarrow> dindex d' b = dindex d b" "lr_action r = LRELEASE \<Longrightarrow> dblock d' b = dblock d b"
  shows "undoable d0 W d'"
proof -
  have one: "one_per_block W" using u by (simp add: undoable_def)
  have same: "x = r" if "x \<in> set W" "touches x b" for x
    using that r one inj_on_contraD [of lr_block "set (filter (\<lambda>r. effective (lr_action r)) W)" x r]
    by (fastforce simp: one_per_block_def distinct_map touches_def)
  have "restores d0 d' x" if x: "x \<in> set W" for x
  proof (cases "lr_block x = b \<and> effective (lr_action x)")
    case True
    then have "x = r" using same x by (auto simp: touches_def)
    then show ?thesis using u x w True by (auto simp: undoable_def restores_def Let_def split: logAction.splits)
  next
    case False
    have "rec_ok d0 x" "restores d0 d x" using u x by (auto simp: undoable_def)
    then show ?thesis using False other
      by (auto simp: restores_def rec_ok_def effective_def Let_def split: logAction.splits)
  qed
  moreover have "dindex d' c = dindex d0 c \<and> dblock d' c = dblock d0 c"
    if "block_valid d0 c" "\<forall>x \<in> set W. \<not> touches x c" for c
  proof -
    have "c \<noteq> b" using that(2) r by blast
    then show ?thesis using u other that by (auto simp: undoable_def)
  qed
  ultimately show ?thesis using u bv by (auto simp: undoable_def)
qed

section \<open>The state between two steps\<close>

text \<open>What the transaction makes of a block it has an entry for.\<close>

definition target :: "disk \<Rightarrow> mem \<Rightarrow> block_no \<Rightarrow> mblock \<Rightarrow> byte list option" where
  "target d h b mb = (case lock mb of
     A_LOCK \<Rightarrow> Some (bufval h (data mb)) | W_LOCK \<Rightarrow> Some (bufval h (data mb))
   | R_LOCK \<Rightarrow> store_view d b | S_LOCK \<Rightarrow> None)"

lemma view_target: "view s b = (case mfind (bmap s) b of None \<Rightarrow> store_view (files s) b
   | Some mb \<Rightarrow> target (files s) (heap s) b mb)"
  by (auto simp: view_def target_def split: option.split)

definition begin_record :: "trid_t \<Rightarrow> logrecord" where
  "begin_record t = mk_record t LBEGIN 0 (CHR '' '') None"

definition end_record :: "trid_t \<Rightarrow> logrecord" where
  "end_record t = mk_record t LEND 0 (CHR '' '') None"

lemma mk_record_sel [simp]:
  "lr_tid (mk_record t a b oi ov) = t" "lr_action (mk_record t a b oi ov) = a"
  "lr_block (mk_record t a b oi ov) = b" "lr_oindex (mk_record t a b oi ov) = oi"
  "lr_oldval (mk_record t a b oi (Some v)) = v" "is_block (lr_oldval (mk_record t a b oi None))"
  by (simp_all add: mk_record_def is_block_def zero_rec_def)

text \<open>
  \<open>s0\<close> is the state in which the commit phase starts. Its log \<open>L\<close> is overwritten from the front, because
  the descriptor of a new log manager stands at offset 0.
\<close>

definition log_behind :: "logrecord list \<Rightarrow> logrecord list \<Rightarrow> logrecord list" where
  "log_behind V L = V @ drop (length V) L"

definition midway :: "'m cstate \<Rightarrow> logrecord list \<Rightarrow> 'm cstate \<Rightarrow> bool" where
  "midway s0 W s \<longleftrightarrow> undoable (files s0) W (files s) \<and>
     log_f (files s) = log_behind (begin_record (tid s0) # W) (log_f (files s0)) \<and>
     tid s = tid s0 \<and> heap s = heap s0 \<and> bmap s = bmap s0 \<and>
     (\<forall>r \<in> set W. lr_tid r = tid s0 \<and> mfind (bmap s0) (lr_block r) \<noteq> None)"

definition going :: "'m cstate \<Rightarrow> logrecord list \<Rightarrow> 'm cstate \<Rightarrow> bool" where
  "going s0 W s \<longleftrightarrow> midway s0 W s \<and> lfd s = Suc (length W)"

definition stopped :: "'m cstate \<Rightarrow> 'm cstate \<Rightarrow> bool" where
  "stopped s0 s \<longleftrightarrow> (\<exists>W. midway s0 W s)"

lemma put_log_behind:
  "pwrite z (log_behind V L) (length V) [r] = log_behind (V @ [r]) L"
  by (auto simp: pwrite_def log_behind_def)

text \<open>One record.\<close>

lemma tx_log_run:
  "\<exists>x. tx_log bad a b oi ov s =
     (if WriteLog (lfd s) \<notin> bad
      then Done () (s\<lparr>lfd := Suc (lfd s), files := (files s)\<lparr>alog_f := x,
             log_f := pwrite zero_rec (log_f (files s)) (lfd s) [mk_record (tid s) a b oi ov]\<rparr>\<rparr>)
      else Quit (s\<lparr>files := (files s)\<lparr>alog_f := x\<rparr>\<rparr>))"
  by (auto simp: tx_log_def lm_log_def write_record_def append_alog_def put_record_def)

lemma midway_same_files:
  assumes "midway s0 W s" "same_files (files s') (files s)"
    and "log_f (files s') = log_behind (begin_record (tid s0) # W) (log_f (files s0))"
    and "tid s' = tid s" "heap s' = heap s" "bmap s' = bmap s"
  shows "midway s0 W s'"
  using assms undoable_same_files [OF assms(2)] by (simp add: midway_def)

lemma log_step:
  assumes g: "going s0 W s"
    and n: "\<forall>x \<in> set W. \<not> touches x b" and bv: "block_valid (files s0) b" "mfind (bmap s0) b \<noteq> None"
    and r: "r = mk_record (tid s0) a b oi ov" "rec_ok (files s0) r" "restores (files s0) (files s) r"
  shows "post False (\<lambda>_ s'. going s0 (W @ [r]) s' \<and> same_files (files s') (files s))
    (\<lambda>_. stopped s0) (tx_log bad a b oi ov s)"
proof -
  obtain x where x: "tx_log bad a b oi ov s =
     (if WriteLog (lfd s) \<notin> bad
      then Done () (s\<lparr>lfd := Suc (lfd s), files := (files s)\<lparr>alog_f := x,
             log_f := pwrite zero_rec (log_f (files s)) (lfd s) [mk_record (tid s) a b oi ov]\<rparr>\<rparr>)
      else Quit (s\<lparr>files := (files s)\<lparr>alog_f := x\<rparr>\<rparr>))"
    using tx_log_run by blast
  let ?V = "begin_record (tid s0) # W"
  have m: "midway s0 W s" "lfd s = length ?V" using g by (auto simp: going_def)
  have "undoable (files s0) (W @ [r]) (files s)"
    using undoable_log [of "files s0" W "files s" r] m(1) n bv r by (simp add: midway_def)
  moreover let ?s1 = "s\<lparr>lfd := Suc (lfd s), files := (files s)\<lparr>alog_f := x,
      log_f := pwrite zero_rec (log_f (files s)) (lfd s) [r]\<rparr>\<rparr>"
  have "same_files (files s) (files ?s1)" by (simp add: same_files_def)
  ultimately have "undoable (files s0) (W @ [r]) (files ?s1)" using undoable_same_files by blast
  moreover have "log_f (files ?s1) = log_behind (?V @ [r]) (log_f (files s0))"
    using put_log_behind [of zero_rec ?V "log_f (files s0)" r] m by (simp add: midway_def)
  moreover have "lr_tid r = tid s0 \<and> mfind (bmap s0) (lr_block r) \<noteq> None" using bv(2) by (simp add: r(1))
  ultimately have "going s0 (W @ [r]) ?s1" using m by (simp add: going_def midway_def)
  moreover have "midway s0 W (s\<lparr>files := (files s)\<lparr>alog_f := x\<rparr>\<rparr>)"
    by (rule midway_same_files [OF m(1)]) (use m(1) in \<open>simp_all add: same_files_def midway_def\<close>)
  moreover have mk: "mk_record (tid s) a b oi ov = r" using m(1) r(1) by (simp add: midway_def)
  ultimately show ?thesis unfolding x mk stopped_def
    by (cases "WriteLog (lfd s) \<notin> bad") (simp_all only: if_True if_False post.simps, auto simp: same_files_def)
qed

text \<open>One write of a file. All the cells but those of block \<open>b\<close> stay.\<close>

definition elsewhere :: "'m cstate \<Rightarrow> block_no \<Rightarrow> 'm cstate \<Rightarrow> 'm cstate \<Rightarrow> bool" where
  "elsewhere s0 b s s' \<longleftrightarrow> (\<forall>x. block_valid (files s0) x \<longrightarrow> x \<noteq> b \<longrightarrow>
     dindex (files s') x = dindex (files s) x \<and> dblock (files s') x = dblock (files s) x)"

lemma elsewhere_trans: "elsewhere s0 b s s1 \<Longrightarrow> elsewhere s0 b s1 s2 \<Longrightarrow> elsewhere s0 b s s2"
  by (simp add: elsewhere_def)

lemma elsewhere_same_files: "same_files (files s') (files s) \<Longrightarrow> elsewhere s0 b s s'"
  using same_files_views [of "files s'" "files s"] by (simp add: elsewhere_def)

lemma put_index_step:
  assumes g: "going s0 W s" and r: "r \<in> set W" "touches r b" "lr_action r \<noteq> LWRITE"
    and bv: "block_valid (files s0) b"
  shows "post False (\<lambda>_ s'. going s0 W s' \<and> dindex (files s') b = c \<and> dblock (files s') b = dblock (files s) b \<and>
      elsewhere s0 b s s') (\<lambda>_. stopped s0) (put_index bad b c s)"
proof -
  have m: "midway s0 W s" using g by (simp add: going_def)
  have u: "undoable (files s0) W (files s)" using m by (simp add: midway_def)
  have bvs: "block_valid (files s) x = block_valid (files s0) x" for x using u by (simp add: undoable_def)
  let ?d = "(files s)\<lparr>index_f := index_put b c (index_f (files s))\<rparr>"
  have "block_valid (files s) b" using bv bvs by blast
  then have iv: "index_valid (index_f (files s)) b" by (simp add: block_valid_def)
  have cells: "dindex ?d b = c" "dblock ?d x = dblock (files s) x" "block_valid ?d x = block_valid (files s) x"
    "index_valid (index_f ?d) x = index_valid (index_f (files s)) x"
    "block_valid (files s0) x \<Longrightarrow> x \<noteq> b \<Longrightarrow> dindex ?d x = dindex (files s) x" for x
    using iv bvs [of x] ix.get_put [OF iv, where v = c] ix.get_put_other [OF iv, where v = c]
      ix.valid_put [OF iv, where v = c]
    by (auto simp: dindex_def dblock_def block_valid_def)
  have "undoable (files s0) W ?d"
    using undoable_change [OF u r(1,2), of ?d] cells r(3) by simp
  then have "going s0 W (s\<lparr>files := ?d\<rparr>)" using g by (simp add: going_def midway_def)
  moreover have "1 \<le> b" using bv block_valid_pos by blast
  moreover have "midway s0 W (s\<lparr>error_occured := True\<rparr>)" using m by (simp add: midway_def)
  ultimately show ?thesis using cells m
    by (auto simp: elsewhere_def put_index_def write_index_def tx_abort_def stopped_def)
qed

lemma put_store_step:
  assumes g: "going s0 W s" and r: "r \<in> set W" "touches r b" "lr_action r \<noteq> LRELEASE"
    and bv: "block_valid (files s0) b" and v: "is_block v"
  shows "post False (\<lambda>_ s'. going s0 W s' \<and> dblock (files s') b = v \<and> dindex (files s') b = dindex (files s) b \<and>
      elsewhere s0 b s s') (\<lambda>_. stopped s0) (put_store bad b v s)"
proof -
  have m: "midway s0 W s" using g by (simp add: going_def)
  have u: "undoable (files s0) W (files s)" using m by (simp add: midway_def)
  have bvs: "block_valid (files s) x = block_valid (files s0) x" for x using u by (simp add: undoable_def)
  let ?d = "(files s)\<lparr>store_f := store_put b v (store_f (files s))\<rparr>"
  have "block_valid (files s) b" using bv bvs by blast
  then have sv: "store_valid (store_f (files s)) b" by (simp add: block_valid_def)
  have cells: "dblock ?d b = v" "dindex ?d x = dindex (files s) x" "block_valid ?d x = block_valid (files s) x"
    "index_valid (index_f ?d) x = index_valid (index_f (files s)) x"
    "block_valid (files s0) x \<Longrightarrow> x \<noteq> b \<Longrightarrow> dblock ?d x = dblock (files s) x" for x
    using sv v bvs [of x] sf.get_put [OF sv v] sf.get_put_other [OF sv v] sf.valid_put [OF sv v]
    by (auto simp: dindex_def dblock_def block_valid_def)
  have "undoable (files s0) W ?d"
    using undoable_change [OF u r(1,2), of ?d] cells r(3) by simp
  then have "going s0 W (s\<lparr>files := ?d\<rparr>)" using g by (simp add: going_def midway_def)
  moreover have "offset_ok b" using bv block_valid_pos by blast
  moreover have "midway s0 W (s\<lparr>error_occured := True\<rparr>)" using m by (simp add: midway_def)
  ultimately show ?thesis using cells m
    by (auto simp: elsewhere_def put_store_def write_store_def tx_abort_def stopped_def)
qed

section \<open>One entry of the block map\<close>

text \<open>The cells of one block as the finished entry leaves them, and all the other cells.\<close>

definition entry_done :: "'m cstate \<Rightarrow> 'm cstate \<Rightarrow> block_no \<Rightarrow> mblock \<Rightarrow> 'm cstate \<Rightarrow> bool" where
  "entry_done s0 s b mb s' \<longleftrightarrow>
     store_view (files s') b = target (files s0) (heap s0) b mb \<and> elsewhere s0 b s s'"

definition quiet_block :: "logrecord list \<Rightarrow> block_no \<Rightarrow> bool" where
  "quiet_block W b \<longleftrightarrow> (\<forall>r \<in> set W. \<not> touches r b)"

lemma tx_deref_post:
  "live (heap s) p \<Longrightarrow> Q (bufval (heap s) p) s \<Longrightarrow> post w Q X (tx_deref p s)"
  by (simp add: tx_deref_def live_bufval)

lemma oldval_arg_post:
  "live (heap s) p \<Longrightarrow> Q (Some (bufval (heap s) p)) s \<Longrightarrow> post w Q X (oldval_arg p s)"
  by (auto simp: oldval_arg_def pbind_def tx_deref_def live_bufval live_def)

lemma going_valid: "going s0 W s \<Longrightarrow> block_valid (files s) b = block_valid (files s0) b"
  by (simp add: going_def midway_def undoable_def)

lemma going_heap: "going s0 W s \<Longrightarrow> heap s = heap s0"
  by (simp add: going_def midway_def)

lemma going_untouched:
  assumes "going s0 W s" "quiet_block W b" "block_valid (files s0) b"
  shows "dindex (files s) b = dindex (files s0) b" "dblock (files s) b = dblock (files s0) b"
  using assms by (auto simp: going_def midway_def undoable_def quiet_block_def)

text \<open>The data of an entry go to the datastore.\<close>

lemma store_data_step:
  assumes g: "going s0 W s" and r: "r \<in> set W" "touches r b" "lr_action r \<noteq> LRELEASE"
    and bv: "block_valid (files s0) b"
    and d: "good_buffer (heap s0) (data mb)" and i: "dindex (files s) b = CHR ''A''"
  shows "post False (\<lambda>_ s'. going s0 W s' \<and> elsewhere s0 b s s' \<and>
      store_view (files s') b = Some (bufval (heap s0) (data mb)))
    (\<lambda>_. stopped s0) (pbind (tx_deref (data mb)) (put_store bad b) s)"
proof (rule post_bind)
  show "post False (\<lambda>v s'. s' = s \<and> v = bufval (heap s0) (data mb)) (\<lambda>_. stopped s0) (tx_deref (data mb) s)"
    by (rule tx_deref_post) (use d going_heap [OF g] in \<open>simp_all add: good_buffer_def\<close>)
  fix v s'
  assume "s' = s \<and> v = bufval (heap s0) (data mb)"
  then have s': "s' = s" "v = bufval (heap s0) (data mb)" "is_block v" using d by (auto simp: good_buffer_def)
  show "post False (\<lambda>_ s'. going s0 W s' \<and> elsewhere s0 b s s' \<and>
      store_view (files s') b = Some (bufval (heap s0) (data mb))) (\<lambda>_. stopped s0) (put_store bad b v s')"
    unfolding s'(1) by (rule post_mono [OF put_store_step [OF g r bv s'(3)]])
      (use i bv s'(2) in \<open>auto simp: store_view_def dest: going_valid\<close>)
qed

text \<open>Logging first, then the changes: the frame of every entry.\<close>

lemma entry_frame:
  assumes g: "going s0 W s" and n: "quiet_block W b" and bv: "block_valid (files s0) b" "mfind (bmap s0) b \<noteq> None"
    and r: "r = mk_record (tid s0) a b oi ov" "rec_ok (files s0) r" "restores (files s0) (files s) r"
    and k: "\<And>s1. going s0 (W @ [r]) s1 \<Longrightarrow> same_files (files s1) (files s) \<Longrightarrow>
      post False (\<lambda>_ s'. going s0 (W @ [r]) s' \<and> elsewhere s0 b s1 s' \<and>
        store_view (files s') b = target (files s0) (heap s0) b mb) (\<lambda>_. stopped s0) (q s1)"
  shows "post False (\<lambda>_ s'. \<exists>r. lr_block r = b \<and> going s0 (W @ [r]) s' \<and> entry_done s0 s b mb s')
    (\<lambda>_. stopped s0) (pseq (tx_log bad a b oi ov) q s)"
  unfolding pseq_def
proof (rule post_bind, rule log_step [OF g _ bv r])
  show "\<forall>x \<in> set W. \<not> touches x b" using n by (simp add: quiet_block_def)
  fix u s1
  assume s1: "going s0 (W @ [r]) s1 \<and> same_files (files s1) (files s)"
  have "lr_block r = b" by (simp add: r(1))
  moreover have "elsewhere s0 b s s1" using s1 elsewhere_same_files by blast
  ultimately show "post False (\<lambda>_ s'. \<exists>r. lr_block r = b \<and> going s0 (W @ [r]) s' \<and> entry_done s0 s b mb s')
      (\<lambda>_. stopped s0) (q s1)"
    using post_mono [OF k [of s1]] s1 elsewhere_trans unfolding entry_done_def by (smt (verit))
qed

lemma commit_entry_step:
  assumes g: "going s0 W s" and q: "quiet_block W b"
    and e: "entry_ok (files s0) (heap s0) l b mb" and en: "mfind (bmap s0) b \<noteq> None"
  shows "post False (\<lambda>_ s'. \<exists>r. lr_block r = b \<and> going s0 (W @ [r]) s' \<and> entry_done s0 s b mb s')
    (\<lambda>_. stopped s0) (commit_entry bad b mb s)"
proof -
  have bv: "block_valid (files s0) b" and d: "good_buffer (heap s0) (data mb)"
    and o: "live (heap s0) (oldval mb)" "is_block (bufval (heap s0) (oldval mb))"
    using e by (auto simp: entry_ok_def good_buffer_def)
  note unt = going_untouched [OF g q bv]
  let ?P = "\<lambda>_ s'. \<exists>r. lr_block r = b \<and> going s0 (W @ [r]) s' \<and> entry_done s0 s b mb s'"
  let ?ov = "bufval (heap s0) (oldval mb)"
  have ov: "post False (\<lambda>v s'. s' = s \<and> v = Some ?ov) (\<lambda>_. stopped s0) (oldval_arg (oldval mb) s)"
    by (rule oldval_arg_post) (use o going_heap [OF g] in simp_all)
  show ?thesis
  proof (cases "lock mb")
    case A_LOCK
    let ?r = "mk_record (tid s0) LALLOCATE b (CHR '' '') None"
    have r: "rec_ok (files s0) ?r" "restores (files s0) (files s) ?r" "touches ?r b"
      using A_LOCK e bv by (auto simp: rec_ok_def restores_def entry_ok_def touches_def effective_def)
    have "post False (\<lambda>_ s'. going s0 (W @ [?r]) s' \<and> elsewhere s0 b s1 s' \<and>
        store_view (files s') b = target (files s0) (heap s0) b mb) (\<lambda>_. stopped s0)
        (pseq (put_index bad b (CHR ''A'')) (pbind (tx_deref (data mb)) (put_store bad b)) s1)"
      if s1: "going s0 (W @ [?r]) s1" for s1
      unfolding pseq_def
    proof (rule post_bind, rule put_index_step [OF s1, of ?r b])
      fix u s2
      assume s2: "going s0 (W @ [?r]) s2 \<and> dindex (files s2) b = CHR ''A'' \<and>
        dblock (files s2) b = dblock (files s1) b \<and> elsewhere s0 b s1 s2"
      show "post False (\<lambda>_ s'. going s0 (W @ [?r]) s' \<and> elsewhere s0 b s1 s' \<and>
          store_view (files s') b = target (files s0) (heap s0) b mb) (\<lambda>_. stopped s0)
          (pbind (tx_deref (data mb)) (put_store bad b) s2)"
        by (rule post_mono [OF store_data_step [of s0 "W @ [?r]" s2 ?r b mb]])
          (use s2 r bv d elsewhere_trans A_LOCK in \<open>auto simp: target_def\<close>)
    qed (use r bv in auto)
    from entry_frame [OF g q bv en refl r(1,2) this] show ?thesis by (simp add: commit_entry_def A_LOCK)
  next
    case W_LOCK
    let ?r = "mk_record (tid s0) LWRITE b (oldindex mb) (Some ?ov)"
    have r: "rec_ok (files s0) ?r" "restores (files s0) (files s) ?r" "touches ?r b"
      using W_LOCK e bv o unt by (auto simp: rec_ok_def restores_def entry_ok_def touches_def effective_def)
    have i: "dindex (files s) b = CHR ''A''" using W_LOCK e unt by (simp add: entry_ok_def)
    have "post False (\<lambda>_ s'. going s0 (W @ [?r]) s' \<and> elsewhere s0 b s1 s' \<and>
        store_view (files s') b = target (files s0) (heap s0) b mb) (\<lambda>_. stopped s0)
        (pbind (tx_deref (data mb)) (put_store bad b) s1)"
      if s1: "going s0 (W @ [?r]) s1" "same_files (files s1) (files s)" for s1
      by (rule post_mono [OF store_data_step [OF s1(1), of ?r b mb]])
        (use s1 i same_files_views [OF s1(2)] r bv d W_LOCK in \<open>auto simp: target_def\<close>)
    from entry_frame [OF g q bv en refl r(1,2) this]
    have "post False ?P (\<lambda>_. stopped s0) (pseq (tx_log bad LWRITE b (oldindex mb) (Some ?ov))
        (pbind (tx_deref (data mb)) (put_store bad b)) s)" .
    then show ?thesis unfolding commit_entry_def
      by (simp add: W_LOCK, intro post_bind [where p = "oldval_arg (oldval mb)", OF ov]) simp
  next
    case S_LOCK
    let ?r = "mk_record (tid s0) LRELEASE b (oldindex mb) (Some ?ov)"
    have r: "rec_ok (files s0) ?r" "restores (files s0) (files s) ?r" "touches ?r b"
      using S_LOCK e bv o unt by (auto simp: rec_ok_def restores_def entry_ok_def touches_def effective_def)
    have "post False (\<lambda>_ s'. going s0 (W @ [?r]) s' \<and> elsewhere s0 b s1 s' \<and>
        store_view (files s') b = target (files s0) (heap s0) b mb) (\<lambda>_. stopped s0)
        (put_index bad b (CHR ''U'') s1)"
      if s1: "going s0 (W @ [?r]) s1" for s1
      by (rule post_mono [OF put_index_step [OF s1, of ?r b]])
        (use r bv S_LOCK in \<open>auto simp: target_def store_view_def\<close>)
    from entry_frame [OF g q bv en refl r(1,2) this]
    have "post False ?P (\<lambda>_. stopped s0) (pseq (tx_log bad LRELEASE b (oldindex mb) (Some ?ov))
        (put_index bad b (CHR ''U'')) s)" .
    then show ?thesis unfolding commit_entry_def
      by (simp add: S_LOCK, intro post_bind [where p = "oldval_arg (oldval mb)", OF ov]) simp
  next
    case R_LOCK
    let ?r = "mk_record (tid s0) LREAD b (CHR '' '') None"
    have r: "rec_ok (files s0) ?r" "restores (files s0) (files s) ?r"
      by (auto simp: rec_ok_def restores_def effective_def)
    have "post False ?P (\<lambda>_. stopped s0) (tx_log bad LREAD b (CHR '' '') None s)"
    proof (rule post_mono [OF log_step [OF g _ bv en refl r]])
      show "\<forall>x \<in> set W. \<not> touches x b" using q by (simp add: quiet_block_def)
      fix u s' assume s': "going s0 (W @ [?r]) s' \<and> same_files (files s') (files s)"
      have "store_view (files s') b = store_view (files s0) b"
        using s' same_files_views [of "files s'" "files s"] unt going_valid [OF g]
        by (simp add: store_view_def)
      then have "entry_done s0 s b mb s'"
        using s' elsewhere_same_files R_LOCK by (auto simp: entry_done_def target_def)
      then show "\<exists>r. lr_block r = b \<and> going s0 (W @ [r]) s' \<and> entry_done s0 s b mb s'"
        using s' by (intro exI [of _ ?r]) simp
    qed
    then show ?thesis using R_LOCK by (simp add: commit_entry_def)
  qed
qed

section \<open>All entries\<close>

lemma same_files_store_view: "same_files d d' \<Longrightarrow> store_view d b = store_view d' b"
  using same_files_views [of d d'] by (simp add: store_view_def)

lemma quiet_block_snoc: "quiet_block W c \<Longrightarrow> lr_block r \<noteq> c \<Longrightarrow> quiet_block (W @ [r]) c"
  by (auto simp: quiet_block_def touches_def)

lemma commit_entries_step:
  assumes "going s0 W s" "distinct (map fst es)"
    and "\<forall>(b, mb) \<in> set es. entry_ok (files s0) (heap s0) l b mb \<and> quiet_block W b \<and> mfind (bmap s0) b \<noteq> None"
  shows "post False (\<lambda>_ s'. \<exists>W'. going s0 W' s' \<and>
      (\<forall>(b, mb) \<in> set es. store_view (files s') b = target (files s0) (heap s0) b mb) \<and>
      (\<forall>x. block_valid (files s0) x \<longrightarrow> x \<notin> fst ` set es \<longrightarrow>
        dindex (files s') x = dindex (files s) x \<and> dblock (files s') x = dblock (files s) x))
    (\<lambda>_. stopped s0) (commit_entries bad es s)"
  using assms
proof (induction es arbitrary: W s)
  case Nil
  then show ?case by auto
next
  case (Cons e es)
  obtain b mb where e: "e = (b, mb)" by (cases e)
  let ?Q = "\<lambda>es s s'. \<exists>W'. going s0 W' s' \<and>
      (\<forall>(b, mb) \<in> set es. store_view (files s') b = target (files s0) (heap s0) b mb) \<and>
      (\<forall>x. block_valid (files s0) x \<longrightarrow> x \<notin> fst ` set es \<longrightarrow>
        dindex (files s') x = dindex (files s) x \<and> dblock (files s') x = dblock (files s) x)"
  have eb: "entry_ok (files s0) (heap s0) l b mb" and qb: "quiet_block W b" and en: "mfind (bmap s0) b \<noteq> None"
    using Cons.prems e by auto
  have bv: "block_valid (files s0) b" using eb by (simp add: entry_ok_def)
  have nb: "b \<notin> fst ` set es" using Cons.prems(2) e by auto
  have "post False (\<lambda>_. ?Q (e # es) s) (\<lambda>_. stopped s0) (pbind (commit_entry bad b mb) (\<lambda>_. commit_entries bad es) s)"
  proof (rule post_bind, rule commit_entry_step [OF Cons.prems(1) qb eb en])
    fix u s1
    assume "\<exists>r. lr_block r = b \<and> going s0 (W @ [r]) s1 \<and> entry_done s0 s b mb s1"
    then obtain r where r: "lr_block r = b" "going s0 (W @ [r]) s1" "entry_done s0 s b mb s1" by blast
    have rest: "\<forall>(c, mc) \<in> set es. entry_ok (files s0) (heap s0) l c mc \<and> quiet_block (W @ [r]) c \<and>
        mfind (bmap s0) c \<noteq> None"
    proof clarify
      fix c mc assume c: "(c, mc) \<in> set es"
      then have "c \<noteq> b" using nb by force
      then show "entry_ok (files s0) (heap s0) l c mc \<and> quiet_block (W @ [r]) c \<and> mfind (bmap s0) c \<noteq> None"
        using c Cons.prems(3) quiet_block_snoc r(1) by fastforce
    qed
    have "distinct (map fst es)" using Cons.prems(2) by simp
    then show "post False (\<lambda>_. ?Q (e # es) s) (\<lambda>_. stopped s0) (commit_entries bad es s1)"
    proof (rule post_mono [OF Cons.IH [OF r(2) _ rest]])
      fix s' assume q: "?Q es s1 s'"
      then obtain W' where w: "going s0 W' s'" by blast
      have "store_view (files s') b = store_view (files s1) b"
        using q bv nb going_valid [OF w] going_valid [OF r(2)] by (auto simp: store_view_def)
      then have "store_view (files s') b = target (files s0) (heap s0) b mb"
        using r(3) by (simp add: entry_done_def)
      then show "?Q (e # es) s s'"
        using q r(3) by (auto simp: e entry_done_def elsewhere_def)
    qed
  qed
  then show ?case by (simp add: e pseq_def)
qed

section \<open>The whole commit\<close>

definition untouched :: "'m cstate \<Rightarrow> 'm cstate \<Rightarrow> bool" where
  "untouched s0 s \<longleftrightarrow> same_files (files s) (files s0) \<and> log_f (files s) = log_f (files s0)"

text \<open>The cells of the blocks that the transaction has no entry for are as before.\<close>

definition unheld_kept :: "'m cstate \<Rightarrow> disk \<Rightarrow> bool" where
  "unheld_kept s0 d \<longleftrightarrow>
     (\<forall>b. index_valid (index_f d) b = index_valid (index_f (files s0)) b \<and>
          block_valid d b = block_valid (files s0) b) \<and>
     (\<forall>b. block_valid (files s0) b \<longrightarrow> mfind (bmap s0) b = None \<longrightarrow>
        dindex d b = dindex (files s0) b \<and> dblock d b = dblock (files s0) b)"

lemma unheld_kept_same_files:
  assumes "same_files d d'"
  shows "unheld_kept s0 d = unheld_kept s0 d'"
  using same_files_views [OF assms] assms by (simp add: unheld_kept_def same_files_def)

lemma unheld_kept_refl: "unheld_kept s (files s)"
  by (simp add: unheld_kept_def)

lemma unheld_kept_srv [simp]: "unheld_kept (s\<lparr>srv := m\<rparr>) = unheld_kept s"
  by (simp add: unheld_kept_def fun_eq_iff)

lemma midway_unheld:
  assumes "midway s0 W s"
  shows "unheld_kept s0 (files s)"
proof -
  have u: "undoable (files s0) W (files s)" and w: "\<forall>r \<in> set W. mfind (bmap s0) (lr_block r) \<noteq> None"
    using assms by (auto simp: midway_def)
  have "\<forall>r \<in> set W. \<not> touches r b" if "mfind (bmap s0) b = None" for b
    using w that by (auto simp: touches_def)
  then show ?thesis using u by (simp add: unheld_kept_def undoable_def)
qed

lemma index_valid_undo_eff:
  assumes "rec_ok d r"
  shows "index_valid (index_f (undo_eff r d)) b = index_valid (index_f d) b"
  using assms ix.valid_put [of "index_f d" "lr_block r"]
  by (cases "lr_action r") (auto simp: undo_eff.simps rec_ok_def effective_def block_valid_def)

lemma unheld_undone:
  assumes "\<forall>r \<in> set W. rec_ok d r" "unheld_kept s0 d" "\<forall>r \<in> set W. mfind (bmap s0) (lr_block r) \<noteq> None"
  shows "unheld_kept s0 (undo_all W d)"
proof -
  have "index_valid (index_f (undo_all W d)) b = index_valid (index_f d) b" for b
    using assms(1) by (induction W arbitrary: d) (auto simp: index_valid_undo_eff)
  moreover have "\<forall>r \<in> set W. \<not> touches r b" if "mfind (bmap s0) b = None" for b
    using assms(3) that by (auto simp: touches_def)
  ultimately show ?thesis
    using assms(2) undo_all_valid(1) [OF assms(1)] undo_all_other [OF assms(1)]
    by (auto simp: unheld_kept_def)
qed

definition committed :: "'m cstate \<Rightarrow> 'm cstate \<Rightarrow> bool" where
  "committed s0 s \<longleftrightarrow> (\<forall>b. store_view (files s) b = view s0 b) \<and> unheld_kept s0 (files s) \<and>
     (\<exists>W. log_f (files s) = log_behind (begin_record (tid s0) # W @ [end_record (tid s0)]) (log_f (files s0)) \<and>
          (\<forall>r \<in> set W. lr_tid r = tid s0))"

lemma log_behind_Nil [simp]: "log_behind [] L = L"
  by (simp add: log_behind_def)

lemma begin_step:
  assumes "lfd s0 = 0"
  shows "post False (\<lambda>_ s'. going s0 [] s' \<and> same_files (files s') (files s0)) (\<lambda>_. untouched s0)
    (tx_log bad LBEGIN 0 (CHR '' '') None s0)"
proof -
  obtain x where x: "tx_log bad LBEGIN 0 (CHR '' '') None s0 =
     (if WriteLog (lfd s0) \<notin> bad
      then Done () (s0\<lparr>lfd := Suc (lfd s0), files := (files s0)\<lparr>alog_f := x,
             log_f := pwrite zero_rec (log_f (files s0)) (lfd s0)
               [mk_record (tid s0) LBEGIN 0 (CHR '' '') None]\<rparr>\<rparr>)
      else Quit (s0\<lparr>files := (files s0)\<lparr>alog_f := x\<rparr>\<rparr>))"
    using tx_log_run by blast
  have "undoable (files s0) [] ((files s0)\<lparr>alog_f := x, log_f := y\<rparr>)" for y
    using undoable_refl [of "files s0"] undoable_same_files [of "files s0" "(files s0)\<lparr>alog_f := x, log_f := y\<rparr>"]
    by (simp add: same_files_def)
  then show ?thesis unfolding x
    using assms put_log_behind [of zero_rec "[]" "log_f (files s0)"]
    by (simp add: going_def midway_def same_files_def untouched_def begin_record_def)
qed

lemma end_step:
  assumes "going s0 W s" "\<forall>b. store_view (files s) b = view s0 b"
  shows "post False (\<lambda>_. committed s0) (\<lambda>_. stopped s0) (tx_log bad LEND 0 (CHR '' '') None s)"
proof -
  obtain x where x: "tx_log bad LEND 0 (CHR '' '') None s =
     (if WriteLog (lfd s) \<notin> bad
      then Done () (s\<lparr>lfd := Suc (lfd s), files := (files s)\<lparr>alog_f := x,
             log_f := pwrite zero_rec (log_f (files s)) (lfd s) [mk_record (tid s) LEND 0 (CHR '' '') None]\<rparr>\<rparr>)
      else Quit (s\<lparr>files := (files s)\<lparr>alog_f := x\<rparr>\<rparr>))"
    using tx_log_run by blast
  have m: "midway s0 W s" "lfd s = length (begin_record (tid s0) # W)" using assms(1) by (auto simp: going_def)
  have "midway s0 W (s\<lparr>files := (files s)\<lparr>alog_f := x\<rparr>\<rparr>)"
    by (rule midway_same_files [OF m(1)]) (use m(1) in \<open>simp_all add: same_files_def midway_def\<close>)
  moreover have "pwrite zero_rec (log_f (files s)) (lfd s) [mk_record (tid s) LEND 0 (CHR '' '') None] =
      log_behind (begin_record (tid s0) # W @ [end_record (tid s0)]) (log_f (files s0))"
    using put_log_behind [of zero_rec "begin_record (tid s0) # W"] m
    by (simp add: midway_def end_record_def)
  moreover have "store_view ((files s)\<lparr>alog_f := x, log_f := y\<rparr>) b = view s0 b" for y b
    using assms(2) same_files_store_view [of "(files s)\<lparr>alog_f := x, log_f := y\<rparr>" "files s"]
    by (simp add: same_files_def)
  moreover have "unheld_kept s0 ((files s)\<lparr>alog_f := x, log_f := y\<rparr>)" for y
    using midway_unheld [OF m(1)] unheld_kept_same_files [of "(files s)\<lparr>alog_f := x, log_f := y\<rparr>" "files s" s0]
    by (simp add: same_files_def)
  moreover have "\<forall>r \<in> set W. lr_tid r = tid s0" using m(1) by (simp add: midway_def)
  ultimately show ?thesis unfolding x stopped_def committed_def
    by (cases "WriteLog (lfd s) \<notin> bad") (simp_all only: if_True if_False post.simps, auto)
qed

lemma view_from_targets:
  assumes "client_ok s0" "going s0 W s"
    and "\<forall>(b, mb) \<in> set (bmap s0). store_view (files s) b = target (files s0) (heap s0) b mb"
    and "\<forall>x. block_valid (files s0) x \<longrightarrow> x \<notin> fst ` set (bmap s0) \<longrightarrow>
        dindex (files s) x = dindex (files s0) x \<and> dblock (files s) x = dblock (files s0) x"
  shows "store_view (files s) b = view s0 b"
proof (cases "mfind (bmap s0) b")
  case None
  then have "b \<notin> fst ` set (bmap s0)" using mfind_mdom [of b "bmap s0"] by auto
  then have "store_view (files s) b = store_view (files s0) b"
    using assms(4) going_valid [OF assms(2)] by (auto simp: store_view_def)
  then show ?thesis using None by (simp add: view_target)
next
  case (Some mb)
  then have "(b, mb) \<in> set (bmap s0)"
    using ordered_mfind client_okD(2) [OF assms(1)] mfind_mdom [of b "bmap s0"] by fastforce
  then show ?thesis using assms(3) Some by (auto simp: view_target)
qed

definition commit_log :: "env \<Rightarrow> (unit, 'm) cprog" where
  "commit_log bad =
     pseq (tx_log bad LBEGIN 0 (CHR '' '') None)
       (pseq (\<lambda>s. commit_entries bad (bmap s) s) (tx_log bad LEND 0 (CHR '' '') None))"

context commit_law
begin

lemma logging_phase: "obeys I X (commit_log bad)"
  unfolding commit_log_def by (intro obeys_intros logging block_map)

end

lemma commit_log_step:
  assumes ok: "client_ok s0" and l0: "lfd s0 = 0"
  shows "post False (\<lambda>_. committed s0) (\<lambda>_ s. untouched s0 s \<or> stopped s0 s) (commit_log bad s0)"
  unfolding commit_log_def pseq_def
proof (rule post_bind, rule post_mono [OF begin_step [OF l0]])
  fix u s1
  assume s1: "going s0 [] s1 \<and> same_files (files s1) (files s0)"
  have bm: "bmap s1 = bmap s0" using s1 by (simp add: going_def midway_def)
  have ord: "ordered (bmap s0)" using client_okD(2) [OF ok] .
  have es: "\<forall>(b, mb) \<in> set (bmap s0). entry_ok (files s0) (heap s0) (last_free_block s0) b mb \<and> quiet_block [] b \<and>
      mfind (bmap s0) b \<noteq> None"
    using client_okD(5) [OF ok] ordered_mfind [OF ord] by (fastforce simp: quiet_block_def)
  have dist: "distinct (map fst (bmap s0))" using ord by (simp add: ordered_def strict_sorted_iff)
  show "post False (\<lambda>_. committed s0) (\<lambda>_ s. untouched s0 s \<or> stopped s0 s)
      (pbind (\<lambda>s. commit_entries bad (bmap s) s) (\<lambda>_. tx_log bad LEND 0 (CHR '' '') None) s1)"
  proof (rule post_bind, unfold bm, rule post_mono [OF commit_entries_step [OF conjunct1 [OF s1] dist es]])
    fix u s2
    assume s2: "\<exists>W'. going s0 W' s2 \<and>
      (\<forall>(b, mb) \<in> set (bmap s0). store_view (files s2) b = target (files s0) (heap s0) b mb) \<and>
      (\<forall>x. block_valid (files s0) x \<longrightarrow> x \<notin> fst ` set (bmap s0) \<longrightarrow>
        dindex (files s2) x = dindex (files s1) x \<and> dblock (files s2) x = dblock (files s1) x)"
    then obtain W' where w: "going s0 W' s2" by blast
    have "\<forall>b. store_view (files s2) b = view s0 b"
      using view_from_targets [OF ok w] s2 same_files_views [of "files s1" "files s0"] s1 by auto
    from end_step [OF w this, of bad] show "post False (\<lambda>_. committed s0) (\<lambda>_ s. untouched s0 s \<or> stopped s0 s)
        (tx_log bad LEND 0 (CHR '' '') None s2)"
      by (rule post_mono) auto
  qed auto
qed auto

text \<open>The requests around it: COMMIT before, END behind.\<close>

lemma commit_unfold:
  fixes T :: "'m tpm"
  shows "commit T bad = pbind (ask_tpm T COMMIT 0) (\<lambda>(okay, _). if \<not> okay then tx_abort
     else pseq (commit_log bad)
       (pbind (ask_tpm T END 0) (\<lambda>(okay, _). if \<not> okay then throw_abort else Done ())))"
proof -
  have assoc: "pbind (pbind p f) g = pbind p (\<lambda>x. pbind (f x) g)"
    for p f and g :: "unit \<Rightarrow> (unit, 'm) cprog" and q :: "(unit, 'm) cprog"
    by (rule ext) (rule pbind_assoc)
  have "pseq p (pseq q (pseq r k)) = pseq (pseq p (pseq q r)) k" for p q r k :: "(unit, 'm) cprog"
    by (simp add: pseq_def assoc)
  then show ?thesis by (simp only: commit_def commit_log_def)
qed

lemma committed_cong:
  "files s' = files s \<Longrightarrow> committed s0 s \<Longrightarrow> committed s0 s'"
  by (simp add: committed_def)

definition commit_ends :: "'m cstate \<Rightarrow> 'm cstate \<Rightarrow> bool" where
  "commit_ends s0 s \<longleftrightarrow> untouched s0 s \<or> stopped s0 s \<or> committed s0 s"

context quiet_tpm
begin

lemma ask_post:
  "post True (\<lambda>_ s'. \<exists>m. s' = s\<lparr>srv := m\<rparr>) (\<lambda>_ s'. files s' = files s) (ask_tpm T q b s)"
  by (auto simp: ask_tpm_def Let_def tx_abort_def dest!: quiet split: outcome.splits)

lemma commit_outcome:
  assumes ok: "client_ok s" and l0: "lfd s = 0"
  shows "post True (\<lambda>_. committed s) (\<lambda>_. commit_ends s) (commit T bad s)"
  unfolding commit_unfold
proof (rule post_bind, rule post_mono [OF ask_post])
  fix r s1 assume "\<exists>m. s1 = s\<lparr>srv := m\<rparr>"
  then obtain m where m: "s1 = s\<lparr>srv := m\<rparr>" by blast
  have eq: "untouched s1 = untouched s" "committed s1 = committed s" "stopped s1 = stopped s"
    by (simp_all add: m fun_eq_iff untouched_def committed_def stopped_def midway_def)
  have cl: "post True (\<lambda>_. committed s) (\<lambda>_. commit_ends s) (pseq (commit_log bad)
      (pbind (ask_tpm T END 0) (\<lambda>(okay, _). if \<not> okay then throw_abort else Done ())) s1)"
    unfolding pseq_def
  proof (rule post_bind)
    have "post False (\<lambda>_. committed s1) (\<lambda>_ s. untouched s1 s \<or> stopped s1 s) (commit_log bad s1)"
      using commit_log_step [of s1 bad] ok l0 m by simp
    then show "post True (\<lambda>_. committed s) (\<lambda>_. commit_ends s) (commit_log bad s1)"
      unfolding eq by (cases "commit_log bad s1") (auto simp: commit_ends_def)
    fix u s2 assume c: "committed s s2"
    show "post True (\<lambda>_. committed s) (\<lambda>_. commit_ends s)
        (pbind (ask_tpm T END 0) (\<lambda>(okay, _). if \<not> okay then throw_abort else Done ()) s2)"
    proof (rule post_bind, rule post_mono [OF ask_post])
      fix r s3 assume "\<exists>m. s3 = s2\<lparr>srv := m\<rparr>"
      then have "committed s s3" using committed_cong [OF _ c] by auto
      then show "post True (\<lambda>_. committed s) (\<lambda>_. commit_ends s)
          ((case r of (okay, _) \<Rightarrow> if \<not> okay then throw_abort else Done ()) s3)"
        by (auto simp: throw_abort_def commit_ends_def split: prod.split)
    qed (use committed_cong [OF _ c] in \<open>auto simp: commit_ends_def\<close>)
  qed
  show "post True (\<lambda>_. committed s) (\<lambda>_. commit_ends s) ((case r of (okay, _) \<Rightarrow>
      if \<not> okay then tx_abort else pseq (commit_log bad)
        (pbind (ask_tpm T END 0) (\<lambda>(okay, _). if \<not> okay then throw_abort else Done ()))) s1)"
    using cl by (auto simp: tx_abort_def commit_ends_def untouched_def m split: prod.split)
qed (auto simp: commit_ends_def untouched_def)

end

section \<open>After a crash\<close>

text \<open>
  Rolling back what a stopped commit left, with the log as it is now; a finished commit is left alone.
  \<open>l\<close> is the log manager of the monitor, which looks at the files the transaction left behind.
\<close>

lemma rollback_stopped:
  assumes st: "stopped s0 s" and fresh: "\<forall>r \<in> set (log_f (files s0)). lr_tid r \<noteq> tid s0"
    and l: "dsk l = files s"
  shows "\<exists>l'. rollback no_faults (tid s0) l = Done () l' \<and>
    (\<forall>b. store_view (dsk l') b = store_view (files s0) b) \<and> unheld_kept s0 (dsk l') \<and>
    log_f (dsk l') = log_f (files s) @ [abort_record (tid s0)]"
proof -
  obtain W where w: "midway s0 W s" using st by (auto simp: stopped_def)
  have u: "undoable (files s0) W (files s)" using w by (simp add: midway_def)
  let ?old = "drop (Suc (length W)) (log_f (files s0))"
  have log: "log_f (dsk l) = [] @ begin_record (tid s0) # (W @ ?old)"
    using w l by (simp add: midway_def log_behind_def)
  have own: "own_recs (tid s0) (W @ ?old) = W"
  proof -
    have "own_recs (tid s0) W = W" using w by (simp add: own_recs_def midway_def)
    moreover have "own_recs (tid s0) ?old = []"
      using fresh by (auto simp: own_recs_def filter_empty_conv dest: in_set_dropD)
    ultimately show ?thesis by simp
  qed
  have mid: "\<forall>r \<in> set (W @ ?old). \<not> ends_walk (tid s0) r"
    using undoable_actions [OF u] fresh by (auto simp: ends_walk_def dest: in_set_dropD)
  have okr: "\<forall>r \<in> set (own_recs (tid s0) (W @ ?old)). rec_ok (dsk l) r"
    unfolding own using undoable_rec_ok [OF u] l by simp
  have one: "one_per_block (own_recs (tid s0) (W @ ?old))" unfolding own using u by (simp add: undoable_def)
  have "lr_tid (begin_record (tid s0)) = tid s0" "lr_action (begin_record (tid s0)) = LBEGIN"
    by (simp_all add: begin_record_def)
  from rollback_undoes [OF log this mid okr one] obtain l' where l':
      "rollback no_faults (tid s0) l = Done () l'"
      "same_files (dsk l') (undo_all W (dsk l))" "log_f (dsk l') = log_f (dsk l) @ [abort_record (tid s0)]"
    unfolding own by blast
  have "unheld_kept s0 (undo_all W (files s))"
    using unheld_undone [OF _ midway_unheld [OF w]] undoable_rec_ok [OF u] w by (auto simp: midway_def)
  then have "unheld_kept s0 (dsk l')" using unheld_kept_same_files [OF l'(2), of s0] l by simp
  then show ?thesis
    using l' undoable_restores [OF u] same_files_store_view [OF l'(2)] l by simp
qed

lemma rollback_committed:
  assumes c: "committed s0 s" and fresh: "\<forall>r \<in> set (log_f (files s0)). lr_tid r \<noteq> tid s0"
    and l: "dsk l = files s"
  shows "rollback no_faults (tid s0) l = Done () l"
proof -
  obtain W where w: "log_f (files s) =
      log_behind (begin_record (tid s0) # W @ [end_record (tid s0)]) (log_f (files s0))"
    using c by (auto simp: committed_def)
  let ?old = "drop (length W + 2) (log_f (files s0))"
  have "log_f (dsk l) = (begin_record (tid s0) # W) @ end_record (tid s0) # ?old"
    using w l by (simp add: log_behind_def)
  then show ?thesis
    by (rule rollback_ended) (use fresh in \<open>auto simp: end_record_def ends_walk_def dest: in_set_dropD\<close>)
qed

lemma rollback_untouched:
  assumes "untouched s0 s" "dsk l = files s" "log_f (files s0) \<noteq> []"
    and "\<forall>r \<in> set (log_f (files s0)). lr_tid r \<noteq> tid s0"
  shows "rollback no_faults (tid s0) l = Loop"
  using assms by (intro rollback_lost) (auto simp: untouched_def ends_walk_def)

end
