(* ===== verification/Restarts.thy ===== *)
theory Restarts
  imports Scripts Commit
begin

text \<open>
  Binary exponential backoff and the restart loop of \<open>Begin(T) ... End(T)\<close>. A call that throws
  TE_RESTART has slept \<open>2^n\<close> seconds and raised \<open>last_sleep\<close> from \<open>n\<close> to \<open>n+1\<close>; past \<open>MAXTIMEOUT\<close> the
  transaction aborts instead. \<open>last_sleep\<close> is static and never reset, so a process restarts at most
  six times, and the loop ends. Nothing here depends on what the monitor answers.
\<close>

definition slp :: "32 word \<Rightarrow> 32 word list \<Rightarrow> 'm cstate \<Rightarrow> bool" where
  "slp n xs s \<longleftrightarrow> last_sleep s = n \<and> sleeps s = xs"

text \<open>Nothing was slept; a back-off past \<open>MAXTIMEOUT\<close> has counted all the same.\<close>

definition awake :: "32 word \<Rightarrow> 32 word list \<Rightarrow> 'm cstate \<Rightarrow> bool" where
  "awake n xs s \<longleftrightarrow> sleeps s = xs \<and> (last_sleep s = n \<or> 6 \<le> unat n \<and> last_sleep s = n + 1)"

definition pace_end :: "32 word \<Rightarrow> 32 word list \<Rightarrow> TransactionException option \<Rightarrow> 'm cstate \<Rightarrow> bool" where
  "pace_end n xs e s \<longleftrightarrow> (if e = Some TE_RESTART
     then unat n < 6 \<and> slp (n + 1) (xs @ [sleeptime n]) s \<and> error_occured s else awake n xs s)"

text \<open>Programs that sleep only in a restart.\<close>

definition paced :: "('a, 'm) cprog \<Rightarrow> bool" where
  "paced p \<longleftrightarrow> (\<forall>n xs. obeys (slp n xs) (pace_end n xs) p)"

lemma pacedD: "paced p \<Longrightarrow> slp n xs s \<Longrightarrow> post True (\<lambda>_. slp n xs) (pace_end n xs) (p s)"
  unfolding paced_def by (blast intro: obeysD)

lemma sleeptime_bound:
  assumes "unat n < 32"
  shows "sleeptime n \<le> MAXTIMEOUT \<longleftrightarrow> unat n < 6" "unat (sleeptime n) = 2 ^ unat n"
proof -
  have u: "unat (sleeptime n) = 2 ^ unat n"
  proof -
    have "(2::nat) ^ unat n < 2 ^ 32" using assms by (intro power_strict_increasing) auto
    then show ?thesis unfolding sleeptime_def unsigned_push_bit_eq
      by (simp add: push_bit_eq_mult take_bit_eq_mod)
  qed
  then show "unat (sleeptime n) = 2 ^ unat n" .
  have "(2::nat) ^ unat n \<le> 2 ^ 5 \<longleftrightarrow> unat n \<le> 5" by (rule power_increasing_iff) simp
  then show "sleeptime n \<le> MAXTIMEOUT \<longleftrightarrow> unat n < 6"
    by (auto simp: word_le_nat_alt u MAXTIMEOUT_def)
qed

lemma unat_Suc_small: "unat (n :: 32 word) < 32 \<Longrightarrow> unat (n + 1) = Suc (unat n)"
proof -
  assume "unat n < 32"
  then have "n \<noteq> -1" by (auto simp: unsigned_minus_1_eq_mask mask_eq_exp_minus_1)
  then have "1 + n \<noteq> 0" by (simp add: add_eq_0_iff)
  from unatSuc [OF this] show ?thesis by (simp add: add.commute)
qed

lemma paced_ask: "obeys (slp n xs) (pace_end n xs) (ask_tpm T q b)"
  by (rule obeysI) (auto simp: slp_def awake_def pace_end_def ask_tpm_def tx_abort_def Let_def split: outcome.split)

lemma restart_post:
  assumes "slp n xs s"
  shows "post True (\<lambda>_ _. True) (pace_end n xs) (restart T s)"
  unfolding restart_def
proof (rule post_bind, rule obeysD [OF paced_ask assms])
  fix r s1 assume s1: "slp n xs s1"
  then show "post True (\<lambda>_ _. True) (pace_end n xs) ((case r of (okay, _) \<Rightarrow>
      if \<not> okay then tx_abort else pseq backoff_sleep (\<lambda>s. Throw TE_RESTART (s\<lparr>error_occured := True\<rparr>))) s1)"
    using sleeptime_bound(1) [of n]
    by (auto simp: pseq_def pbind_def backoff_sleep_def Let_def tx_abort_def slp_def awake_def pace_end_def
        split: prod.split)
qed

interpretation pace: strict_law T "slp n xs" "pace_end n xs" for T n xs
proof (unfold_locales, goal_cases)
  case (1 q b)
  show ?case by (rule paced_ask)
next
  case (2 s)
  then show ?case by (rule restart_post)
qed (simp_all add: slp_def awake_def pace_end_def)

lemma paced_exec: "paced (exec T bad scr)"
  unfolding paced_def by (intro allI pace.executing)

section \<open>Commit, destructor, constructor\<close>

text \<open>These never ask for a restart.\<close>

definition settled :: "('a, 'm) cprog \<Rightarrow> bool" where
  "settled p \<longleftrightarrow> (\<forall>n xs. obeys (slp n xs) (\<lambda>e s. slp n xs s \<and> e \<noteq> Some TE_RESTART) p)"

lemma settledI:
  "(\<And>n xs s. slp n xs s \<Longrightarrow> post True (\<lambda>_. slp n xs) (\<lambda>e s. slp n xs s \<and> e \<noteq> Some TE_RESTART) (p s)) \<Longrightarrow>
   settled p"
  unfolding settled_def by (blast intro: obeysI)

lemma settledD:
  "settled p \<Longrightarrow> slp n xs s \<Longrightarrow> post True (\<lambda>_. slp n xs) (\<lambda>e s. slp n xs s \<and> e \<noteq> Some TE_RESTART) (p s)"
  unfolding settled_def by (blast intro: obeysD)

lemma settled_comb [obeys_intros]:
  "settled (Done x)" "settled p \<Longrightarrow> (\<And>x. settled (f x)) \<Longrightarrow> settled (pbind p f)"
  "settled p \<Longrightarrow> settled q \<Longrightarrow> settled (pseq p q)"
  "(c \<Longrightarrow> settled p) \<Longrightarrow> (\<not> c \<Longrightarrow> settled q) \<Longrightarrow> settled (if c then p else q)"
  by (auto simp: settled_def intro: obeys_intros)

lemma settled_library:
  "settled tx_abort" "settled throw_abort" "settled (ask_tpm T q b)" "settled (tx_deref p)" "settled (tx_delete p)"
  "settled (put_index bad b c)" "settled (put_store bad b v)" "settled (close_connection T)"
  by (rule settledI; auto simp: slp_def tx_abort_def throw_abort_def ask_tpm_def Let_def tx_deref_def
      tx_delete_def put_index_def put_store_def close_connection_def split: outcome.splits prod.splits)+

lemma settled_log: "settled (tx_log bad a b oi ov)"
proof (rule settledI)
  fix n xs and s :: "'m cstate"
  assume "slp n xs s"
  then show "post True (\<lambda>_. slp n xs) (\<lambda>e s. slp n xs s \<and> e \<noteq> Some TE_RESTART) (tx_log bad a b oi ov s)"
    using tx_log_run [of bad a b oi ov s] by (auto simp: slp_def)
qed

interpretation still: commit_law bad "slp n xs" "\<lambda>e s. slp n xs s \<and> e \<noteq> Some TE_RESTART" for bad n xs
  by unfold_locales (rule obeysI, rule settledD, rule settled_log settled_library, assumption)+

lemma settled_commit: "settled (commit T bad)"
proof -
  have "settled (commit_log bad)"
    unfolding settled_def by (intro allI still.logging_phase)
  then show ?thesis unfolding commit_unfold
    by (auto intro!: settled_comb settled_library split: prod.split)
qed

lemma settled_free_entries: "settled (free_entries es)"
  by (induction es rule: free_entries.induct)
    (auto simp: free_entry_def intro!: obeys_intros settled_library)

lemma settled_destruct: "settled (destruct T bad)"
  unfolding destruct_def
proof (intro settled_comb settled_library)
  show "settled (\<lambda>s. if \<not> error_occured s then commit T bad s else Done () s)"
    by (rule settledI) (auto intro: settledD [OF settled_commit])
  show "settled (\<lambda>s. free_entries (bmap s) s)"
    by (rule settledI) (rule settledD [OF settled_free_entries])
qed

lemma settled_construct: "settled (construct T bad p)"
proof (rule settledI)
  fix n xs and s :: "'a cstate"
  assume s: "slp n xs s"
  let ?s = "s\<lparr>tid := 0, pid := p, error_occured := False, last_free_block := 0, bmap := mempty, lfd := 0\<rparr>"
  have s1: "slp n xs ?s" using s by (simp add: slp_def)
  have "settled (pbind (ask_tpm T BEGIN 0) (\<lambda>(okay, rq) s2.
      if \<not> okay then Quit s2 else Done () (s2\<lparr>tid := rq_tid rq\<rparr>)))"
    by (intro settled_comb(2) settled_library) (rule settledI, auto simp: slp_def split: prod.split)
  from settledD [OF this s1] s1
  show "post True (\<lambda>_. slp n xs) (\<lambda>e s. slp n xs s \<and> e \<noteq> Some TE_RESTART) (construct T bad p s)"
    by (auto simp: construct_def Let_def)
qed

section \<open>One pass and the loop\<close>

lemma run_once_pace:
  fixes body :: "('a, 'm) cprog"
  assumes body: "paced body" and s: "slp n xs s"
  shows "post True (\<lambda>_. slp n xs) (\<lambda>e s. if e = Some TE_RESTART
    then unat n < 6 \<and> slp (n + 1) (xs @ [sleeptime n]) s
    else awake n xs s \<or> unat n < 6 \<and> slp (n + 1) (xs @ [sleeptime n]) s) (run_once T bad p body s)"
  unfolding run_once_def pseq_def
proof (rule post_bind, rule post_mono [OF settledD [OF settled_construct s]])
  fix u and s1 :: "'m cstate" assume s1: "slp n xs s1"
  note bd = pacedD [OF body s1]
  let ?Q = "\<lambda>_. slp n xs" and ?X = "\<lambda>e s. if e = Some TE_RESTART
    then unat n < 6 \<and> slp (n + 1) (xs @ [sleeptime n]) s
    else awake n xs s \<or> unat n < 6 \<and> slp (n + 1) (xs @ [sleeptime n]) s"
  show "post True ?Q ?X (case body s1 of
         Done _ s1 \<Rightarrow> destruct T bad s1
       | Throw e s1 \<Rightarrow> (case destruct T bad s1 of
              Done _ s2 \<Rightarrow> Throw e s2 | Throw _ s2 \<Rightarrow> Quit s2
            | Quit s2 \<Rightarrow> Quit s2 | Wrong \<Rightarrow> Wrong | Loop \<Rightarrow> Loop)
       | Quit s1 \<Rightarrow> Quit s1 | Wrong \<Rightarrow> Wrong | Loop \<Rightarrow> Loop)"
  proof (cases "body s1")
    case (Done x s2)
    then show ?thesis
      using post_mono [OF settledD [OF settled_destruct, of n xs s2 T bad], of ?Q ?X] bd
      by (auto simp: slp_def awake_def)
  next
    case (Throw e s2)
    have d: "post True (\<lambda>_. slp (last_sleep s2) (sleeps s2))
        (\<lambda>e s. slp (last_sleep s2) (sleeps s2) s \<and> e \<noteq> Some TE_RESTART) (destruct T bad s2)"
      by (rule settledD [OF settled_destruct]) (simp add: slp_def)
    show ?thesis
      using d bd Throw by (cases "destruct T bad s2") (auto simp: pace_end_def slp_def awake_def split: if_splits)
  qed (use bd in \<open>auto simp: pace_end_def\<close>)
qed (auto simp: slp_def awake_def)

text \<open>At most six restarts, after which the process has slept \<open>1 + 2 + 4 + 8 + 16 + 32\<close> seconds.\<close>

theorem transaction_loop_ends:
  fixes body :: "('a, 'm) cprog"
  assumes body: "paced body"
  shows "\<exists>r. transaction_loop T bad p body s = Some r \<and>
    (\<forall>s'. final r = Some s' \<longrightarrow> (\<exists>k. k \<le> 6 - unat (last_sleep s) \<and>
      sleeps s' = sleeps s @ map (\<lambda>i. sleeptime (last_sleep s + of_nat i)) [0..<k]))"
proof (induction "6 - unat (last_sleep s)" arbitrary: s rule: less_induct)
  case less
  let ?n = "last_sleep s"
  let ?ok = "\<lambda>n xs s'. \<exists>k. k \<le> 6 - unat n \<and> sleeps s' = xs @ map (\<lambda>i. sleeptime (n + of_nat i)) [0..<k]"
  have s: "slp ?n (sleeps s) s" by (simp add: slp_def)
  note ro = run_once_pace [OF body s, of T bad p]
  have none: "?ok ?n (sleeps s) s'" if "sleeps s' = sleeps s" for s'
    using that by (intro exI [of _ 0]) simp
  have one: "?ok ?n (sleeps s) s'" if "sleeps s' = sleeps s @ [sleeptime ?n]" "unat ?n < 6" for s'
    using that by (intro exI [of _ 1]) simp
  show ?case
  proof (cases "run_once T bad p body s")
    case (Throw e s1)
    show ?thesis
    proof (cases "e = TE_RESTART")
      case True
      then have s1: "unat ?n < 6" "last_sleep s1 = ?n + 1" "sleeps s1 = sleeps s @ [sleeptime ?n]"
        using ro Throw by (auto simp: slp_def)
      have n1: "unat (?n + 1) = Suc (unat ?n)" using s1(1) by (intro unat_Suc_small) simp
      have "6 - unat (last_sleep s1) < 6 - unat ?n" using s1(1) by (simp add: s1(2) n1)
      from less.hyps [OF this] obtain r where r: "transaction_loop T bad p body s1 = Some r"
          "\<forall>s'. final r = Some s' \<longrightarrow> ?ok (last_sleep s1) (sleeps s1) s'"
        by blast
      have "?ok ?n (sleeps s) s'" if f: "final r = Some s'" for s'
      proof -
        obtain k where k: "k \<le> 6 - Suc (unat ?n)"
            "sleeps s' = sleeps s1 @ map (\<lambda>i. sleeptime (?n + 1 + of_nat i)) [0..<k]"
          using r(2) f s1(2) n1 by auto
        have "map (\<lambda>i. sleeptime (?n + of_nat i)) [0..<Suc k] =
            sleeptime ?n # map (\<lambda>i. sleeptime (?n + 1 + of_nat i)) [0..<k]"
          by (simp add: upt_conv_Cons map_Suc_upt [symmetric] add.assoc del: upt_Suc)
        then show ?thesis using k s1 by (intro exI [of _ "Suc k"]) auto
      qed
      then show ?thesis using r(1) Throw True by (subst transaction_loop.simps) simp
    next
      case False
      then have "sleeps s1 = sleeps s \<or> unat ?n < 6 \<and> sleeps s1 = sleeps s @ [sleeptime ?n]"
        using ro Throw by (auto simp: slp_def awake_def)
      then have "?ok ?n (sleeps s) s1" using none one by blast
      then show ?thesis using Throw False
        by (subst transaction_loop.simps) (cases e; simp)
    qed
  next
    case (Done x s1)
    then have "?ok ?n (sleeps s) s1" using ro none by (simp add: slp_def)
    then show ?thesis using Done by (subst transaction_loop.simps) simp
  next
    case (Quit s1)
    then have "?ok ?n (sleeps s) s1" using ro none one by (auto simp: slp_def awake_def)
    then show ?thesis using Quit by (subst transaction_loop.simps) simp
  qed (subst transaction_loop.simps; simp)+
qed

end
