(* ===== verification/Unwind.thy ===== *)
theory Unwind
  imports Restarts
begin

text \<open>
  Leaving a transaction: the error flag that decides between commit and no commit, the destructor's
  deletion of the buffers, and two paths on which the destructor does what the code does not mean.
\<close>

section \<open>The error flag\<close>

text \<open>Calls whose exceptions always leave \<open>error_occured\<close> set.\<close>

abbreviation err_law :: "TransactionException option \<Rightarrow> 'm cstate \<Rightarrow> bool" where
  "err_law \<equiv> \<lambda>e s. e \<noteq> None \<longrightarrow> error_occured s"

lemma ask_sets_flag: "obeys (\<lambda>_. True) err_law (ask_tpm T q b)"
  by (rule obeysI) (auto simp: ask_tpm_def tx_abort_def Let_def split: outcome.split)

interpretation flag: library_law T "\<lambda>_. True" err_law for T
proof (unfold_locales, goal_cases)
  case (1 q b)
  show ?case by (rule ask_sets_flag)
next
  case (2 s)
  show ?case by (rule restart_law [OF ask_sets_flag TrueI]) simp_all
qed simp_all

lemma throw_sets_flag:
  "allocate T bad s = Throw e s' \<Longrightarrow> error_occured s'"
  "b > 0 \<Longrightarrow> tx_read T bad b s = Throw e s' \<Longrightarrow> error_occured s'"
  "b > 0 \<Longrightarrow> tx_write T bad b v s = Throw e s' \<Longrightarrow> error_occured s'"
  "b > 0 \<Longrightarrow> tx_release T bad b s = Throw e s' \<Longrightarrow> error_occured s'"
  using obeys_Throw [OF flag.allocating TrueI, of T bad s e s']
    obeys_Throw [OF flag.calls(1) TrueI, of b T bad s e s']
    obeys_Throw [OF flag.calls(2) TrueI, of b T bad v s e s']
    obeys_Throw [OF flag.calls(3) TrueI, of b T bad s e s'] by simp_all

section \<open>Deleting the buffers\<close>

lemma delete_live:
  assumes "live h p"
  shows "\<exists>h'. delete_buffer p h = Ret h' \<and> (\<forall>q. q \<noteq> NULL \<longrightarrow> live h' q \<longleftrightarrow> live h q \<and> q \<noteq> p)"
proof -
  obtain a v where p: "p = Some a" "cells h a = Some v" using assms by (auto simp: live_def)
  let ?h = "h\<lparr>cells := (cells h)(a := None)\<rparr>"
  have "live ?h q \<longleftrightarrow> live h q \<and> q \<noteq> p" if "q \<noteq> NULL" for q
    using that p(1) by (cases q) (simp_all add: live_def)
  moreover have "delete_buffer p h = Ret ?h" using p by (simp add: delete_buffer_def)
  ultimately show ?thesis by blast
qed

lemma live_NULL [simp]: "\<not> live h NULL"
  by (simp add: live_def)

lemma free_entry_live:
  assumes "live (heap s) (data mb)" "live (heap s) (oldval mb)"
  shows "\<exists>h'. free_entry mb s = Done () (s\<lparr>heap := h'\<rparr>) \<and> (\<forall>q. live h' q \<longleftrightarrow> live (heap s) q \<and> q \<notin> buffers mb)"
proof (cases "oldval mb = data mb")
  case True
  obtain h' where "delete_buffer (data mb) (heap s) = Ret h'"
      "\<forall>q. q \<noteq> NULL \<longrightarrow> live h' q \<longleftrightarrow> live (heap s) q \<and> q \<noteq> data mb"
    using delete_live [OF assms(1)] by blast
  moreover have "free_entry mb s = tx_delete (data mb) s" "data mb \<noteq> NULL"
    using True assms by (auto simp: free_entry_def pseq_def pbind_def live_def)
  moreover have "live h' q \<longleftrightarrow> live (heap s) q \<and> q \<notin> buffers mb" for q
    using calculation(2) True by (cases "q = NULL") (simp_all add: buffers_def)
  ultimately show ?thesis by (auto simp: tx_delete_def)
next
  case False
  obtain h1 where h1: "delete_buffer (oldval mb) (heap s) = Ret h1"
      "\<forall>q. q \<noteq> NULL \<longrightarrow> live h1 q \<longleftrightarrow> live (heap s) q \<and> q \<noteq> oldval mb"
    using delete_live [OF assms(2)] by blast
  have nn: "data mb \<noteq> NULL" "oldval mb \<noteq> NULL" using assms by (auto simp: live_def)
  then have "live h1 (data mb)" using h1(2) assms(1) False by auto
  then obtain h' where h': "delete_buffer (data mb) h1 = Ret h'"
      "\<forall>q. q \<noteq> NULL \<longrightarrow> live h' q \<longleftrightarrow> live h1 q \<and> q \<noteq> data mb"
    using delete_live by blast
  have "live h' q \<longleftrightarrow> live (heap s) q \<and> q \<notin> buffers mb" for q
    using h1(2) h'(2) by (cases "q = NULL") (auto simp: buffers_def)
  then show ?thesis using h1(1) h'(1) nn False
    by (intro exI [of _ h']) (simp add: free_entry_def pseq_def pbind_def tx_delete_def)
qed

lemma free_entries_live:
  assumes "\<forall>(b, mb) \<in> set es. live (heap s) (data mb) \<and> live (heap s) (oldval mb)"
    and "\<forall>b mb b' mb'. (b, mb) \<in> set es \<longrightarrow> (b', mb') \<in> set es \<longrightarrow> b \<noteq> b' \<longrightarrow> buffers mb \<inter> buffers mb' = {}"
    and "distinct (map fst es)"
  shows "\<exists>h'. free_entries es s = Done () (s\<lparr>heap := h'\<rparr>) \<and>
    (\<forall>q. live h' q \<longleftrightarrow> live (heap s) q \<and> (\<forall>b mb. (b, mb) \<in> set es \<longrightarrow> q \<notin> buffers mb))"
  using assms
proof (induction es arbitrary: s)
  case Nil
  then show ?case by (intro exI [of _ "heap s"]) simp
next
  case (Cons e es)
  obtain b mb where e: "e = (b, mb)" by (cases e)
  obtain h1 where h1: "free_entry mb s = Done () (s\<lparr>heap := h1\<rparr>)"
      "\<forall>q. live h1 q \<longleftrightarrow> live (heap s) q \<and> q \<notin> buffers mb"
    using free_entry_live [of s mb] Cons.prems(1) e by auto
  have "\<forall>(c, mc) \<in> set es. live h1 (data mc) \<and> live h1 (oldval mc)"
  proof clarify
    fix c mc assume c: "(c, mc) \<in> set es"
    then have "c \<noteq> b" using Cons.prems(3) e by force
    then have "buffers mb \<inter> buffers mc = {}" using Cons.prems(2) c e by fastforce
    moreover have "live (heap s) (data mc)" "live (heap s) (oldval mc)" using Cons.prems(1) c by auto
    ultimately show "live h1 (data mc) \<and> live h1 (oldval mc)" using h1(2) by (auto simp: buffers_def)
  qed
  then have l1: "\<forall>(c, mc) \<in> set es. live (heap (s\<lparr>heap := h1\<rparr>)) (data mc) \<and> live (heap (s\<lparr>heap := h1\<rparr>)) (oldval mc)"
    by simp
  have dj: "\<forall>b mb b' mb'. (b, mb) \<in> set es \<longrightarrow> (b', mb') \<in> set es \<longrightarrow> b \<noteq> b' \<longrightarrow>
      buffers mb \<inter> buffers mb' = {}"
    using Cons.prems(2) by (meson list.set_intros(2))
  have "distinct (map fst es)" using Cons.prems(3) by simp
  from Cons.IH [OF l1 dj this]
  obtain h' where h': "free_entries es (s\<lparr>heap := h1\<rparr>) = Done () (s\<lparr>heap := h'\<rparr>)"
      "\<forall>q. live h' q \<longleftrightarrow> live h1 q \<and> (\<forall>b mb. (b, mb) \<in> set es \<longrightarrow> q \<notin> buffers mb)"
    by auto
  then show ?case using h1 by (intro exI [of _ h']) (auto simp: e pseq_def pbind_def)
qed

text \<open>From a state in order the destructor deletes every buffer of the block map once.\<close>

lemma free_entries_ok:
  assumes ok: "client_ok s" and s1: "heap s1 = heap s"
  shows "\<exists>h'. free_entries (bmap s) s1 = Done () (s1\<lparr>heap := h'\<rparr>) \<and>
    (\<forall>q. live h' q \<longleftrightarrow> live (heap s) q \<and> (\<forall>b mb. mfind (bmap s) b = Some mb \<longrightarrow> q \<notin> buffers mb))"
proof -
  have ord: "ordered (bmap s)" using client_okD(2) [OF ok] .
  have mem: "(b, mb) \<in> set (bmap s) \<longleftrightarrow> mfind (bmap s) b = Some mb" for b mb
    using ordered_mfind [OF ord] mfind_mdom [of b "bmap s"] by fastforce
  have "\<forall>(b, mb) \<in> set (bmap s). live (heap s) (data mb) \<and> live (heap s) (oldval mb)"
    using client_okD(5) [OF ok] by (auto simp: mem entry_ok_def good_buffer_def)
  moreover have "\<forall>b mb b' mb'. (b, mb) \<in> set (bmap s) \<longrightarrow> (b', mb') \<in> set (bmap s) \<longrightarrow> b \<noteq> b' \<longrightarrow>
      buffers mb \<inter> buffers mb' = {}"
    using client_okD(6) [OF ok] by (simp add: mem)
  moreover have "distinct (map fst (bmap s))" using ord by (simp add: ordered_def strict_sorted_iff)
  ultimately show ?thesis using free_entries_live [of "bmap s" s1] s1 by (auto simp: mem)
qed

section \<open>A refused upgrade\<close>

text \<open>
  \<open>write\<close> and \<open>release\<close> drop the buffer of a read lock before they ask for the stronger lock, and reset
  \<open>data\<close> but not \<open>oldval\<close>. When the request is refused, the destructor deletes \<open>oldval\<close> once more.
\<close>

definition dangling :: "block_no \<Rightarrow> 'm cstate \<Rightarrow> bool" where
  "dangling b s \<longleftrightarrow> (\<exists>mb. (b, mb) \<in> set (bmap s) \<and> data mb = NULL \<and> oldval mb \<noteq> NULL \<and>
     \<not> live (heap s) (oldval mb))"

lemma delete_not_live: "delete_buffer p h = Ret h' \<Longrightarrow> \<not> live h q \<Longrightarrow> \<not> live h' q"
  by (auto simp: delete_buffer_def live_def split: option.splits)

definition frees :: "(unit, 'm) cprog \<Rightarrow> bool" where
  "frees p \<longleftrightarrow> (\<forall>s. p s = Wrong \<or>
     (\<exists>h. p s = Done () (s\<lparr>heap := h\<rparr>) \<and> (\<forall>q. \<not> live (heap s) q \<longrightarrow> \<not> live h q)))"

lemma frees_pseq: "frees p \<Longrightarrow> frees q \<Longrightarrow> frees (pseq p q)"
  unfolding frees_def
proof
  fix s
  assume p: "\<forall>s. p s = Wrong \<or> (\<exists>h. p s = Done () (s\<lparr>heap := h\<rparr>) \<and> (\<forall>q. \<not> live (heap s) q \<longrightarrow> \<not> live h q))"
    and q: "\<forall>s. q s = Wrong \<or> (\<exists>h. q s = Done () (s\<lparr>heap := h\<rparr>) \<and> (\<forall>q. \<not> live (heap s) q \<longrightarrow> \<not> live h q))"
  show "pseq p q s = Wrong \<or>
    (\<exists>h. pseq p q s = Done () (s\<lparr>heap := h\<rparr>) \<and> (\<forall>q. \<not> live (heap s) q \<longrightarrow> \<not> live h q))"
  proof (cases "p s = Wrong")
    case True
    then show ?thesis by (simp add: pseq_def pbind_def)
  next
    case False
    then obtain h where h: "p s = Done () (s\<lparr>heap := h\<rparr>)" "\<forall>q. \<not> live (heap s) q \<longrightarrow> \<not> live h q"
      using p by blast
    then have "pseq p q s = q (s\<lparr>heap := h\<rparr>)" by (simp add: pseq_def pbind_def)
    then show ?thesis using q [rule_format, of "s\<lparr>heap := h\<rparr>"] h(2) by auto
  qed
qed

lemma frees_delete: "frees (tx_delete p)"
  unfolding frees_def
proof
  fix s :: "'a cstate"
  show "tx_delete p s = Wrong \<or>
    (\<exists>h. tx_delete p s = Done () (s\<lparr>heap := h\<rparr>) \<and> (\<forall>q. \<not> live (heap s) q \<longrightarrow> \<not> live h q))"
    by (cases "delete_buffer p (heap s)") (auto simp: tx_delete_def dest: delete_not_live)
qed

lemma frees_skip: "frees (Done ())"
  unfolding frees_def by (metis (no_types) cstate.surjective cstate.update_convs(7))

lemma frees_entry: "frees (free_entry mb)"
  unfolding free_entry_def by (intro frees_pseq) (simp_all add: frees_delete frees_skip)

lemma free_entry_cases:
  "free_entry mb s = Wrong \<or> (\<exists>h. free_entry mb s = Done () (s\<lparr>heap := h\<rparr>) \<and>
     (\<forall>q. \<not> live (heap s) q \<longrightarrow> \<not> live h q))"
  using frees_entry [of mb] unfolding frees_def by blast

lemma free_entry_dangling:
  "data mb = NULL \<Longrightarrow> oldval mb \<noteq> NULL \<Longrightarrow> \<not> live (heap s) (oldval mb) \<Longrightarrow> free_entry mb s = Wrong"
  by (auto simp: free_entry_def pseq_def pbind_def tx_delete_def delete_buffer_def live_def split: option.split)

lemma free_entries_dangling:
  assumes "(b, mb) \<in> set es" "data mb = NULL" "oldval mb \<noteq> NULL" "\<not> live (heap s) (oldval mb)"
  shows "free_entries es s = Wrong"
  using assms
proof (induction es arbitrary: s)
  case (Cons e es)
  obtain c mc where e: "e = (c, mc)" by (cases e)
  show ?case
  proof (cases "free_entry mc s = Wrong")
    case True
    then show ?thesis by (simp add: e pseq_def pbind_def)
  next
    case False
    then obtain h where h: "free_entry mc s = Done () (s\<lparr>heap := h\<rparr>)"
        "\<forall>q. \<not> live (heap s) q \<longrightarrow> \<not> live h q"
      using free_entry_cases by blast
    have "(c, mc) \<noteq> (b, mb)" using False Cons.prems free_entry_dangling by blast
    then have "free_entries es (s\<lparr>heap := h\<rparr>) = Wrong"
      using Cons.IH [of "s\<lparr>heap := h\<rparr>"] Cons.prems h(2) e by auto
    then show ?thesis using h(1) by (simp add: e pseq_def pbind_def)
  qed
qed simp

text \<open>After a refused upgrade the entry dangles, and the destructor goes wrong.\<close>

lemma drop_dangles:
  assumes ok: "client_ok s" and mb: "mfind (bmap s) b = Some mb" "lock mb = R_LOCK"
    and r: "drop_read_buffer b mb s = Done u s1"
  shows "dangling b s1"
proof -
  have e: "entry_ok (files s) (heap s) (last_free_block s) b mb" using client_okD(5) [OF ok mb(1)] .
  then have l: "live (heap s) (data mb)" "oldval mb = data mb"
    using mb(2) by (auto simp: entry_ok_def good_buffer_def)
  then obtain h where h: "delete_buffer (data mb) (heap s) = Ret h"
      "\<forall>q. q \<noteq> NULL \<longrightarrow> live h q \<longleftrightarrow> live (heap s) q \<and> q \<noteq> data mb"
    using delete_live by blast
  have nn: "data mb \<noteq> NULL" using l(1) by (auto simp: live_def)
  have s1: "s1 = s\<lparr>heap := h, bmap := mupd b (\<lambda>mb. mb\<lparr>data := NULL\<rparr>) (bmap s)\<rparr>"
    using r h(1) nn by (auto simp: drop_read_buffer_def pseq_eq_Done tx_delete_def)
  have "mfind (bmap s1) b = Some (mb\<lparr>data := NULL\<rparr>)" using mb(1) by (simp add: s1)
  then have "(b, mb\<lparr>data := NULL\<rparr>) \<in> set (bmap s1)"
    by (simp add: mfind_def map_of_SomeD)
  then show ?thesis using h(2) nn l(2)
    by (auto simp: dangling_def s1 intro!: exI [of _ "mb\<lparr>data := NULL\<rparr>"])
qed

lemma ask_keeps_heap:
  "ask_tpm T q b s = Done r s' \<Longrightarrow> bmap s' = bmap s \<and> heap s' = heap s"
  "ask_tpm T q b s = Throw e s' \<Longrightarrow> bmap s' = bmap s \<and> heap s' = heap s"
  by (auto simp: ask_tpm_def Let_def tx_abort_def split: outcome.splits if_splits)

lemma restart_keeps_heap: "restart T s = Throw e s' \<Longrightarrow> bmap s' = bmap s \<and> heap s' = heap s"
  by (auto simp: restart_def pbind_eq_Throw pseq_eq_Done pseq_def tx_abort_def backoff_sleep_def Let_def
      dest!: ask_keeps_heap split: if_splits)

text \<open>Whatever \<open>write_to_store\<close> throws, it throws before it makes the new entry.\<close>

lemma write_throw_keeps_heap:
  "write_to_store T bad b v s = Throw e s' \<Longrightarrow> bmap s' = bmap s \<and> heap s' = heap s"
proof -
  assume w: "write_to_store T bad b v s = Throw e s'"
  have al: "is_allocated bad b s = Done x s1 \<Longrightarrow> s1 = s" for x s1
    using is_allocated_Done by blast
  have rs: "tx_read_store bad b s1 = Throw e s2 \<Longrightarrow> bmap s2 = bmap s1 \<and> heap s2 = heap s1" for s1 e s2
    by (auto simp: tx_read_store_def tx_abort_def split: outcome.splits option.splits)
  have no: "tx_new s1 \<noteq> Throw e s2" "tx_fill p x s1 \<noteq> Throw e s2" "set_entry b mb s1 \<noteq> Throw e s2" for p x b mb s1 e s2
    by (auto simp: tx_new_def new_buffer_def tx_fill_def set_entry_def split: outcome.splits)
  have ia: "is_allocated bad b s = Throw e s1 \<Longrightarrow> bmap s1 = bmap s \<and> heap s1 = heap s" for e s1
    by (auto simp: is_allocated_def tx_abort_def split: if_splits outcome.splits option.splits)
  from w show ?thesis
    unfolding write_to_store_def pseq_def
    by (auto simp: pbind_eq_Throw no tx_abort_def split: if_splits
        dest!: al ask_keeps_heap restart_keeps_heap rs ia)
qed

lemma dangling_cong: "dangling b s \<Longrightarrow> bmap s' = bmap s \<Longrightarrow> heap s' = heap s \<Longrightarrow> dangling b s'"
  by (simp add: dangling_def)

lemma dangling_destruct: "dangling b s \<Longrightarrow> error_occured s \<Longrightarrow> destruct T bad s = Wrong"
  using free_entries_dangling by (fastforce simp: destruct_def dangling_def pseq_def pbind_def)

theorem refused_upgrade:
  assumes ok: "client_ok s" and mb: "mfind (bmap s) b = Some mb" "lock mb = R_LOCK"
    and t: "tx_write T bad b v s = Throw e s'" and b: "b > 0"
  shows "destruct T bad s' = Wrong"
proof -
  have f: "error_occured s'" using throw_sets_flag(3) [OF b t] .
  have p: "pseq (drop_read_buffer b mb) (write_to_store T bad b v) s = Throw e s'"
    using t b mb by (simp add: tx_write_def)
  have "drop_read_buffer b mb s \<noteq> Throw e s'"
    by (auto simp: drop_read_buffer_def pseq_def pbind_eq_Throw tx_delete_def split: outcome.splits if_splits)
  with p obtain s1 where s1: "drop_read_buffer b mb s = Done () s1" "write_to_store T bad b v s1 = Throw e s'"
    by (auto simp: pseq_def pbind_eq_Throw)
  have "dangling b s'"
    using drop_dangles [OF ok mb s1(1)] write_throw_keeps_heap [OF s1(2)] dangling_cong by blast
  then show ?thesis using dangling_destruct f by blast
qed

end
