(* ===== verification/Monitor.thy ===== *)
theory Monitor
  imports Trq
begin

text \<open>
  \<open>Monitor.hh\<close> and the request handling of \<open>Monitor.cc\<close>: the lock tables of the transaction monitor
  and one definition per member function. A handler takes the monitor and the request and
  returns the new monitor with the one \<open>trq\<close> it writes back to the client.

  Two inputs stand for what the C++ run time supplies. \<open>clk\<close> is the clock: \<open>clk i\<close> is the value of
  \<open>time(NULL)\<close> in the \<open>i\<close>-th iteration of a loop over readers, \<open>clk 0\<close> elsewhere. \<open>ef\<close> is the value
  that \<open>readers.front()\<close> delivers on an empty list (\<open>check_sole_reader\<close> calls it there, which the
  C++ standard leaves undefined); every lemma below says what it needs of \<open>ef\<close>, most need nothing.
\<close>

section \<open>Monitor.hh\<close>

datatype status_t = BEGUN | READING | WRITING | ALLOCATED | RELEASING | ABORTING | RESTARTING
  | COMMITTING | ENDED | PREEMPTED

record tstat =
  ts_pid :: pid_t
  ts_block :: block_no
  started :: time_t
  stat :: status_t

record blockholders =
  readers :: "trid_t list"
  writer :: trid_t

definition new_blockholders :: blockholders where
  "new_blockholders = \<lparr>readers = [], writer = 0\<rparr>"

record monitor =
  next_tid :: trid_t
  transactions :: "(fd, trid_t) stdmap"
  status :: "(trid_t, tstat) stdmap"
  blockmap :: "(block_no, blockholders) stdmap"

definition YOUNGER :: "trid_t \<Rightarrow> trid_t \<Rightarrow> bool" where
  "YOUNGER t1 t2 \<longleftrightarrow> t1 > t2"

definition OLDER :: "trid_t \<Rightarrow> trid_t \<Rightarrow> bool" where
  "OLDER t1 t2 \<longleftrightarrow> t1 < t2"

definition init_monitor :: monitor where
  "init_monitor = \<lparr>next_tid = 1, transactions = [], status = [], blockmap = []\<rparr>"

section \<open>Changes of the tables\<close>

definition update_status :: "trid_t \<Rightarrow> block_no \<Rightarrow> status_t \<Rightarrow> monitor \<Rightarrow> monitor" where
  "update_status t b s m =
     m\<lparr>status := mupd t (\<lambda>q. q\<lparr>ts_block := b, stat := s\<rparr>) (status m)\<rparr>"

definition set_stat :: "trid_t \<Rightarrow> status_t \<Rightarrow> monitor \<Rightarrow> monitor" where
  "set_stat t s m = m\<lparr>status := mupd t (\<lambda>q. q\<lparr>stat := s\<rparr>) (status m)\<rparr>"

definition set_writer :: "block_no \<Rightarrow> trid_t \<Rightarrow> monitor \<Rightarrow> monitor" where
  "set_writer b t m =
     (case mfind (blockmap m) b of
        None \<Rightarrow> m\<lparr>blockmap := mput b (new_blockholders\<lparr>writer := t\<rparr>) (blockmap m)\<rparr>
      | Some p \<Rightarrow> m\<lparr>blockmap := mupd b (\<lambda>p. p\<lparr>writer := t\<rparr>) (blockmap m)\<rparr>)"

definition set_reader :: "block_no \<Rightarrow> trid_t \<Rightarrow> monitor \<Rightarrow> monitor" where
  "set_reader b t m =
     (case mfind (blockmap m) b of
        None \<Rightarrow> m\<lparr>blockmap := mput b (new_blockholders\<lparr>readers := [t]\<rparr>) (blockmap m)\<rparr>
      | Some p \<Rightarrow> m\<lparr>blockmap := mupd b (\<lambda>p. p\<lparr>readers := t # readers p\<rparr>) (blockmap m)\<rparr>)"

definition remove_reader :: "block_no \<Rightarrow> trid_t \<Rightarrow> monitor \<Rightarrow> monitor" where
  "remove_reader b t m =
     (case mfind (blockmap m) b of
        None \<Rightarrow> m
      | Some p \<Rightarrow> m\<lparr>blockmap := mupd b (\<lambda>p. p\<lparr>readers := removeAll t (readers p)\<rparr>) (blockmap m)\<rparr>)"

definition list_front :: "trid_t \<Rightarrow> trid_t list \<Rightarrow> trid_t" where
  "list_front e xs = (case xs of [] \<Rightarrow> e | x # _ \<Rightarrow> x)"

definition check_sole_reader ::
  "(blockholders \<Rightarrow> trid_t) \<Rightarrow> trid_t \<Rightarrow> block_no \<Rightarrow> monitor \<Rightarrow> bool" where
  "check_sole_reader ef t b m =
     (case mfind (blockmap m) b of
        None \<Rightarrow> False
      | Some p \<Rightarrow> if length (readers p) > 1 then False
                  else if t = list_front (ef p) (readers p) then True else False)"

section \<open>Conflict resolution\<close>

text \<open>
  The part of \<open>can_read\<close> and \<open>can_write\<close> that decides against a present writer; the two functions
  repeat the same statements.
\<close>

definition contest_writer ::
  "(nat \<Rightarrow> time_t) \<Rightarrow> trid_t \<Rightarrow> block_no \<Rightarrow> trid_t \<Rightarrow> monitor \<Rightarrow> (bool \<times> monitor) outcome" where
  "contest_writer clk t b w m =
     (case mfind (status m) w of
        None \<Rightarrow> Exited
      | Some q \<Rightarrow>
          if stat q = COMMITTING then Ret (False, m)
          else if YOUNGER w t \<or> clk 0 - started q > TIMESLICE
          then Ret (True, (set_stat w PREEMPTED m)
                 \<lparr>blockmap := mupd b (\<lambda>p. p\<lparr>writer := 0\<rparr>) (blockmap m)\<rparr>)
          else Ret (False, m))"

definition can_read ::
  "(nat \<Rightarrow> time_t) \<Rightarrow> trid_t \<Rightarrow> block_no \<Rightarrow> monitor \<Rightarrow> (bool \<times> monitor) outcome" where
  "can_read clk t b m =
     (case mfind (blockmap m) b of
        None \<Rightarrow> Ret (True, m)
      | Some p \<Rightarrow> if writer p = 0 then Ret (True, m)
                  else contest_writer clk t b (writer p) m)"

text \<open>
  The loop over the readers: does it meet a reader that is older than \<open>t\<close>, within its time slice
  and not committing? The status entry of a reader is dereferenced without a check.
\<close>

fun reader_blocks ::
  "(nat \<Rightarrow> time_t) \<Rightarrow> trid_t \<Rightarrow> (trid_t, tstat) stdmap \<Rightarrow> trid_t list \<Rightarrow> bool outcome" where
  "reader_blocks clk t st [] = Ret False"
| "reader_blocks clk t st (r # rs) =
     (case mfind st r of
        None \<Rightarrow> Undef
      | Some s \<Rightarrow>
          if stat s \<noteq> COMMITTING \<and> OLDER r t \<and> clk 0 - started s \<le> TIMESLICE then Ret True
          else reader_blocks (\<lambda>i. clk (Suc i)) t st rs)"

fun preempt_all :: "trid_t list \<Rightarrow> monitor \<Rightarrow> monitor" where
  "preempt_all [] m = m"
| "preempt_all (k # ks) m = preempt_all ks (update_status k 0 PREEMPTED m)"

definition can_write ::
  "(nat \<Rightarrow> time_t) \<Rightarrow> trid_t \<Rightarrow> block_no \<Rightarrow> monitor \<Rightarrow> (bool \<times> monitor) outcome" where
  "can_write clk t b m =
     (case mfind (blockmap m) b of
        None \<Rightarrow> Ret (True, m)
      | Some p \<Rightarrow>
          if writer p = 0 then
            if length (readers p) = 0 then Ret (True, m)
            else obind (reader_blocks clk t (status m) (readers p)) (\<lambda>found.
              if found then Ret (False, m)
              else let m' = preempt_all (readers p) m in
                Ret (True, m'\<lparr>blockmap := mupd b (\<lambda>p. p\<lparr>readers := []\<rparr>) (blockmap m')\<rparr>))
          else contest_writer clk t b (writer p) m)"

section \<open>Request handlers\<close>

text \<open>
  Every handler but \<open>BEGIN\<close> builds its replies as \<open>{ rq.pid, rq.tid, ... }\<close> although \<open>trq\<close>
  declares \<open>tid\<close> before \<open>pid\<close>: the two numbers arrive in each other's field, converted.
\<close>

definition swapped_reply :: "trq \<Rightarrow> reply_t \<Rightarrow> trq" where
  "swapped_reply rq r =
     \<lparr>rq_tid = pid_to_trid (rq_pid rq), rq_pid = trid_to_pid (rq_tid rq),
      rq_request = rq_request rq, rq_reply = r, rq_block = rq_block rq\<rparr>"

definition begin_rq :: "(nat \<Rightarrow> time_t) \<Rightarrow> trq \<Rightarrow> fd \<Rightarrow> monitor \<Rightarrow> monitor \<times> trq" where
  "begin_rq clk rq who m =
     (let t = next_tid m in
      (m\<lparr>next_tid := next_tid m + 1,
         transactions := mput who t (transactions m),
         status := mput t \<lparr>ts_pid = rq_pid rq, ts_block = 0, started = clk 0, stat = BEGUN\<rparr>
                        (status m)\<rparr>,
       \<lparr>rq_tid = t, rq_pid = rq_pid rq, rq_request = rq_request rq, rq_reply = OK, rq_block = 0\<rparr>))"

definition allocate_rq ::
  "(nat \<Rightarrow> time_t) \<Rightarrow> trq \<Rightarrow> monitor \<Rightarrow> (monitor \<times> trq) outcome" where
  "allocate_rq clk rq m =
     obind (can_write clk (rq_tid rq) (rq_block rq) m) (\<lambda>(granted, m1).
       if granted
       then Ret (update_status (rq_tid rq) (rq_block rq) ALLOCATED
                   (set_writer (rq_block rq) (rq_tid rq) m1), swapped_reply rq OK)
       else Ret (m1, swapped_reply rq NOT_OK))"

definition read_rq ::
  "(nat \<Rightarrow> time_t) \<Rightarrow> trq \<Rightarrow> monitor \<Rightarrow> (monitor \<times> trq) outcome" where
  "read_rq clk rq m =
     obind (can_read clk (rq_tid rq) (rq_block rq) m) (\<lambda>(granted, m1).
       if granted
       then Ret (update_status (rq_tid rq) (rq_block rq) READING
                   (set_reader (rq_block rq) (rq_tid rq) m1), swapped_reply rq OK)
       else Ret (m1, swapped_reply rq NOT_OK))"

definition write_rq ::
  "(blockholders \<Rightarrow> trid_t) \<Rightarrow> (nat \<Rightarrow> time_t) \<Rightarrow> trq \<Rightarrow> monitor \<Rightarrow> (monitor \<times> trq) outcome" where
  "write_rq ef clk rq m =
     (let sole_reader = check_sole_reader ef (rq_tid rq) (rq_block rq) m in
      obind (if sole_reader then Ret (True, m)
             else can_write clk (rq_tid rq) (rq_block rq) m) (\<lambda>(granted, m1).
        if granted
        then let m2 = (if sole_reader then remove_reader (rq_block rq) (rq_tid rq) m1 else m1) in
          Ret (update_status (rq_tid rq) (rq_block rq) WRITING
                 (set_writer (rq_block rq) (rq_tid rq) m2), swapped_reply rq OK)
        else Ret (m1, swapped_reply rq NOT_OK)))"

definition release_rq ::
  "(nat \<Rightarrow> time_t) \<Rightarrow> trq \<Rightarrow> monitor \<Rightarrow> (monitor \<times> trq) outcome" where
  "release_rq clk rq m =
     obind (can_write clk (rq_tid rq) (rq_block rq) m) (\<lambda>(granted, m1).
       if granted
       then Ret (update_status (rq_tid rq) (rq_block rq) RELEASING
                   (set_writer (rq_block rq) (rq_tid rq) m1), swapped_reply rq OK)
       else Ret (m1, swapped_reply rq NOT_OK))"

definition abort_rq :: "trq \<Rightarrow> monitor \<Rightarrow> monitor \<times> trq" where
  "abort_rq rq m =
     (case mfind (status m) (rq_tid rq) of
        Some _ \<Rightarrow> (set_stat (rq_tid rq) ABORTING m, swapped_reply rq OK)
      | None \<Rightarrow> (m, swapped_reply rq NOT_OK))"

definition commit_rq :: "trq \<Rightarrow> monitor \<Rightarrow> monitor \<times> trq" where
  "commit_rq rq m =
     (case mfind (status m) (rq_tid rq) of
        Some _ \<Rightarrow> (set_stat (rq_tid rq) COMMITTING m, swapped_reply rq OK)
      | None \<Rightarrow> (m, swapped_reply rq NOT_OK))"

definition restart_rq :: "trq \<Rightarrow> monitor \<Rightarrow> monitor \<times> trq" where
  "restart_rq rq m =
     (case mfind (status m) (rq_tid rq) of
        Some _ \<Rightarrow> (set_stat (rq_tid rq) RESTARTING m, swapped_reply rq OK)
      | None \<Rightarrow> (m, swapped_reply rq NOT_OK))"

definition end_rq :: "trq \<Rightarrow> monitor \<Rightarrow> monitor \<times> trq" where
  "end_rq rq m =
     (case mfind (status m) (rq_tid rq) of
        Some q \<Rightarrow> if stat q = COMMITTING
                   then (set_stat (rq_tid rq) ENDED m, swapped_reply rq OK)
                   else (m, swapped_reply rq NOT_OK)
      | None \<Rightarrow> (m, swapped_reply rq NOT_OK))"

section \<open>Dispatch\<close>

definition preempted :: "trid_t \<Rightarrow> monitor \<Rightarrow> bool" where
  "preempted t m = (case mfind (status m) t of Some q \<Rightarrow> stat q = PREEMPTED | None \<Rightarrow> False)"

definition dispatch_rq ::
  "(blockholders \<Rightarrow> trid_t) \<Rightarrow> (nat \<Rightarrow> time_t) \<Rightarrow> trq \<Rightarrow> fd \<Rightarrow> monitor \<Rightarrow> (monitor \<times> trq) outcome" where
  "dispatch_rq ef clk rq who m =
     (case rq_request rq of
        BEGIN \<Rightarrow> Ret (begin_rq clk rq who m)
      | ALLOCATE \<Rightarrow> allocate_rq clk rq m
      | READ \<Rightarrow> read_rq clk rq m
      | WRITE \<Rightarrow> write_rq ef clk rq m
      | RELEASE \<Rightarrow> release_rq clk rq m
      | RESTART \<Rightarrow> Ret (restart_rq rq m)
      | ABORT \<Rightarrow> Ret (abort_rq rq m)
      | COMMIT \<Rightarrow> Ret (commit_rq rq m)
      | END \<Rightarrow> Ret (end_rq rq m))"

definition process_clientrq ::
  "(blockholders \<Rightarrow> trid_t) \<Rightarrow> (nat \<Rightarrow> time_t) \<Rightarrow> trq \<Rightarrow> fd \<Rightarrow> monitor \<Rightarrow> (monitor \<times> trq) outcome" where
  "process_clientrq ef clk rq who m =
     (if rq_request rq \<noteq> BEGIN \<and> preempted (rq_tid rq) m
      then Ret (m, swapped_reply rq DIE)
      else dispatch_rq ef clk rq who m)"

section \<open>Flushing a transaction\<close>

definition flush_holder :: "trid_t \<Rightarrow> blockholders \<Rightarrow> blockholders" where
  "flush_holder t p =
     (if writer p = t then p\<lparr>writer := 0\<rparr> else p\<lparr>readers := removeAll t (readers p)\<rparr>)"

definition flush_transaction :: "trid_t \<Rightarrow> monitor \<Rightarrow> monitor" where
  "flush_transaction t m =
     (case mfind (status m) t of
        None \<Rightarrow> m
      | Some _ \<Rightarrow> m\<lparr>blockmap := mmap (flush_holder t) (blockmap m),
                    status := merase t (status m)\<rparr>)"

end
