(* ===== verification/LockTable.thy ===== *)
theory LockTable
  imports Monitor
begin

text \<open>
  Views of the monitor's tables and the laws of the operations over them. \<open>holders m b\<close> is the
  \<open>blockholders\<close> entry of block \<open>b\<close>, with a missing entry read as "no reader, no writer" (the code
  treats both alike); \<open>stat_of m t\<close> is the status of transaction \<open>t\<close>, if it is known. The two case
  rules list every way \<open>can_read\<close> and \<open>can_write\<close> can answer.
\<close>

definition holders :: "monitor \<Rightarrow> block_no \<Rightarrow> blockholders" where
  "holders m b = (case mfind (blockmap m) b of None \<Rightarrow> new_blockholders | Some p \<Rightarrow> p)"

definition stat_of :: "monitor \<Rightarrow> trid_t \<Rightarrow> status_t option" where
  "stat_of m t = map_option stat (mfind (status m) t)"

definition started_of :: "monitor \<Rightarrow> trid_t \<Rightarrow> time_t option" where
  "started_of m t = map_option started (mfind (status m) t)"

definition known :: "monitor \<Rightarrow> trid_t \<Rightarrow> bool" where
  "known m t \<longleftrightarrow> mfind (status m) t \<noteq> None"

text \<open>A transaction that may no longer be protected by its time slice.\<close>

definition expired :: "monitor \<Rightarrow> trid_t \<Rightarrow> time_t \<Rightarrow> bool" where
  "expired m t now = (case mfind (status m) t of None \<Rightarrow> False | Some q \<Rightarrow> now - started q > TIMESLICE)"

lemma new_blockholders_simps [simp]:
  "readers new_blockholders = []" "writer new_blockholders = 0"
  "new_blockholders\<lparr>readers := []\<rparr> = new_blockholders"
  "new_blockholders\<lparr>writer := 0\<rparr> = new_blockholders"
  by (simp_all add: new_blockholders_def)

lemma holders_cong: "blockmap m = blockmap m' \<Longrightarrow> holders m = holders m'"
  by (simp add: holders_def fun_eq_iff)

lemma known_stat_of: "known m t \<longleftrightarrow> stat_of m t \<noteq> None"
  by (simp add: known_def stat_of_def)

lemma preempted_stat_of: "preempted t m \<longleftrightarrow> stat_of m t = Some PREEMPTED"
  by (auto simp: preempted_def stat_of_def split: option.splits)

section \<open>Laws of the table operations\<close>

lemma update_status_sel [simp]:
  "blockmap (update_status t b s m) = blockmap m" "next_tid (update_status t b s m) = next_tid m"
  "transactions (update_status t b s m) = transactions m"
  "holders (update_status t b s m) = holders m"
  by (simp_all add: update_status_def holders_def fun_eq_iff)

lemma set_stat_sel [simp]:
  "blockmap (set_stat t s m) = blockmap m" "next_tid (set_stat t s m) = next_tid m"
  "transactions (set_stat t s m) = transactions m" "holders (set_stat t s m) = holders m"
  by (simp_all add: set_stat_def holders_def fun_eq_iff)

lemma set_writer_sel [simp]:
  "status (set_writer b t m) = status m" "next_tid (set_writer b t m) = next_tid m"
  "transactions (set_writer b t m) = transactions m"
  by (simp_all add: set_writer_def split: option.splits)

lemma set_reader_sel [simp]:
  "status (set_reader b t m) = status m" "next_tid (set_reader b t m) = next_tid m"
  "transactions (set_reader b t m) = transactions m"
  by (simp_all add: set_reader_def split: option.splits)

lemma remove_reader_sel [simp]:
  "status (remove_reader b t m) = status m" "next_tid (remove_reader b t m) = next_tid m"
  "transactions (remove_reader b t m) = transactions m"
  by (simp_all add: remove_reader_def split: option.splits)

lemma holders_set_writer [simp, lookup_laws]:
  "holders (set_writer b t m) b' = (if b' = b then (holders m b)\<lparr>writer := t\<rparr> else holders m b')"
  by (simp add: holders_def set_writer_def split: option.splits)

lemma holders_set_reader [simp, lookup_laws]:
  "holders (set_reader b t m) b' =
     (if b' = b then (holders m b)\<lparr>readers := t # readers (holders m b)\<rparr> else holders m b')"
  by (simp add: holders_def set_reader_def split: option.splits)

lemma holders_remove_reader [simp, lookup_laws]:
  "holders (remove_reader b t m) b' =
     (if b' = b then (holders m b)\<lparr>readers := removeAll t (readers (holders m b))\<rparr>
      else holders m b')"
  by (simp add: holders_def remove_reader_def split: option.splits)

lemma holders_mupd [simp, lookup_laws]:
  "f new_blockholders = new_blockholders \<Longrightarrow>
   holders (m\<lparr>blockmap := mupd b f (blockmap m')\<rparr>) b' =
     (if b' = b then f (holders m' b) else holders m' b')"
  by (simp add: holders_def split: option.splits)

lemma stat_of_update_status [simp, lookup_laws]:
  "stat_of (update_status t b s m) t' =
     (if t' = t \<and> known m t then Some s else stat_of m t')"
  by (auto simp: stat_of_def update_status_def known_def)

lemma stat_of_set_stat [simp, lookup_laws]:
  "stat_of (set_stat t s m) t' = (if t' = t \<and> known m t then Some s else stat_of m t')"
  by (auto simp: stat_of_def set_stat_def known_def)

lemma stat_of_blockmap [simp]:
  "stat_of (m\<lparr>blockmap := x\<rparr>) = stat_of m" "known (m\<lparr>blockmap := x\<rparr>) = known m"
  "started_of (m\<lparr>blockmap := x\<rparr>) = started_of m"
  by (simp_all add: stat_of_def known_def started_of_def fun_eq_iff)

lemma stat_of_set_writer [simp]:
  "stat_of (set_writer b t m) = stat_of m" "stat_of (set_reader b t m) = stat_of m"
  "stat_of (remove_reader b t m) = stat_of m"
  by (simp_all add: stat_of_def fun_eq_iff)

lemma known_table_ops [simp]:
  "known (update_status t b s m) = known m" "known (set_stat t s m) = known m"
  "known (set_writer b t m) = known m" "known (set_reader b t m) = known m"
  "known (remove_reader b t m) = known m"
  by (simp_all add: known_def update_status_def set_stat_def fun_eq_iff)

lemma started_of_table_ops [simp]:
  "started_of (update_status t b s m) = started_of m" "started_of (set_stat t s m) = started_of m"
  "started_of (set_writer b t m) = started_of m" "started_of (set_reader b t m) = started_of m"
  "started_of (remove_reader b t m) = started_of m"
  by (auto simp: started_of_def update_status_def set_stat_def fun_eq_iff option.map_comp o_def
      intro!: option.map_cong0)

lemma preempt_all_sel [simp]:
  "blockmap (preempt_all ks m) = blockmap m" "next_tid (preempt_all ks m) = next_tid m"
  "transactions (preempt_all ks m) = transactions m" "holders (preempt_all ks m) = holders m"
  "known (preempt_all ks m) = known m" "started_of (preempt_all ks m) = started_of m"
  by (induction ks arbitrary: m) auto

lemma stat_of_preempt_all [simp, lookup_laws]:
  "stat_of (preempt_all ks m) t =
     (if t \<in> set ks \<and> known m t then Some PREEMPTED else stat_of m t)"
  by (induction ks arbitrary: m) auto

section \<open>The reader loop\<close>

text \<open>A reader the loop stops at, when it is examined in iteration \<open>i\<close>.\<close>

definition protected_reader ::
  "(nat \<Rightarrow> time_t) \<Rightarrow> trid_t \<Rightarrow> (trid_t, tstat) stdmap \<Rightarrow> trid_t list \<Rightarrow> nat \<Rightarrow> bool" where
  "protected_reader clk t st rs i =
     (case mfind st (rs ! i) of None \<Rightarrow> False
      | Some s \<Rightarrow> stat s \<noteq> COMMITTING \<and> OLDER (rs ! i) t \<and> clk i - started s \<le> TIMESLICE)"

lemma protected_reader_Suc:
  "protected_reader clk t st (r # rs) (Suc i) = protected_reader (\<lambda>i. clk (Suc i)) t st rs i"
  by (simp add: protected_reader_def cong: option.case_cong)

lemma ex_nat_Suc: "(\<exists>i. i < Suc n \<and> P i) \<longleftrightarrow> P 0 \<or> (\<exists>i. i < n \<and> P (Suc i))"
  by (metis Suc_less_eq not0_implies_Suc zero_less_Suc)

lemma reader_blocks_known:
  assumes "\<forall>r \<in> set rs. mfind st r \<noteq> None"
  shows "reader_blocks clk t st rs = Ret (\<exists>i < length rs. protected_reader clk t st rs i)"
  using assms
proof (induction rs arbitrary: clk)
  case Nil
  show ?case by simp
next
  case (Cons r rs)
  then obtain s where s: "mfind st r = Some s" by auto
  have "reader_blocks (\<lambda>i. clk (Suc i)) t st rs =
      Ret (\<exists>i < length rs. protected_reader (\<lambda>i. clk (Suc i)) t st rs i)"
    using Cons by simp
  moreover have "protected_reader clk t st (r # rs) (Suc i) =
      protected_reader (\<lambda>i. clk (Suc i)) t st rs i" for i
    by (rule protected_reader_Suc)
  moreover have "protected_reader clk t st (r # rs) 0 =
      (stat s \<noteq> COMMITTING \<and> OLDER r t \<and> clk 0 - started s \<le> TIMESLICE)"
    by (simp add: protected_reader_def s)
  ultimately show ?case
    by (auto simp: s ex_nat_Suc)
qed

lemma reader_blocks_True:
  "reader_blocks clk t st rs = Ret True \<Longrightarrow> \<exists>i < length rs. protected_reader clk t st rs i"
proof (induction rs arbitrary: clk)
  case Nil
  then show ?case by simp
next
  case (Cons r rs)
  then obtain s where s: "mfind st r = Some s" by (auto split: option.splits)
  show ?case
  proof (cases "stat s \<noteq> COMMITTING \<and> OLDER r t \<and> clk 0 - started s \<le> TIMESLICE")
    case True
    then have "protected_reader clk t st (r # rs) 0" by (simp add: protected_reader_def s)
    then show ?thesis by auto
  next
    case False
    with Cons.prems s have "reader_blocks (\<lambda>i. clk (Suc i)) t st rs = Ret True" by simp
    then obtain i where "i < length rs" "protected_reader (\<lambda>i. clk (Suc i)) t st rs i"
      using Cons.IH by blast
    then have "Suc i < length (r # rs) \<and> protected_reader clk t st (r # rs) (Suc i)"
      by (simp add: protected_reader_Suc)
    then show ?thesis by blast
  qed
qed

lemma reader_blocks_False:
  "reader_blocks clk t st rs = Ret False \<Longrightarrow>
   (\<forall>r \<in> set rs. mfind st r \<noteq> None) \<and> (\<forall>i < length rs. \<not> protected_reader clk t st rs i)"
proof (induction rs arbitrary: clk)
  case Nil
  then show ?case by simp
next
  case (Cons r rs)
  then obtain s where s: "mfind st r = Some s" by (auto split: option.splits)
  with Cons.prems have no: "\<not> (stat s \<noteq> COMMITTING \<and> OLDER r t \<and> clk 0 - started s \<le> TIMESLICE)"
    and rest: "reader_blocks (\<lambda>i. clk (Suc i)) t st rs = Ret False"
    by (auto split: if_splits)
  from Cons.IH [OF rest] s have known: "\<forall>r \<in> set (r # rs). mfind st r \<noteq> None" by simp
  from rest known have "reader_blocks clk t st (r # rs) = Ret False" using no s by simp
  with reader_blocks_known [OF known, of clk t] known show ?case by simp
qed

section \<open>Every answer of can_read and can_write\<close>

lemma contest_writer_cases:
  assumes "contest_writer clk t b w m = Ret (g, m1)"
  obtains
    (stays) q where "\<not> g" "m1 = m" "mfind (status m) w = Some q"
      "stat q = COMMITTING \<or> (w \<le> t \<and> clk 0 - started q \<le> TIMESLICE)"
  | (out) q where "g" "mfind (status m) w = Some q" "stat q \<noteq> COMMITTING"
      "t < w \<or> clk 0 - started q > TIMESLICE"
      "m1 = (set_stat w PREEMPTED m)\<lparr>blockmap := mupd b (\<lambda>p. p\<lparr>writer := 0\<rparr>) (blockmap m)\<rparr>"
  using assms
  by (auto simp: contest_writer_def YOUNGER_def not_less split: option.splits if_splits)

lemma can_read_cases:
  assumes "can_read clk t b m = Ret (g, m1)"
  obtains
    (free) "g" "m1 = m" "writer (holders m b) = 0"
  | (refused) q where "\<not> g" "m1 = m" "writer (holders m b) \<noteq> 0"
      "mfind (status m) (writer (holders m b)) = Some q"
      "stat q = COMMITTING \<or> (writer (holders m b) \<le> t \<and> clk 0 - started q \<le> TIMESLICE)"
  | (writer_out) q where "g" "writer (holders m b) \<noteq> 0"
      "mfind (status m) (writer (holders m b)) = Some q" "stat q \<noteq> COMMITTING"
      "t < writer (holders m b) \<or> clk 0 - started q > TIMESLICE"
      "m1 = (set_stat (writer (holders m b)) PREEMPTED m)
        \<lparr>blockmap := mupd b (\<lambda>p. p\<lparr>writer := 0\<rparr>) (blockmap m)\<rparr>"
proof (cases "writer (holders m b) = 0")
  case True
  then have "can_read clk t b m = Ret (True, m)"
    by (auto simp: can_read_def holders_def split: option.splits)
  with assms True that(1) show ?thesis by simp
next
  case False
  then have "can_read clk t b m = contest_writer clk t b (writer (holders m b)) m"
    by (auto simp: can_read_def holders_def split: option.splits)
  with assms have "contest_writer clk t b (writer (holders m b)) m = Ret (g, m1)" by simp
  then show ?thesis using False that(2,3) by (cases rule: contest_writer_cases) blast+
qed

lemma can_write_unfold:
  "can_write clk t b m =
     (if writer (holders m b) = 0 then
        if readers (holders m b) = [] then Ret (True, m)
        else obind (reader_blocks clk t (status m) (readers (holders m b))) (\<lambda>found.
          if found then Ret (False, m)
          else Ret (True, (preempt_all (readers (holders m b)) m)
                 \<lparr>blockmap := mupd b (\<lambda>p. p\<lparr>readers := []\<rparr>) (blockmap m)\<rparr>))
      else contest_writer clk t b (writer (holders m b)) m)"
  by (cases "mfind (blockmap m) b") (simp_all add: can_write_def holders_def Let_def cong: if_cong)

lemma can_write_cases:
  assumes "can_write clk t b m = Ret (g, m1)"
  obtains
    (free) "g" "m1 = m" "writer (holders m b) = 0" "readers (holders m b) = []"
  | (refused_readers) i where "\<not> g" "m1 = m" "writer (holders m b) = 0"
      "i < length (readers (holders m b))"
      "protected_reader clk t (status m) (readers (holders m b)) i"
  | (readers_out) "g" "writer (holders m b) = 0" "readers (holders m b) \<noteq> []"
      "\<forall>r \<in> set (readers (holders m b)). mfind (status m) r \<noteq> None"
      "\<forall>i < length (readers (holders m b)).
         \<not> protected_reader clk t (status m) (readers (holders m b)) i"
      "m1 = (preempt_all (readers (holders m b)) m)
        \<lparr>blockmap := mupd b (\<lambda>p. p\<lparr>readers := []\<rparr>) (blockmap m)\<rparr>"
  | (refused) q where "\<not> g" "m1 = m" "writer (holders m b) \<noteq> 0"
      "mfind (status m) (writer (holders m b)) = Some q"
      "stat q = COMMITTING \<or> (writer (holders m b) \<le> t \<and> clk 0 - started q \<le> TIMESLICE)"
  | (writer_out) q where "g" "writer (holders m b) \<noteq> 0"
      "mfind (status m) (writer (holders m b)) = Some q" "stat q \<noteq> COMMITTING"
      "t < writer (holders m b) \<or> clk 0 - started q > TIMESLICE"
      "m1 = (set_stat (writer (holders m b)) PREEMPTED m)
        \<lparr>blockmap := mupd b (\<lambda>p. p\<lparr>writer := 0\<rparr>) (blockmap m)\<rparr>"
proof (cases "writer (holders m b) = 0")
  case False
  with assms have "contest_writer clk t b (writer (holders m b)) m = Ret (g, m1)"
    by (simp add: can_write_unfold)
  then show ?thesis using False that(4,5) by (cases rule: contest_writer_cases) blast+
next
  case w0: True
  show ?thesis
  proof (cases "readers (holders m b) = []")
    case True
    with assms w0 that(1) show ?thesis by (simp add: can_write_unfold)
  next
    case False
    with assms w0 obtain found
      where found: "reader_blocks clk t (status m) (readers (holders m b)) = Ret found"
        and res: "(if found then Ret (False, m)
          else Ret (True, (preempt_all (readers (holders m b)) m)
                 \<lparr>blockmap := mupd b (\<lambda>p. p\<lparr>readers := []\<rparr>) (blockmap m)\<rparr>)) = Ret (g, m1)"
      by (auto simp: can_write_unfold)
    show ?thesis
    proof (cases found)
      case True
      with found res w0 that(2) reader_blocks_True show ?thesis by force
    next
      case no: False
      with found res w0 False that(3) reader_blocks_False show ?thesis by simp
    qed
  qed
qed

end
