(* ===== verification/LockHandlers.thy ===== *)
theory LockHandlers
  imports LockTable
begin

text \<open>
  The contract that the four lock requests (ALLOCATE, READ, WRITE, RELEASE) share, as a pair of
  locales, and its proof for each handler of the model. \<open>table_handler\<close> says what a handler may
  touch and that readers and a writer exclude each other; \<open>lock_handler\<close> adds that nobody loses
  a lock without being marked PREEMPTED, which for WRITE depends on the value \<open>ef\<close> of
  \<open>readers.front()\<close> on an empty list.
\<close>

definition holder_ok :: "blockholders \<Rightarrow> bool" where
  "holder_ok p \<longleftrightarrow> (writer p \<noteq> 0 \<longrightarrow> readers p = [])"

definition holds :: "monitor \<Rightarrow> block_no \<Rightarrow> trid_t \<Rightarrow> bool" where
  "holds m b t \<longleftrightarrow> t \<in> set (readers (holders m b)) \<or> (t \<noteq> 0 \<and> writer (holders m b) = t)"

text \<open>Every reader and writer of the block has a status entry.\<close>

definition block_live :: "monitor \<Rightarrow> block_no \<Rightarrow> bool" where
  "block_live m b \<longleftrightarrow> (\<forall>t. holds m b t \<longrightarrow> known m t)"

definition lock_inv :: "monitor \<Rightarrow> bool" where
  "lock_inv m \<longleftrightarrow> (\<forall>b. holder_ok (holders m b)) \<and> (\<forall>b. block_live m b)"

text \<open>
  What the two library layouts of an empty \<open>std::list\<close> deliver: the element count that follows the
  sentinel node (0), or the member of \<open>blockholders\<close> behind the list (the writer).
\<close>

definition benign :: "(blockholders \<Rightarrow> trid_t) \<Rightarrow> bool" where
  "benign ef \<longleftrightarrow> (\<forall>p. ef p = 0 \<or> ef p = writer p)"

section \<open>The contracts\<close>

locale table_handler =
  fixes h :: "(nat \<Rightarrow> time_t) \<Rightarrow> trq \<Rightarrow> monitor \<Rightarrow> (monitor \<times> trq) outcome"
    and st :: status_t
    and shared :: bool
  assumes frame: "h clk rq m = Ret (m', r) \<Longrightarrow>
      next_tid m' = next_tid m \<and> transactions m' = transactions m \<and> known m' = known m \<and>
      started_of m' = started_of m"
    and other_block: "h clk rq m = Ret (m', r) \<Longrightarrow> b \<noteq> rq_block rq \<Longrightarrow> holders m' b = holders m b"
    and exclusive: "h clk rq m = Ret (m', r) \<Longrightarrow> holder_ok (holders m (rq_block rq)) \<Longrightarrow>
      holder_ok (holders m' (rq_block rq))"
    and new_reader: "h clk rq m = Ret (m', r) \<Longrightarrow> t \<in> set (readers (holders m' b)) \<Longrightarrow>
      t \<in> set (readers (holders m b)) \<or> t = rq_tid rq"
    and new_writer: "h clk rq m = Ret (m', r) \<Longrightarrow>
      writer (holders m' b) \<in> {0, writer (holders m b), rq_tid rq}"
    and other_stat: "h clk rq m = Ret (m', r) \<Longrightarrow> t \<noteq> rq_tid rq \<Longrightarrow>
      stat_of m' t = stat_of m t \<or>
      stat_of m' t = Some PREEMPTED \<and> holds m (rq_block rq) t \<and> known m t"
    and answer: "h clk rq m = Ret (m', r) \<Longrightarrow>
      r = swapped_reply rq OK \<or> (r = swapped_reply rq NOT_OK \<and> m' = m)"
    and granted: "h clk rq m = Ret (m', swapped_reply rq OK) \<Longrightarrow>
      (if shared then rq_tid rq \<in> set (readers (holders m' (rq_block rq)))
       else writer (holders m' (rq_block rq)) = rq_tid rq) \<and>
      (known m (rq_tid rq) \<longrightarrow> stat_of m' (rq_tid rq) = Some st)"
    and total: "block_live m (rq_block rq) \<Longrightarrow> returns (h clk rq m)"
begin

lemma new_holder:
  assumes "h clk rq m = Ret (m', r)" "holds m' b t"
  shows "holds m b t \<or> t = rq_tid rq"
  using assms new_reader [OF assms(1), of t b] new_writer [OF assms(1), of b]
  by (auto simp: holds_def)

lemma excl_all:
  assumes "h clk rq m = Ret (m', r)" and "\<forall>b. holder_ok (holders m b)"
  shows "holder_ok (holders m' b)"
  using assms exclusive other_block by (cases "b = rq_block rq") auto

lemma live_all:
  assumes "h clk rq m = Ret (m', r)" and "\<forall>b. block_live m b" and "known m (rq_tid rq)"
  shows "block_live m' b"
  using assms new_holder frame unfolding block_live_def by metis

lemma lock_inv_step [inv_intros]:
  "h clk rq m = Ret (m', r) \<Longrightarrow> lock_inv m \<Longrightarrow> known m (rq_tid rq) \<Longrightarrow> lock_inv m'"
  unfolding lock_inv_def using excl_all live_all by blast

lemma runs: "lock_inv m \<Longrightarrow> returns (h clk rq m)"
  by (simp add: lock_inv_def total)

lemma preempted_stays:
  assumes "h clk rq m = Ret (m', r)" and "t \<noteq> rq_tid rq" and "stat_of m t = Some PREEMPTED"
  shows "stat_of m' t = Some PREEMPTED"
  using other_stat [OF assms(1,2)] assms(3) by auto

end

locale lock_handler = table_handler +
  assumes evicted: "h clk rq m = Ret (m', r) \<Longrightarrow> lock_inv m \<Longrightarrow> rq_tid rq \<noteq> 0 \<Longrightarrow>
      t \<noteq> rq_tid rq \<Longrightarrow> holds m b t \<Longrightarrow> \<not> holds m' b t \<Longrightarrow> stat_of m' t = Some PREEMPTED"
begin

text \<open>A transaction that is not marked PREEMPTED afterwards keeps each of its locks, in its mode.\<close>

lemma keeps_locks:
  assumes "h clk rq m = Ret (m', r)" "lock_inv m" "rq_tid rq \<noteq> 0" "t \<noteq> rq_tid rq" "t \<noteq> 0"
    and "stat_of m' t \<noteq> Some PREEMPTED"
  shows "t \<in> set (readers (holders m b)) \<Longrightarrow> t \<in> set (readers (holders m' b))"
    and "writer (holders m b) = t \<Longrightarrow> writer (holders m' b) = t"
proof -
  have ok: "holder_ok (holders m b)" using assms(2) by (simp add: lock_inv_def)
  have keep: "holds m b t \<Longrightarrow> holds m' b t" using assms evicted by blast
  show "t \<in> set (readers (holders m' b))" if "t \<in> set (readers (holders m b))"
    using that ok keep new_writer [OF assms(1), of b] assms(3,4,5)
    by (auto simp: holds_def holder_ok_def)
  show "writer (holders m' b) = t" if "writer (holders m b) = t"
    using that ok keep new_reader [OF assms(1), of t b] assms(4,5)
    by (auto simp: holds_def holder_ok_def)
qed

end

section \<open>Requests for the write lock\<close>

text \<open>ALLOCATE and RELEASE differ in the status they leave; \<open>claim_block\<close> is their common text.\<close>

definition claim_block ::
  "status_t \<Rightarrow> (nat \<Rightarrow> time_t) \<Rightarrow> trq \<Rightarrow> monitor \<Rightarrow> (monitor \<times> trq) outcome" where
  "claim_block s clk rq m =
     obind (can_write clk (rq_tid rq) (rq_block rq) m) (\<lambda>(granted, m1).
       if granted
       then Ret (update_status (rq_tid rq) (rq_block rq) s
                   (set_writer (rq_block rq) (rq_tid rq) m1), swapped_reply rq OK)
       else Ret (m1, swapped_reply rq NOT_OK))"

lemma allocate_claim: "allocate_rq = claim_block ALLOCATED"
  by (simp add: fun_eq_iff allocate_rq_def claim_block_def)

lemma release_claim: "release_rq = claim_block RELEASING"
  by (simp add: fun_eq_iff release_rq_def claim_block_def)

lemma write_rq_unfold:
  "write_rq ef clk rq m =
     (if check_sole_reader ef (rq_tid rq) (rq_block rq) m
      then Ret (update_status (rq_tid rq) (rq_block rq) WRITING
                 (set_writer (rq_block rq) (rq_tid rq)
                   (remove_reader (rq_block rq) (rq_tid rq) m)), swapped_reply rq OK)
      else claim_block WRITING clk rq m)"
  by (simp add: write_rq_def claim_block_def Let_def cong: if_cong)

lemma check_sole_reader_iff:
  "check_sole_reader ef t b m \<longleftrightarrow>
     (case mfind (blockmap m) b of None \<Rightarrow> False
      | Some p \<Rightarrow> readers p = [t] \<or> readers p = [] \<and> t = ef p)"
  by (auto simp: check_sole_reader_def list_front_def split: option.splits list.splits)

lemma sole_reader_holders:
  assumes "check_sole_reader ef t b m"
  shows "readers (holders m b) = [t] \<or> readers (holders m b) = [] \<and> t = ef (holders m b)"
  using assms by (auto simp: check_sole_reader_iff holders_def split: option.splits)

lemma swapped_reply_eq [simp]: "swapped_reply rq r = swapped_reply rq r' \<longleftrightarrow> r = r'"
  by (auto simp: swapped_reply_def)

lemma swapped_reply_reply [simp]: "rq_reply (swapped_reply rq r) = r"
  by (simp add: swapped_reply_def)

text \<open>The monitor after a granted claim, read through the views.\<close>

lemma claim_cases:
  assumes "claim_block s clk rq m = Ret (m', r)"
  obtains
    (refused) "r = swapped_reply rq NOT_OK" "m' = m"
      "can_write clk (rq_tid rq) (rq_block rq) m = Ret (False, m)"
  | (granted) m1 where "r = swapped_reply rq OK"
      "can_write clk (rq_tid rq) (rq_block rq) m = Ret (True, m1)"
      "m' = update_status (rq_tid rq) (rq_block rq) s (set_writer (rq_block rq) (rq_tid rq) m1)"
proof -
  from assms obtain g m1
    where cw: "can_write clk (rq_tid rq) (rq_block rq) m = Ret (g, m1)"
      and res: "(if g then Ret (update_status (rq_tid rq) (rq_block rq) s
                   (set_writer (rq_block rq) (rq_tid rq) m1), swapped_reply rq OK)
                else Ret (m1, swapped_reply rq NOT_OK)) = Ret (m', r)"
    by (auto simp: claim_block_def split: prod.splits)
  show thesis
  proof (cases g)
    case True
    with cw res that(2) show ?thesis by simp
  next
    case False
    moreover from cw False have "m1 = m" by (cases rule: can_write_cases) auto
    ultimately show ?thesis using cw res that(1) by simp
  qed
qed

lemma can_write_frame:
  assumes "can_write clk t b m = Ret (g, m1)"
  shows "next_tid m1 = next_tid m" "transactions m1 = transactions m" "known m1 = known m"
    "started_of m1 = started_of m" "b' \<noteq> b \<Longrightarrow> holders m1 b' = holders m b'"
  using assms by (cases rule: can_write_cases; simp)+

lemma can_write_granted:
  assumes "can_write clk t b m = Ret (True, m1)"
  shows "writer (holders m1 b) = 0" "writer (holders m b) = 0 \<Longrightarrow> readers (holders m1 b) = []"
    "writer (holders m b) \<noteq> 0 \<Longrightarrow> readers (holders m1 b) = readers (holders m b)"
    "holds m b x \<Longrightarrow> holder_ok (holders m b) \<Longrightarrow> known m x \<Longrightarrow> stat_of m1 x = Some PREEMPTED"
    "stat_of m1 x = stat_of m x \<or> stat_of m1 x = Some PREEMPTED \<and> holds m b x \<and> known m x"
  using assms by (cases rule: can_write_cases; auto simp: holds_def holder_ok_def known_def)+

lemma can_write_total: "block_live m b \<Longrightarrow> returns (can_write clk t b m)"
proof -
  assume live: "block_live m b"
  have rd: "\<forall>r \<in> set (readers (holders m b)). mfind (status m) r \<noteq> None"
    using live by (auto simp: block_live_def holds_def known_def)
  have wr: "writer (holders m b) \<noteq> 0 \<Longrightarrow> mfind (status m) (writer (holders m b)) \<noteq> None"
    using live by (auto simp: block_live_def holds_def known_def)
  show ?thesis
    using rd wr by (auto simp: can_write_unfold reader_blocks_known contest_writer_def)
qed

interpretation claim: lock_handler "claim_block s" s False for s
proof (unfold_locales, goal_cases)
  case (1 clk rq m m' r)
  then show ?case
  proof (cases rule: claim_cases)
    case (granted m1)
    then show ?thesis using can_write_frame(1-4) [OF granted(2)] by simp
  qed simp
next
  case (2 clk rq m m' r b)
  from 2(1) show ?case
  proof (cases rule: claim_cases)
    case (granted m1)
    then show ?thesis using can_write_frame(5) [OF granted(2) 2(2)] 2(2) by simp
  qed simp
next
  case (3 clk rq m m' r)
  from 3(1) show ?case
  proof (cases rule: claim_cases)
    case (granted m1)
    then show ?thesis using can_write_granted(2,3) [OF granted(2)] 3(2)
      by (auto simp: holder_ok_def)
  qed (use 3 in simp)
next
  case (4 clk rq m m' r t b)
  from 4(1) show ?case
  proof (cases rule: claim_cases)
    case (granted m1)
    have "readers (holders m1 (rq_block rq)) \<in> {[], readers (holders m (rq_block rq))}"
      using can_write_granted(2,3) [OF granted(2)] by force
    moreover have "b \<noteq> rq_block rq \<Longrightarrow> holders m1 b = holders m b"
      using can_write_frame(5) [OF granted(2)] .
    ultimately show ?thesis using 4(2) granted(3) by (cases "b = rq_block rq") auto
  qed (use 4 in simp)
next
  case (5 clk rq m m' r b)
  then show ?case
  proof (cases rule: claim_cases)
    case (granted m1)
    have "b \<noteq> rq_block rq \<Longrightarrow> holders m1 b = holders m b"
      using can_write_frame(5) [OF granted(2)] .
    then show ?thesis using granted(3) by (cases "b = rq_block rq") auto
  qed simp
next
  case (6 clk rq m m' r t)
  from 6(1) show ?case
  proof (cases rule: claim_cases)
    case (granted m1)
    with can_write_granted(5) [OF granted(2), of t] 6(2) show ?thesis by auto
  qed simp
next
  case (7 clk rq m m' r)
  then show ?case by (cases rule: claim_cases) auto
next
  case (8 clk rq m m')
  then show ?case
  proof (cases rule: claim_cases)
    case (granted m1)
    then show ?thesis using can_write_frame(3) [OF granted(2)] by simp
  qed simp
next
  case (9 m rq clk)
  obtain g m1 where "can_write clk (rq_tid rq) (rq_block rq) m = Ret (g, m1)"
    using can_write_total [OF 9, of clk "rq_tid rq"] by (auto simp: returns_Ret)
  then show ?case by (simp add: claim_block_def)
next
  case (10 clk rq m m' r t b)
  from 10(1) show ?case
  proof (cases rule: claim_cases)
    case refused
    with 10(5,6) show ?thesis by simp
  next
    case (granted m1)
    have b: "b = rq_block rq"
      using 10(5,6) granted(3) can_write_frame(5) [OF granted(2)]
      by (cases "b = rq_block rq") (auto simp: holds_def)
    have "stat_of m1 t = Some PREEMPTED"
      using can_write_granted(4) [OF granted(2)] 10(2,5) unfolding b lock_inv_def block_live_def
      by blast
    with granted(3) 10(4) show ?thesis by simp
  qed
qed

section \<open>The four requests\<close>

interpretation al: lock_handler allocate_rq ALLOCATED False
  unfolding allocate_claim by unfold_locales

interpretation rl: lock_handler release_rq RELEASING False
  unfolding release_claim by unfold_locales

lemma read_cases:
  assumes "read_rq clk rq m = Ret (m', r)"
  obtains
    (refused) "r = swapped_reply rq NOT_OK" "m' = m"
      "can_read clk (rq_tid rq) (rq_block rq) m = Ret (False, m)"
  | (granted) m1 where "r = swapped_reply rq OK"
      "can_read clk (rq_tid rq) (rq_block rq) m = Ret (True, m1)"
      "m' = update_status (rq_tid rq) (rq_block rq) READING (set_reader (rq_block rq) (rq_tid rq) m1)"
proof -
  from assms obtain g m1
    where cr: "can_read clk (rq_tid rq) (rq_block rq) m = Ret (g, m1)"
      and res: "(if g then Ret (update_status (rq_tid rq) (rq_block rq) READING
                   (set_reader (rq_block rq) (rq_tid rq) m1), swapped_reply rq OK)
                else Ret (m1, swapped_reply rq NOT_OK)) = Ret (m', r)"
    by (auto simp: read_rq_def split: prod.splits)
  show thesis
  proof (cases g)
    case True
    with cr res that(2) show ?thesis by simp
  next
    case False
    moreover from cr False have "m1 = m" by (cases rule: can_read_cases) auto
    ultimately show ?thesis using cr res that(1) by simp
  qed
qed

lemma can_read_frame:
  assumes "can_read clk t b m = Ret (g, m1)"
  shows "next_tid m1 = next_tid m" "transactions m1 = transactions m" "known m1 = known m"
    "started_of m1 = started_of m" "b' \<noteq> b \<Longrightarrow> holders m1 b' = holders m b'"
  using assms by (cases rule: can_read_cases; simp)+

lemma can_read_granted:
  assumes "can_read clk t b m = Ret (True, m1)"
  shows "writer (holders m1 b) = 0" "readers (holders m1 b) = readers (holders m b)"
    "writer (holders m b) = x \<Longrightarrow> x \<noteq> 0 \<Longrightarrow> known m x \<Longrightarrow> stat_of m1 x = Some PREEMPTED"
    "stat_of m1 x = stat_of m x \<or> stat_of m1 x = Some PREEMPTED \<and> holds m b x \<and> known m x"
  using assms by (cases rule: can_read_cases; auto simp: holds_def known_def)+

lemma can_read_total: "block_live m b \<Longrightarrow> returns (can_read clk t b m)"
  by (auto simp: can_read_def contest_writer_def block_live_def holds_def holders_def known_def
      split: option.splits)

interpretation rd: lock_handler read_rq READING True
proof (unfold_locales, goal_cases)
  case (1 clk rq m m' r)
  then show ?case
  proof (cases rule: read_cases)
    case (granted m1)
    then show ?thesis using can_read_frame(1-4) [OF granted(2)] by simp
  qed simp
next
  case (2 clk rq m m' r b)
  from 2(1) show ?case
  proof (cases rule: read_cases)
    case (granted m1)
    then show ?thesis using can_read_frame(5) [OF granted(2) 2(2)] 2(2) by simp
  qed simp
next
  case (3 clk rq m m' r)
  from 3(1) show ?case
  proof (cases rule: read_cases)
    case (granted m1)
    then show ?thesis using can_read_granted(1) [OF granted(2)] by (simp add: holder_ok_def)
  qed (use 3 in simp)
next
  case (4 clk rq m m' r t b)
  from 4(1) show ?case
  proof (cases rule: read_cases)
    case (granted m1)
    have "b \<noteq> rq_block rq \<Longrightarrow> holders m1 b = holders m b"
      using can_read_frame(5) [OF granted(2)] .
    then show ?thesis using 4(2) granted(3) can_read_granted(2) [OF granted(2)]
      by (cases "b = rq_block rq") auto
  qed (use 4 in simp)
next
  case (5 clk rq m m' r b)
  then show ?case
  proof (cases rule: read_cases)
    case (granted m1)
    have "b \<noteq> rq_block rq \<Longrightarrow> holders m1 b = holders m b"
      using can_read_frame(5) [OF granted(2)] .
    then show ?thesis using granted(3) can_read_granted(1) [OF granted(2)]
      by (cases "b = rq_block rq") auto
  qed simp
next
  case (6 clk rq m m' r t)
  from 6(1) show ?case
  proof (cases rule: read_cases)
    case (granted m1)
    with can_read_granted(4) [OF granted(2), of t] 6(2) show ?thesis by auto
  qed simp
next
  case (7 clk rq m m' r)
  then show ?case by (cases rule: read_cases) auto
next
  case (8 clk rq m m')
  then show ?case
  proof (cases rule: read_cases)
    case (granted m1)
    then show ?thesis using can_read_frame(3) [OF granted(2)] by simp
  qed simp
next
  case (9 m rq clk)
  obtain g m1 where "can_read clk (rq_tid rq) (rq_block rq) m = Ret (g, m1)"
    using can_read_total [OF 9, of clk "rq_tid rq"] by (auto simp: returns_Ret)
  then show ?case by (simp add: read_rq_def)
next
  case (10 clk rq m m' r t b)
  from 10(1) show ?case
  proof (cases rule: read_cases)
    case refused
    with 10(5,6) show ?thesis by simp
  next
    case (granted m1)
    have b: "b = rq_block rq"
      using 10(5,6) granted(3) can_read_frame(5) [OF granted(2)]
      by (cases "b = rq_block rq") (auto simp: holds_def)
    have "writer (holders m b) = t" "t \<noteq> 0"
      using 10(5,6) granted(3) can_read_granted(2) [OF granted(2)] by (auto simp: holds_def b)
    moreover have "known m t" using 10(2,5) unfolding lock_inv_def block_live_def by blast
    ultimately have "stat_of m1 t = Some PREEMPTED"
      using can_read_granted(3) [OF granted(2), of t] b by simp
    with granted(3) 10(4) show ?thesis by simp
  qed
qed

section \<open>WRITE, with the lock upgrade\<close>

lemma write_cases:
  assumes "write_rq ef clk rq m = Ret (m', r)"
  obtains
    (upgrade) "r = swapped_reply rq OK"
      "readers (holders m (rq_block rq)) = [rq_tid rq] \<or>
       readers (holders m (rq_block rq)) = [] \<and> rq_tid rq = ef (holders m (rq_block rq))"
      "m' = update_status (rq_tid rq) (rq_block rq) WRITING (set_writer (rq_block rq) (rq_tid rq)
              (remove_reader (rq_block rq) (rq_tid rq) m))"
  | (claim) "claim_block WRITING clk rq m = Ret (m', r)"
proof (cases "check_sole_reader ef (rq_tid rq) (rq_block rq) m")
  case True
  with assms sole_reader_holders [OF True] that(1) show ?thesis by (simp add: write_rq_unfold)
next
  case False
  with assms that(2) show ?thesis by (simp add: write_rq_unfold)
qed

interpretation wt: table_handler "write_rq ef" WRITING False for ef
proof (unfold_locales, goal_cases)
  case (1 clk rq m m' r)
  then show ?case by (cases rule: write_cases) (use claim.frame in auto)
next
  case (2 clk rq m m' r b)
  from 2(1) show ?case
    by (cases rule: write_cases) (use claim.other_block 2(2) in auto)
next
  case (3 clk rq m m' r)
  from 3(1) show ?case
    by (cases rule: write_cases) (use claim.exclusive 3(2) in \<open>auto simp: holder_ok_def\<close>)
next
  case (4 clk rq m m' r t b)
  from 4(1) show ?case
  proof (cases rule: write_cases)
    case upgrade
    with 4(2) show ?thesis by (cases "b = rq_block rq") auto
  qed (use claim.new_reader 4(2) in blast)
next
  case (5 clk rq m m' r b)
  then show ?case
  proof (cases rule: write_cases)
    case upgrade
    then show ?thesis by (cases "b = rq_block rq") auto
  qed (use claim.new_writer in blast)
next
  case (6 clk rq m m' r t)
  from 6(1) show ?case
    by (cases rule: write_cases) (use claim.other_stat 6(2) in auto)
next
  case (7 clk rq m m' r)
  then show ?case by (cases rule: write_cases) (use claim.answer in auto)
next
  case (8 clk rq m m')
  then show ?case by (cases rule: write_cases) (use claim.granted in auto)
next
  case (9 m rq clk)
  then show ?case using claim.total [OF 9] by (simp add: write_rq_unfold)
qed

lemma write_evicted:
  assumes "benign ef" and "write_rq ef clk rq m = Ret (m', r)" and "lock_inv m"
    and "rq_tid rq \<noteq> 0" and "t \<noteq> rq_tid rq" and "holds m b t" and "\<not> holds m' b t"
  shows "stat_of m' t = Some PREEMPTED"
  using assms(2)
proof (cases rule: write_cases)
  case upgrade
  have b: "b = rq_block rq"
    using assms(6,7) upgrade(3) by (cases "b = rq_block rq") (auto simp: holds_def)
  have ok: "holder_ok (holders m b)" using assms(3) by (simp add: lock_inv_def)
  have "ef (holders m b) = 0 \<or> ef (holders m b) = writer (holders m b)"
    using assms(1) by (simp add: benign_def)
  with upgrade(2) ok assms(4-7) have False
    by (auto simp: b holds_def holder_ok_def)
  then show ?thesis ..
next
  case claim
  then show ?thesis using claim.evicted assms(3-7) by blast
qed

text \<open>With the two library layouts of an empty list WRITE meets the whole contract.\<close>

lemma write_lock_handler: "benign ef \<Longrightarrow> lock_handler (write_rq ef) WRITING False"
  by unfold_locales (use write_evicted in blast)

lemma benign_count: "benign (\<lambda>p. 0)"
  by (simp add: benign_def)

lemma benign_member: "benign writer"
  by (simp add: benign_def)

interpretation wr_count: lock_handler "write_rq (\<lambda>p. 0)" WRITING False
  by (rule write_lock_handler [OF benign_count])

interpretation wr_member: lock_handler "write_rq writer" WRITING False
  by (rule write_lock_handler [OF benign_member])

end
