(* ===== verification/Server.thy ===== *)
theory Server
  imports LockHandlers LogManager
begin

text \<open>
  The monitor as a running server: \<open>client_disconnect\<close> with its call of the log manager, the
  invariant of the tables, and the states reachable by requests and disconnects of clients that
  use the library (one BEGIN per connection, then the transaction number it was given).
\<close>

section \<open>A client disconnects\<close>

record server =
  mon :: monitor
  lgr :: logmgr

definition run_logger :: "'a logprog \<Rightarrow> (TransactionException, 'a, server) prog" where
  "run_logger p s =
     (case p (lgr s) of
        Done x l \<Rightarrow> Done x (s\<lparr>lgr := l\<rparr>) | Throw e l \<Rightarrow> Throw e (s\<lparr>lgr := l\<rparr>)
      | Quit l \<Rightarrow> Quit (s\<lparr>lgr := l\<rparr>) | Wrong \<Rightarrow> Wrong | Loop \<Rightarrow> Loop)"

definition drop_client :: "fd \<Rightarrow> trid_t \<Rightarrow> monitor \<Rightarrow> monitor" where
  "drop_client fd t m =
     (let m' = flush_transaction t m in m'\<lparr>transactions := merase fd (transactions m')\<rparr>)"

definition client_disconnect :: "env \<Rightarrow> fd \<Rightarrow> (TransactionException, unit, server) prog" where
  "client_disconnect bad fd s =
     (case mfind (transactions (mon s)) fd of
        None \<Rightarrow> Done () s
      | Some t \<Rightarrow>
          (case mfind (status (mon s)) t of
             None \<Rightarrow> Done () s
           | Some q \<Rightarrow>
               pseq (if stat q = COMMITTING then run_logger (rollback bad t) else Done ())
                    (\<lambda>s'. Done () (s'\<lparr>mon := drop_client fd t (mon s')\<rparr>)) s))"

section \<open>Laws of flushing\<close>

lemma holders_flush:
  "known m t \<Longrightarrow> holders (flush_transaction t m) b = flush_holder t (holders m b) \<or>
   mfind (blockmap m) b = None \<and> holders (flush_transaction t m) b = holders m b"
  by (auto simp: flush_transaction_def known_def holders_def split: option.splits)

lemma holders_flush_if:
  assumes "known m t" "t \<noteq> 0"
  shows "holders (flush_transaction t m) b = flush_holder t (holders m b)"
  using holders_flush [OF assms(1), of b] assms(2)
  by (auto simp: flush_holder_def holders_def)

lemma flush_sel [simp]:
  "next_tid (flush_transaction t m) = next_tid m"
  "transactions (flush_transaction t m) = transactions m"
  by (simp_all add: flush_transaction_def split: option.splits)

lemma status_flush:
  "known m t \<Longrightarrow> mfind (status (flush_transaction t m)) t' =
     (if t' = t then None else mfind (status m) t')"
  by (auto simp: flush_transaction_def known_def split: option.splits)

lemma drop_client_sel [simp]:
  "next_tid (drop_client fd t m) = next_tid m" "holders (drop_client fd t m) = holders (flush_transaction t m)"
  "stat_of (drop_client fd t m) = stat_of (flush_transaction t m)"
  "known (drop_client fd t m) = known (flush_transaction t m)"
  "status (drop_client fd t m) = status (flush_transaction t m)"
  by (simp_all add: drop_client_def Let_def holders_def stat_of_def known_def fun_eq_iff)

lemma transactions_drop [simp]:
  "mfind (transactions (drop_client fd t m)) fd' =
     (if fd' = fd then None else mfind (transactions m) fd')"
  by (simp add: drop_client_def Let_def)

lemma known_flush: "known m t \<Longrightarrow> known (flush_transaction t m) t' \<longleftrightarrow> t' \<noteq> t \<and> known m t'"
  by (simp add: known_def status_flush)

lemma stat_of_flush:
  "known m t \<Longrightarrow> stat_of (flush_transaction t m) t' = (if t' = t then None else stat_of m t')"
  by (simp add: stat_of_def status_flush)

lemma holds_flush:
  assumes "known m t" "t \<noteq> 0" "holder_ok (holders m b)"
  shows "holds (flush_transaction t m) b t' \<longleftrightarrow> holds m b t' \<and> t' \<noteq> t"
  using assms(3) by (auto simp: holds_def holders_flush_if [OF assms(1,2)] flush_holder_def
      holder_ok_def assms(2))

section \<open>The invariant\<close>

definition tids_ok :: "monitor \<Rightarrow> bool" where
  "tids_ok m \<longleftrightarrow> next_tid m \<noteq> 0 \<and> (\<forall>t. known m t \<longrightarrow> t \<noteq> 0 \<and> t < next_tid m) \<and>
     (\<forall>c t. mfind (transactions m) c = Some t \<longrightarrow> known m t) \<and>
     (\<forall>c c' t. mfind (transactions m) c = Some t \<longrightarrow> mfind (transactions m) c' = Some t \<longrightarrow> c = c')"

definition mon_inv :: "monitor \<Rightarrow> bool" where
  "mon_inv m \<longleftrightarrow> lock_inv m \<and> tids_ok m"

lemma mon_inv_init: "mon_inv init_monitor"
  by (simp add: mon_inv_def lock_inv_def tids_ok_def init_monitor_def holders_def holder_ok_def
      block_live_def holds_def known_def)

text \<open>The order of tables and of the client's connection: what the library sends.\<close>

definition library_request :: "monitor \<Rightarrow> trq \<Rightarrow> fd \<Rightarrow> bool" where
  "library_request m rq who \<longleftrightarrow>
     (if rq_request rq = BEGIN then mfind (transactions m) who = None \<and> next_tid m \<noteq> -1
      else mfind (transactions m) who = Some (rq_tid rq))"

section \<open>The requests by kind\<close>

lemma mark_cases:
  "abort_rq rq m = (m', r) \<Longrightarrow>
     m' = m \<or> m' = set_stat (rq_tid rq) ABORTING m \<and> r = swapped_reply rq OK"
  "commit_rq rq m = (m', r) \<Longrightarrow>
     m' = m \<or> m' = set_stat (rq_tid rq) COMMITTING m \<and> r = swapped_reply rq OK"
  "restart_rq rq m = (m', r) \<Longrightarrow>
     m' = m \<or> m' = set_stat (rq_tid rq) RESTARTING m \<and> r = swapped_reply rq OK"
  "end_rq rq m = (m', r) \<Longrightarrow>
     m' = m \<or> m' = set_stat (rq_tid rq) ENDED m \<and> r = swapped_reply rq OK \<and>
       stat_of m (rq_tid rq) = Some COMMITTING"
  subgoal by (cases "mfind (status m) (rq_tid rq)"; simp only: abort_rq_def option.case prod.inject; blast)
  subgoal by (cases "mfind (status m) (rq_tid rq)"; simp only: commit_rq_def option.case prod.inject; blast)
  subgoal by (cases "mfind (status m) (rq_tid rq)"; simp only: restart_rq_def option.case prod.inject; blast)
  subgoal by (cases "mfind (status m) (rq_tid rq)"; simp only: end_rq_def option.case prod.inject
      stat_of_def option.map split: if_splits; blast)
  done

lemma process_cases:
  assumes "process_clientrq ef clk rq who m = Ret (m', r)"
  obtains
    (die) "preempted (rq_tid rq) m" "rq_request rq \<noteq> BEGIN" "m' = m" "r = swapped_reply rq DIE"
  | (start) "rq_request rq = BEGIN" "(m', r) = begin_rq clk rq who m"
  | (lock) h st shared where "table_handler h st shared" "benign ef \<Longrightarrow> lock_handler h st shared"
      "rq_request rq \<in> {ALLOCATE, READ, WRITE, RELEASE}" "\<not> preempted (rq_tid rq) m"
      "h clk rq m = Ret (m', r)" "st \<in> {ALLOCATED, READING, WRITING, RELEASING}"
      "shared \<longleftrightarrow> rq_request rq = READ"
  | (mark) st where "rq_request rq \<in> {COMMIT, END, ABORT, RESTART}" "\<not> preempted (rq_tid rq) m"
      "m' = m \<or> m' = set_stat (rq_tid rq) st m" "st \<in> {ABORTING, COMMITTING, RESTARTING, ENDED}"
      "dispatch_rq ef clk rq who m = Ret (m', r)"
proof (cases "rq_request rq \<noteq> BEGIN \<and> preempted (rq_tid rq) m")
  case True
  with assms have "m' = m \<and> r = swapped_reply rq DIE"
    by (simp only: process_clientrq_def simp_thms if_True outcome.inject prod.inject)
  with True that(1) show ?thesis by blast
next
  case no: False
  with assms have d: "dispatch_rq ef clk rq who m = Ret (m', r)" by (simp add: process_clientrq_def)
  note lk = al.table_handler_axioms rd.table_handler_axioms rl.table_handler_axioms
    wt.table_handler_axioms al.lock_handler_axioms rd.lock_handler_axioms rl.lock_handler_axioms
    write_lock_handler
  show ?thesis
  proof (cases "rq_request rq")
    case BEGIN
    with d that(2) show ?thesis by (simp add: dispatch_rq_def)
  next
    case ALLOCATE
    with d no lk that(3) [of allocate_rq ALLOCATED False] show ?thesis by (simp add: dispatch_rq_def)
  next
    case READ
    with d no lk that(3) [of read_rq READING True] show ?thesis by (simp add: dispatch_rq_def)
  next
    case WRITE
    with d no lk that(3) [of "write_rq ef" WRITING False] show ?thesis by (simp add: dispatch_rq_def)
  next
    case RELEASE
    with d no lk that(3) [of release_rq RELEASING False] show ?thesis by (simp add: dispatch_rq_def)
  next
    case COMMIT
    with d no mark_cases(2) [of rq m m' r] that(4) [of COMMITTING] show ?thesis
      by (auto simp: dispatch_rq_def)
  next
    case END
    with d no mark_cases(4) [of rq m m' r] that(4) [of ENDED] show ?thesis
      by (auto simp: dispatch_rq_def)
  next
    case ABORT
    with d no mark_cases(1) [of rq m m' r] that(4) [of ABORTING] show ?thesis
      by (auto simp: dispatch_rq_def)
  next
    case RESTART
    with d no mark_cases(3) [of rq m m' r] that(4) [of RESTARTING] show ?thesis
      by (auto simp: dispatch_rq_def)
  qed
qed

section \<open>Every request keeps the invariant\<close>

lemma holds_set_stat [simp]: "holds (set_stat t s m) = holds m"
  by (simp add: holds_def fun_eq_iff)

lemma holds_cong: "holders m = holders m' \<Longrightarrow> holds m = holds m'"
  by (simp add: holds_def fun_eq_iff)

lemma lock_inv_set_stat [simp]: "lock_inv (set_stat t s m) = lock_inv m"
  by (simp add: lock_inv_def block_live_def)

lemma tids_ok_set_stat [simp]: "tids_ok (set_stat t s m) = tids_ok m"
  by (simp add: tids_ok_def)

lemma holders_begin [simp]: "holders (fst (begin_rq clk rq who m)) = holders m"
  by (simp add: begin_rq_def holders_def fun_eq_iff Let_def)

lemma known_begin [simp]:
  "known (fst (begin_rq clk rq who m)) t \<longleftrightarrow> t = next_tid m \<or> known m t"
  by (simp add: begin_rq_def known_def Let_def)

lemma begin_sel [simp]:
  "next_tid (fst (begin_rq clk rq who m)) = next_tid m + 1"
  "mfind (transactions (fst (begin_rq clk rq who m))) c =
     (if c = who then Some (next_tid m) else mfind (transactions m) c)"
  by (simp_all add: begin_rq_def Let_def)

lemma lock_inv_begin: "lock_inv m \<Longrightarrow> lock_inv (fst (begin_rq clk rq who m))"
  by (auto simp: lock_inv_def block_live_def holds_def)

lemma word_less_add_one:
  assumes "n \<noteq> -1" "t \<le> n"
  shows "t < n + (1 :: trid_t)"
proof -
  have "1 + n \<noteq> 0" using assms(1) by (simp add: add_eq_0_iff)
  then have "unat (1 + n) = Suc (unat n)" by (rule unatSuc)
  then show ?thesis using assms(2) by (simp add: word_less_nat_alt word_le_nat_alt add.commute)
qed

lemma tids_ok_begin:
  assumes "tids_ok m" "next_tid m \<noteq> -1" "mfind (transactions m) who = None"
  shows "tids_ok (fst (begin_rq clk rq who m))"
proof -
  have n: "next_tid m < next_tid m + 1" using assms(2) by (simp add: word_less_add_one)
  have "next_tid m + 1 \<noteq> 0" using n by auto
  moreover have "t \<noteq> 0 \<and> t < next_tid m + 1" if "t = next_tid m \<or> known m t" for t
    using assms(1) n that by (auto simp: tids_ok_def)
  moreover have "c = c'" if "mfind (transactions m) c = Some (next_tid m)" for c c' :: fd
    using assms(1) that unfolding tids_ok_def by (metis less_irrefl)
  ultimately show ?thesis using assms(1,3) unfolding tids_ok_def
    by (auto split: if_splits) 
qed

lemma process_inv:
  assumes "process_clientrq ef clk rq who m = Ret (m', r)" "mon_inv m" "library_request m rq who"
  shows "mon_inv m'"
  using assms(1)
proof (cases rule: process_cases)
  case die
  with assms show ?thesis by simp
next
  case start
  then have "m' = fst (begin_rq clk rq who m)" by (metis fst_conv)
  with assms start show ?thesis
    by (simp add: mon_inv_def lock_inv_begin tids_ok_begin library_request_def)
next
  case (lock h st shared)
  have rq: "mfind (transactions m) who = Some (rq_tid rq)"
    using assms(3) lock(3) by (auto simp: library_request_def)
  then have "known m (rq_tid rq)" using assms(2) by (auto simp: mon_inv_def tids_ok_def)
  then have "lock_inv m'"
    using table_handler.lock_inv_step [OF lock(1,5)] assms(2) by (simp add: mon_inv_def)
  moreover have "tids_ok m'"
    using table_handler.frame [OF lock(1,5)] assms(2) by (simp add: mon_inv_def tids_ok_def)
  ultimately show ?thesis by (simp add: mon_inv_def)
next
  case (mark st)
  with assms show ?thesis by (auto simp: mon_inv_def)
qed

end
