(* ===== verification/Sessions.thy ===== *)
theory Sessions
  imports Server
begin

text \<open>
  The monitor together with what its clients believe: a state is the monitor and, per connection,
  the lock the library has recorded for each block (the \<open>lock\<close> fields of \<open>Transaction::blockmap\<close>).
  Steps are one request of one client, answered by \<open>process_clientrq\<close>, or a disconnect. The
  invariant \<open>agree\<close> says that a recorded lock is a lock the monitor grants, or its owner is marked
  PREEMPTED; isolation follows.
\<close>

record session =
  sv :: monitor
  held :: "fd \<Rightarrow> block_no \<Rightarrow> locktype option"

definition init_session :: session where
  "init_session = \<lparr>sv = init_monitor, held = (\<lambda>_ _. None)\<rparr>"

text \<open>What a positive reply makes the library record.\<close>

fun record_grant ::
  "request_t \<Rightarrow> block_no \<Rightarrow> (block_no \<Rightarrow> locktype option) \<Rightarrow> (block_no \<Rightarrow> locktype option)" where
  "record_grant ALLOCATE b h = h(b \<mapsto> A_LOCK)"
| "record_grant READ b h = h(b \<mapsto> R_LOCK)"
| "record_grant WRITE b h = h(b \<mapsto> W_LOCK)"
| "record_grant RELEASE b h = h(b \<mapsto> S_LOCK)"
| "record_grant BEGIN b h = (\<lambda>_. None)"
| "record_grant _ b h = h"

definition answer :: "session \<Rightarrow> fd \<Rightarrow> trq \<Rightarrow> monitor \<Rightarrow> trq \<Rightarrow> session" where
  "answer s who rq m' r =
     \<lparr>sv = m',
      held = (if rq_reply r = OK
              then (held s)(who := record_grant (rq_request rq) (rq_block rq) (held s who))
              else held s)\<rparr>"

inductive sess_step :: "(blockholders \<Rightarrow> trid_t) \<Rightarrow> session \<Rightarrow> session \<Rightarrow> bool" for ef where
  request: "library_request (sv s) rq who \<Longrightarrow>
     process_clientrq ef clk rq who (sv s) = Ret (m', r) \<Longrightarrow>
     sess_step ef s (answer s who rq m' r)"
| gone: "mfind (transactions (sv s)) who = Some t \<Longrightarrow>
     sess_step ef s \<lparr>sv = drop_client who t (sv s), held = (held s)(who := (\<lambda>_. None))\<rparr>"

inductive reachable :: "(blockholders \<Rightarrow> trid_t) \<Rightarrow> session \<Rightarrow> bool" for ef where
  init: "reachable ef init_session"
| step: "reachable ef s \<Longrightarrow> sess_step ef s s' \<Longrightarrow> reachable ef s'"

inductive_cases sess_stepE: "sess_step ef s s'"

section \<open>The table invariant in every reachable state\<close>

lemma drop_client_inv:
  assumes "mon_inv m" "mfind (transactions m) who = Some t"
  shows "mon_inv (drop_client who t m)"
proof -
  have k: "known m t" "t \<noteq> 0" using assms by (auto simp: mon_inv_def tids_ok_def)
  have ok: "holder_ok (holders m b)" for b using assms(1) by (simp add: mon_inv_def lock_inv_def)
  have "holder_ok (holders (flush_transaction t m) b)" for b
    using ok [of b] by (auto simp: holders_flush_if [OF k] flush_holder_def holder_ok_def)
  moreover have "block_live (drop_client who t m) b" for b
  proof -
    have "holds (drop_client who t m) b x = holds (flush_transaction t m) b x" for x
      by (simp add: holds_def)
    then show ?thesis using assms(1) k(1)
      by (auto simp: block_live_def holds_flush [OF k ok] known_flush mon_inv_def lock_inv_def)
  qed
  ultimately have "lock_inv (drop_client who t m)" by (simp add: lock_inv_def)
  moreover have "tids_ok (drop_client who t m)"
    using assms k unfolding mon_inv_def tids_ok_def by (auto simp: known_flush)
  ultimately show ?thesis by (simp add: mon_inv_def)
qed

lemma sess_step_inv: "sess_step ef s s' \<Longrightarrow> mon_inv (sv s) \<Longrightarrow> mon_inv (sv s')"
  by (erule sess_stepE) (auto simp: answer_def intro: process_inv drop_client_inv)

lemma reachable_inv: "reachable ef s \<Longrightarrow> mon_inv (sv s)"
  by (induction rule: reachable.induct)
    (auto simp: init_session_def mon_inv_init intro: sess_step_inv)

section \<open>Recorded locks are granted locks\<close>

definition covers :: "monitor \<Rightarrow> trid_t \<Rightarrow> block_no \<Rightarrow> locktype \<Rightarrow> bool" where
  "covers m t b l \<longleftrightarrow>
     (if l = R_LOCK then t \<in> set (readers (holders m b)) else writer (holders m b) = t)"

definition agree :: "session \<Rightarrow> bool" where
  "agree s \<longleftrightarrow> (\<forall>who b l. held s who b = Some l \<longrightarrow>
     (\<exists>t. mfind (transactions (sv s)) who = Some t \<and>
          (stat_of (sv s) t = Some PREEMPTED \<or> covers (sv s) t b l)))"

lemma agreeI:
  assumes "\<And>who b l. held s who b = Some l \<Longrightarrow>
    \<exists>t. mfind (transactions (sv s)) who = Some t \<and>
      (stat_of (sv s) t = Some PREEMPTED \<or> covers (sv s) t b l)"
  shows "agree s"
  using assms by (auto simp: agree_def)

lemma agreeD:
  assumes "agree s" "held s who b = Some l"
  obtains t where "mfind (transactions (sv s)) who = Some t"
    "stat_of (sv s) t = Some PREEMPTED \<or> covers (sv s) t b l"
  using assms unfolding agree_def by blast

lemma covers_holders_cong: "holders m' b = holders m b \<Longrightarrow> covers m' t b l = covers m t b l"
  by (simp add: covers_def)

lemma covers_kept:
  assumes "lock_handler h st shared" "h clk rq m = Ret (m', r)" "lock_inv m"
    and "rq_tid rq \<noteq> 0" "t \<noteq> rq_tid rq" "t \<noteq> 0" "stat_of m t = Some PREEMPTED \<or> covers m t b l"
  shows "stat_of m' t = Some PREEMPTED \<or> covers m' t b l"
proof (cases "stat_of m' t = Some PREEMPTED")
  case False
  note th = lock_handler.axioms(1) [OF assms(1)]
  have "stat_of m t \<noteq> Some PREEMPTED"
    using table_handler.preempted_stays [OF th assms(2,5)] False by blast
  with assms(7) have "covers m t b l" by simp
  then show ?thesis
    using lock_handler.keeps_locks [OF assms(1-6) False, of b] by (auto simp: covers_def)
qed simp

lemma lock_request_agree:
  assumes lk: "lock_handler h st shared" "h clk rq (sv s) = Ret (m', r)"
    and req: "mfind (transactions (sv s)) who = Some (rq_tid rq)"
      "rq_request rq \<in> {ALLOCATE, READ, WRITE, RELEASE}" "shared \<longleftrightarrow> rq_request rq = READ"
      "st \<noteq> PREEMPTED"
    and np: "\<not> preempted (rq_tid rq) (sv s)" and inv: "mon_inv (sv s)" and ag: "agree s"
  shows "agree (answer s who rq m' r)"
proof (rule agreeI)
  fix who' b l
  assume h': "held (answer s who rq m' r) who' b = Some l"
  note th = lock_handler.axioms(1) [OF lk(1)]
  have tr: "transactions m' = transactions (sv s)"
    using table_handler.frame [OF th lk(2)] by simp
  have tid0: "rq_tid rq \<noteq> 0" and kn: "known (sv s) (rq_tid rq)"
    using inv req(1) by (auto simp: mon_inv_def tids_ok_def)
  show "\<exists>t. mfind (transactions (sv (answer s who rq m' r))) who' = Some t \<and>
      (stat_of (sv (answer s who rq m' r)) t = Some PREEMPTED \<or>
       covers (sv (answer s who rq m' r)) t b l)"
  proof (cases "who' = who")
    case other: False
    then have "held s who' b = Some l" using h' by (auto simp: answer_def split: if_splits)
    with ag obtain t where t: "mfind (transactions (sv s)) who' = Some t"
        "stat_of (sv s) t = Some PREEMPTED \<or> covers (sv s) t b l"
      by (rule agreeD)
    have "t \<noteq> rq_tid rq" "t \<noteq> 0"
      using inv t(1) req(1) other unfolding mon_inv_def tids_ok_def by auto
    then show ?thesis using covers_kept [OF lk _ tid0 _ _ t(2)] inv t(1)
      by (simp add: answer_def tr mon_inv_def)
  next
    case me: True
    have old: "covers (sv s) (rq_tid rq) b l" if "held s who b = Some l"
      using agreeD [OF ag that] req(1) np by (metis option.inject preempted_stat_of)
    show ?thesis
    proof (cases "r = swapped_reply rq OK")
      case False
      then have "m' = sv s" "rq_reply r \<noteq> OK"
        using table_handler.answer [OF th lk(2)] by auto
      then show ?thesis using h' me old req(1) by (simp add: answer_def)
    next
      case ok: True
      have g: "if shared then rq_tid rq \<in> set (readers (holders m' (rq_block rq)))
               else writer (holders m' (rq_block rq)) = rq_tid rq"
        using table_handler.granted [OF th] lk(2) ok by blast
      have "covers m' (rq_tid rq) b l"
      proof (cases "b = rq_block rq")
        case True
        then show ?thesis using h' me ok g req(2,3)
          by (auto simp: answer_def covers_def)
      next
        case False
        then have "held s who b = Some l" using h' me ok req(2) by (auto simp: answer_def)
        then show ?thesis
          using old False table_handler.other_block [OF th lk(2)] covers_holders_cong by blast
      qed
      then show ?thesis using me req(1) by (simp add: answer_def tr)
    qed
  qed
qed

lemma process_agree:
  assumes bn: "benign ef" and pr: "process_clientrq ef clk rq who (sv s) = Ret (m', r)"
    and lib: "library_request (sv s) rq who" and inv: "mon_inv (sv s)" and ag: "agree s"
  shows "agree (answer s who rq m' r)"
  using pr
proof (cases rule: process_cases)
  case die
  then show ?thesis using ag by (simp add: answer_def agree_def)
next
  case (lock h st shared)
  then show ?thesis using lock_request_agree [OF lock(2) [OF bn] lock(5)] lib inv ag
    by (auto simp: library_request_def)
next
  case start
  then have m': "m' = fst (begin_rq clk rq who (sv s))" by (metis fst_conv)
  have new: "\<not> known (sv s) (next_tid (sv s))" "mfind (transactions (sv s)) who = None"
    using inv lib start by (auto simp: mon_inv_def tids_ok_def library_request_def)
  show ?thesis
  proof (rule agreeI)
    fix who' b l
    assume h': "held (answer s who rq m' r) who' b = Some l"
    have rr: "rq_reply r = OK" using start by (simp add: begin_rq_def Let_def)
    then have "held s who' b = Some l" "who' \<noteq> who"
      using h' start by (auto simp: answer_def split: if_splits)
    from agreeD [OF ag this(1)] obtain t where t: "mfind (transactions (sv s)) who' = Some t"
        "stat_of (sv s) t = Some PREEMPTED \<or> covers (sv s) t b l"
      by blast
    have "stat_of m' t = stat_of (sv s) t"
      using inv t(1) new(1) unfolding m' by (auto simp: begin_rq_def Let_def stat_of_def mon_inv_def tids_ok_def)
    then show "\<exists>t. mfind (transactions (sv (answer s who rq m' r))) who' = Some t \<and>
        (stat_of (sv (answer s who rq m' r)) t = Some PREEMPTED \<or>
         covers (sv (answer s who rq m' r)) t b l)"
      using t \<open>who' \<noteq> who\<close> by (auto simp: answer_def m' covers_def)
  qed
next
  case (mark st)
  have rg: "record_grant (rq_request rq) (rq_block rq) h = h" for h
    using mark(1) by (auto)
  have me: "mfind (transactions (sv s)) who = Some (rq_tid rq)"
    using lib mark(1) by (auto simp: library_request_def)
  show ?thesis
  proof (rule agreeI)
    fix who' b l
    assume "held (answer s who rq m' r) who' b = Some l"
    then have "held s who' b = Some l" by (auto simp: answer_def rg split: if_splits)
    from agreeD [OF ag this] obtain t where t: "mfind (transactions (sv s)) who' = Some t"
        "stat_of (sv s) t = Some PREEMPTED \<or> covers (sv s) t b l"
      by blast
    have "t = rq_tid rq \<Longrightarrow> covers (sv s) t b l"
      using t(2) mark(2) by (auto simp: preempted_stat_of)
    then have "stat_of m' t = Some PREEMPTED \<or> covers m' t b l"
      using t(2) mark(3) by (cases "t = rq_tid rq") (auto simp: covers_def)
    moreover have "transactions m' = transactions (sv s)" using mark(3) by auto
    ultimately have eff: "transactions m' = transactions (sv s) \<and>
        (stat_of m' t = Some PREEMPTED \<or> covers m' t b l)" by simp
    show "\<exists>t. mfind (transactions (sv (answer s who rq m' r))) who' = Some t \<and>
        (stat_of (sv (answer s who rq m' r)) t = Some PREEMPTED \<or>
         covers (sv (answer s who rq m' r)) t b l)"
      using t(1) eff by (auto simp: answer_def)
  qed
qed

lemma drop_agree:
  assumes "mon_inv (sv s)" "agree s" "mfind (transactions (sv s)) who = Some t"
  shows "agree \<lparr>sv = drop_client who t (sv s), held = (held s)(who := (\<lambda>_. None))\<rparr>"
proof (rule agreeI, simp split: if_splits)
  fix who' b l
  assume h': "who' \<noteq> who" "held s who' b = Some l"
  from agreeD [OF assms(2) h'(2)] obtain t' where t':
      "mfind (transactions (sv s)) who' = Some t'"
      "stat_of (sv s) t' = Some PREEMPTED \<or> covers (sv s) t' b l"
    by blast
  have k: "known (sv s) t" "t \<noteq> 0" and ne: "t' \<noteq> t" "t' \<noteq> 0"
    using assms(1,3) t'(1) h'(1) by (auto simp: mon_inv_def tids_ok_def)
  have "covers (sv s) t' b l \<Longrightarrow> covers (drop_client who t (sv s)) t' b l"
    using ne by (auto simp: covers_def holders_flush_if [OF k] flush_holder_def split: if_splits)
  then show "\<exists>t'. mfind (transactions (sv s)) who' = Some t' \<and>
      (stat_of (flush_transaction t (sv s)) t' = Some PREEMPTED \<or>
       covers (drop_client who t (sv s)) t' b l)"
    using t' ne by (auto simp: stat_of_flush [OF k(1)])
qed

lemma sess_step_agree:
  "benign ef \<Longrightarrow> sess_step ef s s' \<Longrightarrow> mon_inv (sv s) \<Longrightarrow> agree s \<Longrightarrow> agree s'"
  by (erule sess_stepE) (auto intro: process_agree drop_agree)

lemma reachable_agree:
  assumes "benign ef" "reachable ef s"
  shows "agree s"
  using assms(2)
proof (induction rule: reachable.induct)
  case init
  show ?case by (simp add: agree_def init_session_def)
next
  case (step s s')
  then show ?case using sess_step_agree [OF assms(1)] reachable_inv by blast
qed

section \<open>Isolation\<close>

lemma isolation:
  assumes "benign ef" "reachable ef s" "c \<noteq> c'"
    and "mfind (transactions (sv s)) c = Some t" "mfind (transactions (sv s)) c' = Some t'"
    and "stat_of (sv s) t \<noteq> Some PREEMPTED" "stat_of (sv s) t' \<noteq> Some PREEMPTED"
    and "held s c b = Some l" "held s c' b = Some l'"
  shows "l = R_LOCK \<and> l' = R_LOCK"
proof -
  have inv: "mon_inv (sv s)" using assms(2) by (rule reachable_inv)
  note ag = reachable_agree [OF assms(1,2)]
  have "covers (sv s) t b l"
    using agreeD [OF ag assms(8)] assms(4,6) by (metis option.inject)
  moreover have "covers (sv s) t' b l'"
    using agreeD [OF ag assms(9)] assms(5,7) by (metis option.inject)
  moreover have "t \<noteq> t'" "t \<noteq> 0" "t' \<noteq> 0"
    using inv assms(3-5) by (auto simp: mon_inv_def tids_ok_def)
  moreover have "holder_ok (holders (sv s) b)" using inv by (simp add: mon_inv_def lock_inv_def)
  ultimately show ?thesis by (auto simp: covers_def holder_ok_def split: if_splits)
qed

end
