(* ===== verification/Policy.thy ===== *)
theory Policy
  imports Sessions
begin

text \<open>
  The conflict policy of the monitor: who may refuse whom, who is preempted by a grant, what the
  statuses of a transaction can do, and what a disconnect leaves behind.
\<close>

section \<open>Refusals\<close>

text \<open>
  A holder \<open>h\<close> of block \<open>b\<close> that justifies refusing \<open>t\<close> at time \<open>now\<close>: it is committing, or it is
  not younger than \<open>t\<close> and still inside its time slice.
\<close>

definition justifies :: "monitor \<Rightarrow> time_t \<Rightarrow> trid_t \<Rightarrow> block_no \<Rightarrow> trid_t \<Rightarrow> bool" where
  "justifies m now t b h \<longleftrightarrow> holds m b h \<and> known m h \<and>
     (stat_of m h = Some COMMITTING \<and> writer (holders m b) = h \<or>
      h \<le> t \<and> \<not> expired m h now)"

lemma can_write_refused:
  assumes "can_write clk t b m = Ret (False, m1)"
  shows "\<exists>i h. justifies m (clk i) t b h"
  using assms
proof (cases rule: can_write_cases)
  case (refused_readers i)
  let ?h = "readers (holders m b) ! i"
  from refused_readers(4,5) have "justifies m (clk i) t b ?h"
    by (auto simp: justifies_def holds_def protected_reader_def known_def expired_def OLDER_def
        less_imp_le split: option.splits)
  then show ?thesis by blast
next
  case (refused q)
  then have "justifies m (clk 0) t b (writer (holders m b))"
    by (auto simp: justifies_def holds_def known_def expired_def stat_of_def)
  then show ?thesis by blast
qed simp_all

lemma can_read_refused:
  assumes "can_read clk t b m = Ret (False, m1)"
  shows "\<exists>i h. justifies m (clk i) t b h"
  using assms
proof (cases rule: can_read_cases)
  case (refused q)
  then have "justifies m (clk 0) t b (writer (holders m b))"
    by (auto simp: justifies_def holds_def known_def expired_def stat_of_def)
  then show ?thesis by blast
qed simp_all

lemma claim_refused:
  assumes "claim_block s clk rq m = Ret (m', swapped_reply rq NOT_OK)"
  shows "\<exists>i h. justifies m (clk i) (rq_tid rq) (rq_block rq) h"
  using assms by (cases rule: claim_cases) (auto dest: can_write_refused)

lemma lock_refused:
  assumes "process_clientrq ef clk rq who m = Ret (m', r)" "rq_reply r = NOT_OK"
    and "rq_request rq \<in> {ALLOCATE, READ, WRITE, RELEASE}"
  shows "\<exists>i h. justifies m (clk i) (rq_tid rq) (rq_block rq) h"
proof -
  have np: "\<not> preempted (rq_tid rq) m"
    using assms by (auto simp: process_clientrq_def)
  then have d: "dispatch_rq ef clk rq who m = Ret (m', r)"
    using assms(1) by (simp add: process_clientrq_def)
  consider (claim) s where "claim_block s clk rq m = Ret (m', r)"
    | (read) "read_rq clk rq m = Ret (m', r)"
    | (wr) "write_rq ef clk rq m = Ret (m', r)"
    using d assms(3) by (auto simp: dispatch_rq_def allocate_claim release_claim)
  then show ?thesis
  proof cases
    case (claim s)
    then show ?thesis using claim.answer assms(2) claim_refused by (metis swapped_reply_reply reply_t.distinct(1))
  next
    case read
    then show ?thesis
      using assms(2) by (cases rule: read_cases) (auto dest: can_read_refused)
  next
    case wr
    then show ?thesis
    proof (cases rule: write_cases)
      case upgrade
      then show ?thesis using assms(2) by simp
    next
      case claim
      then show ?thesis
        using claim.answer assms(2) claim_refused by (metis swapped_reply_reply reply_t.distinct(1))
    qed
  qed
qed

text \<open>
  \<open>t\<close> waits for \<open>h\<close>: \<open>h\<close> is one of the holders that justify refusing \<open>t\<close> a block. Among
  transactions that are not committing the waiting follows descending transaction numbers.
\<close>

definition waits_for :: "monitor \<Rightarrow> time_t \<Rightarrow> (trid_t \<times> trid_t) set" where
  "waits_for m now = {(t, h). h \<noteq> t \<and> stat_of m h \<noteq> Some COMMITTING \<and> (\<exists>b. justifies m now t b h)}"

lemma waits_for_older: "(t, h) \<in> waits_for m now \<Longrightarrow> h < t"
  by (auto simp: waits_for_def justifies_def)

lemma waits_for_trancl: "(t, h) \<in> (waits_for m now)\<^sup>+ \<Longrightarrow> h < t"
  by (induction rule: trancl.induct) (auto dest: waits_for_older)

lemma waits_for_acyclic: "acyclic (waits_for m now)"
  using waits_for_trancl by (fastforce simp: acyclic_def)

section \<open>Grants\<close>

text \<open>
  The same relation in terms of the code: \<open>h\<close> alone would make \<open>can_read\<close> or \<open>can_write\<close> refuse \<open>t\<close>.
\<close>

definition stands_in_way :: "monitor \<Rightarrow> time_t \<Rightarrow> trid_t \<Rightarrow> block_no \<Rightarrow> trid_t \<Rightarrow> bool" where
  "stands_in_way m now t b h \<longleftrightarrow>
     h \<noteq> 0 \<and> writer (holders m b) = h \<and> contest_writer (\<lambda>_. now) t b h m = Ret (False, m) \<or>
     h \<in> set (readers (holders m b)) \<and> reader_blocks (\<lambda>_. now) t (status m) [h] = Ret True"

lemma stands_justifies: "stands_in_way m now t b h \<Longrightarrow> justifies m now t b h"
  unfolding stands_in_way_def
proof (elim disjE conjE)
  assume "h \<noteq> 0" "writer (holders m b) = h" "contest_writer (\<lambda>_. now) t b h m = Ret (False, m)"
  then show ?thesis
    by (auto simp: justifies_def holds_def known_def expired_def stat_of_def contest_writer_def YOUNGER_def
        split: option.splits if_splits)
next
  assume "h \<in> set (readers (holders m b))" "reader_blocks (\<lambda>_. now) t (status m) [h] = Ret True"
  then show ?thesis
    by (auto simp: justifies_def holds_def known_def expired_def OLDER_def split: option.splits if_splits)
qed

lemma stands_acyclic:
  "acyclic {(t, h). h \<noteq> t \<and> stat_of m h \<noteq> Some COMMITTING \<and> (\<exists>b. stands_in_way m now t b h)}"
  by (rule acyclic_subset [OF waits_for_acyclic [of m now]]) (auto simp: waits_for_def dest: stands_justifies)

lemma claim_grant:
  assumes "claim_block s clk rq m = Ret (m', swapped_reply rq OK)" "lock_inv m" "rq_tid rq \<noteq> 0"
  shows "readers (holders m' (rq_block rq)) = []" "writer (holders m' (rq_block rq)) = rq_tid rq"
    "holds m (rq_block rq) x \<Longrightarrow> x \<noteq> rq_tid rq \<Longrightarrow> stat_of m' x = Some PREEMPTED"
proof -
  have ok: "holder_ok (holders m (rq_block rq))" using assms(2) by (simp add: lock_inv_def)
  show w: "writer (holders m' (rq_block rq)) = rq_tid rq"
    using claim.granted [OF assms(1)] by simp
  show r: "readers (holders m' (rq_block rq)) = []"
    using claim.exclusive [OF assms(1) ok] w assms(3) by (simp add: holder_ok_def)
  show "stat_of m' x = Some PREEMPTED"
    if "holds m (rq_block rq) x" "x \<noteq> rq_tid rq"
    using claim.evicted [OF assms(1-3) that(2,1)] that r w by (auto simp: holds_def)
qed

section \<open>Committing transactions\<close>

text \<open>A committing transaction that reads no block keeps its status, whatever others request.\<close>

lemma contest_committing:
  assumes "contest_writer clk t b w m = Ret (g, m1)" "stat_of m x = Some COMMITTING"
  shows "stat_of m1 x = Some COMMITTING"
  using assms(1)
proof (cases rule: contest_writer_cases)
  case (out q)
  then have "x \<noteq> w" using assms(2) by (auto simp: stat_of_def)
  then show ?thesis using out assms(2) by simp
qed (use assms in simp)

lemma can_write_committing:
  assumes "can_write clk t b m = Ret (g, m1)" "stat_of m x = Some COMMITTING"
    and "x \<notin> set (readers (holders m b))"
  shows "stat_of m1 x = Some COMMITTING"
  using assms(1)
proof (cases rule: can_write_cases)
  case (writer_out q)
  then have "x \<noteq> writer (holders m b)" using assms(2) by (auto simp: stat_of_def)
  then show ?thesis using writer_out assms(2) by simp
qed (use assms in simp_all)

lemma can_read_committing:
  assumes "can_read clk t b m = Ret (g, m1)" "stat_of m x = Some COMMITTING"
  shows "stat_of m1 x = Some COMMITTING"
  using assms(1)
proof (cases rule: can_read_cases)
  case (writer_out q)
  then have "x \<noteq> writer (holders m b)" using assms(2) by (auto simp: stat_of_def)
  then show ?thesis using writer_out assms(2) by simp
qed (use assms in simp_all)

lemma claim_committing:
  assumes "claim_block s clk rq m = Ret (m', r)" "stat_of m x = Some COMMITTING"
    and "x \<noteq> rq_tid rq" "x \<notin> set (readers (holders m (rq_block rq)))"
  shows "stat_of m' x = Some COMMITTING"
  using assms(1)
proof (cases rule: claim_cases)
  case (granted m1)
  then show ?thesis using can_write_committing [OF granted(2) assms(2,4)] assms(3) by simp
qed (use assms in simp)

lemma process_committing:
  assumes "process_clientrq ef clk rq who m = Ret (m', r)" "mon_inv m"
    and "stat_of m x = Some COMMITTING" "x \<noteq> rq_tid rq \<or> rq_request rq = BEGIN"
    and "\<forall>b. x \<notin> set (readers (holders m b))"
  shows "stat_of m' x = Some COMMITTING"
proof (cases "rq_request rq = BEGIN")
  case True
  then have "m' = fst (begin_rq clk rq who m)"
    using assms(1) by (simp add: process_clientrq_def dispatch_rq_def)
  moreover have "x \<noteq> next_tid m"
    using assms(2,3) by (auto simp: mon_inv_def tids_ok_def known_stat_of)
  ultimately show ?thesis using assms(3) by (simp add: begin_rq_def Let_def stat_of_def)
next
  case nb: False
  with assms(4) have x: "x \<noteq> rq_tid rq" by simp
  have own: "dispatch_rq ef clk rq who m = Ret (m', r) \<Longrightarrow> ?thesis"
  proof (cases "rq_request rq")
    case READ
    moreover assume "dispatch_rq ef clk rq who m = Ret (m', r)"
    ultimately have "read_rq clk rq m = Ret (m', r)" by (simp add: dispatch_rq_def)
    then show ?thesis
    proof (cases rule: read_cases)
      case (granted m1)
      then show ?thesis using can_read_committing [OF granted(2) assms(3)] x by simp
    qed (use assms in simp)
  next
    case WRITE
    moreover assume "dispatch_rq ef clk rq who m = Ret (m', r)"
    ultimately have "write_rq ef clk rq m = Ret (m', r)" by (simp add: dispatch_rq_def)
    then show ?thesis
      by (cases rule: write_cases) (use assms(3,5) x claim_committing in auto)
  qed (use nb assms(3,5) x claim_committing mark_cases [of rq m m' r] in
    \<open>auto simp: dispatch_rq_def allocate_claim release_claim\<close>)
  from assms(1) show ?thesis
    by (cases rule: process_cases) (use own nb assms(1,3) in \<open>auto simp: process_clientrq_def\<close>)
qed

section \<open>PREEMPTED is final\<close>

lemma preempted_answer:
  assumes "preempted (rq_tid rq) m" "rq_request rq \<noteq> BEGIN"
  shows "process_clientrq ef clk rq who m = Ret (m, swapped_reply rq DIE)"
  using assms by (simp add: process_clientrq_def)

lemma preempted_forever:
  assumes "process_clientrq ef clk rq who m = Ret (m', r)" "mon_inv m"
    and "stat_of m t = Some PREEMPTED"
  shows "stat_of m' t = Some PREEMPTED"
  using assms(1)
proof (cases rule: process_cases)
  case start
  then have "m' = fst (begin_rq clk rq who m)" by (metis fst_conv)
  moreover have "t \<noteq> next_tid m"
    using assms(2,3) by (auto simp: mon_inv_def tids_ok_def known_stat_of)
  ultimately show ?thesis using assms(3) by (simp add: begin_rq_def Let_def stat_of_def)
next
  case (lock h st shared)
  then have "t \<noteq> rq_tid rq" using assms(3) by (auto simp: preempted_stat_of)
  then show ?thesis using table_handler.preempted_stays [OF lock(1,5)] assms(3) by blast
next
  case (mark st)
  then have "t \<noteq> rq_tid rq" using assms(3) by (auto simp: preempted_stat_of)
  then show ?thesis using mark(3) assms(3) by auto
qed (use assms in simp)

lemma process_transactions:
  assumes "process_clientrq ef clk rq who m = Ret (m', r)" "rq_request rq \<noteq> BEGIN"
  shows "transactions m' = transactions m"
  using assms(1)
proof (cases rule: process_cases)
  case (lock h st shared)
  then show ?thesis using table_handler.frame by blast
qed (use assms(2) in auto)

section \<open>Who sets which status\<close>

lemma status_origin:
  assumes "process_clientrq ef clk rq who m = Ret (m', r)" "stat_of m' t \<noteq> stat_of m t"
    and "stat_of m' t \<noteq> Some PREEMPTED" "mon_inv m"
  shows "t = (if rq_request rq = BEGIN then next_tid m else rq_tid rq) \<and>
    stat_of m' t = Some (case rq_request rq of
        BEGIN \<Rightarrow> BEGUN | ALLOCATE \<Rightarrow> ALLOCATED | READ \<Rightarrow> READING | WRITE \<Rightarrow> WRITING
      | RELEASE \<Rightarrow> RELEASING | COMMIT \<Rightarrow> COMMITTING | ABORT \<Rightarrow> ABORTING
      | RESTART \<Rightarrow> RESTARTING | END \<Rightarrow> ENDED) \<and>
    (rq_request rq = END \<longrightarrow> stat_of m t = Some COMMITTING) \<and> rq_reply r = OK"
proof (cases "rq_request rq = BEGIN")
  case True
  then have "(m', r) = begin_rq clk rq who m"
    using assms(1) by (simp add: process_clientrq_def dispatch_rq_def)
  then show ?thesis using assms(2) True
    by (auto simp: begin_rq_def Let_def stat_of_def split: if_splits)
next
  case nb: False
  have np: "\<not> preempted (rq_tid rq) m"
    using assms(1,2) nb by (auto simp: process_clientrq_def split: if_splits)
  then have d: "dispatch_rq ef clk rq who m = Ret (m', r)"
    using assms(1) by (simp add: process_clientrq_def)
  have lockp: "t = rq_tid rq \<and> stat_of m' t = Some st \<and> rq_reply r = OK"
    if th: "table_handler h st shared" and h: "h clk rq m = Ret (m', r)" for h st shared
  proof -
    have t: "t = rq_tid rq" using table_handler.other_stat [OF th h] assms(2,3) by blast
    have r: "r = swapped_reply rq OK" using table_handler.answer [OF th h] assms(2) by auto
    have "known m t"
      using table_handler.frame [OF th h] assms(2) by (metis known_stat_of)
    then show ?thesis using table_handler.granted [OF th] h t r by auto
  qed
  show ?thesis
  proof (cases "rq_request rq")
    case BEGIN
    with nb show ?thesis by simp
  next
    case ALLOCATE
    then show ?thesis using d lockp [OF al.table_handler_axioms] by (auto simp: dispatch_rq_def)
  next
    case READ
    then show ?thesis using d lockp [OF rd.table_handler_axioms] by (auto simp: dispatch_rq_def)
  next
    case WRITE
    then show ?thesis using d lockp [OF wt.table_handler_axioms] by (auto simp: dispatch_rq_def)
  next
    case RELEASE
    then show ?thesis using d lockp [OF rl.table_handler_axioms] by (auto simp: dispatch_rq_def)
  next
    case COMMIT
    then have "commit_rq rq m = (m', r)" using d by (simp add: dispatch_rq_def)
    then show ?thesis using mark_cases(2) assms(2) COMMIT by (fastforce split: if_splits)
  next
    case ABORT
    then have "abort_rq rq m = (m', r)" using d by (simp add: dispatch_rq_def)
    then show ?thesis using mark_cases(1) assms(2) ABORT by (fastforce split: if_splits)
  next
    case RESTART
    then have "restart_rq rq m = (m', r)" using d by (simp add: dispatch_rq_def)
    then show ?thesis using mark_cases(3) assms(2) RESTART by (fastforce split: if_splits)
  next
    case END
    then have "end_rq rq m = (m', r)" using d by (simp add: dispatch_rq_def)
    then show ?thesis using mark_cases(4) assms(2) END by (fastforce split: if_splits)
  qed
qed

section \<open>Disconnecting\<close>

lemma drop_client_clean:
  assumes "mon_inv m" "mfind (transactions m) who = Some t"
  shows "\<not> known (drop_client who t m) t" "\<not> holds (drop_client who t m) b t"
    "mfind (transactions (drop_client who t m)) c \<noteq> Some t"
    "x \<noteq> t \<Longrightarrow> holds (drop_client who t m) b x \<longleftrightarrow> holds m b x"
    "x \<noteq> t \<Longrightarrow> stat_of (drop_client who t m) x = stat_of m x"
proof -
  have k: "known m t" "t \<noteq> 0" using assms by (auto simp: mon_inv_def tids_ok_def)
  have ok: "holder_ok (holders m b)" using assms(1) by (simp add: mon_inv_def lock_inv_def)
  have h: "holds (drop_client who t m) b = holds (flush_transaction t m) b"
    by (simp add: holds_def fun_eq_iff)
  show "\<not> known (drop_client who t m) t" using k(1) by (simp add: known_flush)
  show "\<not> holds (drop_client who t m) b t" by (simp add: h holds_flush [OF k ok])
  show "mfind (transactions (drop_client who t m)) c \<noteq> Some t"
    using assms unfolding mon_inv_def tids_ok_def by auto
  show "x \<noteq> t \<Longrightarrow> holds (drop_client who t m) b x \<longleftrightarrow> holds m b x"
    by (simp add: h holds_flush [OF k ok])
  show "x \<noteq> t \<Longrightarrow> stat_of (drop_client who t m) x = stat_of m x"
    by (simp add: stat_of_flush [OF k(1)])
qed

text \<open>Outside the commit phase a disconnect never touches the files.\<close>

lemma disconnect_quiet:
  assumes "mon_inv (mon s)" "mfind (transactions (mon s)) who = Some t"
    and "stat_of (mon s) t \<noteq> Some COMMITTING"
  shows "client_disconnect bad who s = Done () (s\<lparr>mon := drop_client who t (mon s)\<rparr>)"
proof -
  have "known (mon s) t" using assms(1,2) by (auto simp: mon_inv_def tids_ok_def)
  then obtain q where "mfind (status (mon s)) t = Some q" by (auto simp: known_def)
  with assms(2,3) show ?thesis
    by (simp add: client_disconnect_def stat_of_def pseq_def pbind_def)
qed

section \<open>The monitor never stops itself\<close>

lemma process_total:
  assumes "mon_inv m"
  shows "returns (process_clientrq ef clk rq who m)"
proof -
  have "lock_inv m" using assms by (simp add: mon_inv_def)
  then have "returns (allocate_rq clk rq m)" "returns (read_rq clk rq m)"
    "returns (write_rq ef clk rq m)" "returns (release_rq clk rq m)"
    by (rule al.runs rd.runs wt.runs rl.runs)+
  then show ?thesis by (cases "rq_request rq") (simp_all add: process_clientrq_def dispatch_rq_def)
qed

end
