(* ===== verification/LogTail.thy ===== *)
theory LogTail
  imports Commit
begin

text \<open>
  Which records of an overwritten log count. A log is closed when every transaction in it has an END or
  an ABORT behind its other records, that is, when \<open>collect\<close> finds nothing to undo.
\<close>

lemma open_tail_Nil_iff:
  "open_tail t L = [] \<longleftrightarrow> own_recs t L = [] \<or> closes (last (own_recs t L))"
  by (auto simp: open_tail_def own_recs_def takeWhile_eq_Nil_iff hd_rev)

lemma own_recs_drop: "own_recs t L = own_recs t (take n L) @ own_recs t (drop n L)"
  by (simp flip: own_recs_simps(3))

lemma open_tail_drop:
  assumes "open_tail t L = []"
  shows "open_tail t (drop n L) = []"
  using assms own_recs_drop [of t L n] by (auto simp: open_tail_Nil_iff last_append split: if_splits)

lemma open_tail_skip: "own_recs t V = [] \<Longrightarrow> open_tail t (V @ D) = open_tail t D"
  by (simp add: open_tail_def own_recs_def)

lemma open_tail_all:
  "\<forall>r \<in> set V. lr_tid r = t \<and> \<not> closes r \<Longrightarrow> open_tail t V = V"
  by (simp add: open_tail_def takeWhile_eq_all_conv [THEN iffD2])

lemma own_recs_none: "own_recs t V = [] \<longleftrightarrow> (\<forall>r \<in> set V. lr_tid r \<noteq> t)"
  by (auto simp: own_recs_def filter_empty_conv)

text \<open>A closed log, overwritten from its start by the records of one new transaction.\<close>

lemma open_tail_behind:
  assumes "collect L = []" "\<forall>r \<in> set V. lr_tid r = t" "\<forall>r \<in> set L. lr_tid r \<noteq> t"
  shows "open_tail t' (log_behind V L) = (if t' = t then open_tail t V else [])"
proof (cases "t' = t")
  case True
  have "\<forall>r \<in> set (drop (length V) L). lr_tid r \<noteq> t" using assms(3) in_set_dropD by fast
  then show ?thesis using True open_tail_append_other by (simp add: log_behind_def)
next
  case False
  then have "own_recs t' V = []" using assms(2) by (auto simp: own_recs_none)
  then show ?thesis using False open_tail_drop assms(1)
    by (simp add: log_behind_def open_tail_skip collect_empty_iff)
qed

lemma single_entry:
  assumes "ordered m" "\<forall>k. mfind m k = (if k = t then Some V else None)"
  shows "m = [(t, V)]"
proof -
  have d: "distinct (map fst m)" using assms(1) by (rule ordered_distinct)
  have s: "p = (t, V)" if "p \<in> set m" for p
    using ordered_mfind [OF assms(1), of "fst p" "snd p"] that assms(2) by (auto split: if_splits)
  have "(t, V) \<in> set m" using assms(2) by (auto intro: mfind_in_set)
  then obtain p m' where m: "m = p # m'" by (cases m) auto
  then have "p = (t, V)" using s by simp
  moreover have "m' = []"
  proof (rule ccontr)
    assume "m' \<noteq> []"
    then obtain p' m'' where "m' = p' # m''" by (cases m') auto
    then show False using m d s [of p] s [of p'] by simp
  qed
  ultimately show ?thesis using m by simp
qed

lemma collect_behind:
  assumes "collect L = []" "\<forall>r \<in> set V. lr_tid r = t" "\<forall>r \<in> set L. lr_tid r \<noteq> t"
  shows "collect (log_behind V L) = (if open_tail t V = [] then [] else [(t, open_tail t V)])"
proof (cases "open_tail t V = []")
  case True
  then show ?thesis using open_tail_behind [OF assms] by (simp add: collect_empty_iff)
next
  case False
  then show ?thesis using open_tail_behind [OF assms]
    by (simp add: single_entry mfind_collect)
qed

lemma committed_closed:
  assumes c: "committed s0 s" and fr: "\<forall>r \<in> set (log_f (files s0)). lr_tid r \<noteq> tid s0" and cl: "collect (log_f (files s0)) = []"
  shows "collect (log_f (files s)) = []"
proof -
  let ?t = "tid s0"
  obtain W where w: "log_f (files s) = log_behind (begin_record ?t # W @ [end_record ?t]) (log_f (files s0))"
    "\<forall>r \<in> set W. lr_tid r = ?t"
    using c by (auto simp: committed_def)
  let ?V = "begin_record ?t # W @ [end_record ?t]"
  have "open_tail ?t ?V = []"
    using open_tail_closed [of "end_record ?t" ?t "[]" "begin_record ?t # W"]
    by (simp add: closes_def end_record_def)
  then show ?thesis using collect_behind [OF cl, of ?V ?t] w fr
    by (simp add: begin_record_def end_record_def)
qed

text \<open>The log of a stopped commit: its own records alone are open, until the monitor writes ABORT.\<close>

lemma stopped_open:
  assumes m: "midway s0 W s" and fr: "\<forall>r \<in> set (log_f (files s0)). lr_tid r \<noteq> tid s0"
    and cl: "collect (log_f (files s0)) = []"
  shows "collect (log_f (files s)) = [(tid s0, begin_record (tid s0) # W)]"
proof -
  let ?V = "begin_record (tid s0) # W"
  have u: "undoable (files s0) W (files s)" and lg: "log_f (files s) = log_behind ?V (log_f (files s0))"
    using m by (auto simp: midway_def)
  have nc: "\<forall>r \<in> set ?V. lr_tid r = tid s0 \<and> \<not> closes r"
    using m undoable_actions [OF u, of _ "tid s0"] by (auto simp: midway_def begin_record_def closes_def)
  then show ?thesis using collect_behind [OF cl, of ?V "tid s0"] fr open_tail_all [OF nc] lg by simp
qed

lemma stopped_aborted:
  assumes st: "stopped s0 s" and fr: "\<forall>r \<in> set (log_f (files s0)). lr_tid r \<noteq> tid s0"
    and cl: "collect (log_f (files s0)) = []"
  shows "collect (log_f (files s) @ [abort_record (tid s0)]) = []"
proof -
  obtain W where "midway s0 W s" using st by (auto simp: stopped_def)
  then show ?thesis using stopped_open [OF _ fr cl] aborted_log_closed [of "log_f (files s)"] by simp
qed

end
