(* ===== verification/System.thy ===== *)
theory System
  imports Unwind Policy LogTail
begin

text \<open>
  The monitor of theory Monitor as the other side of a client's socket: requests go to
  \<open>process_clientrq\<close>, closing the connection makes the monitor run \<open>client_disconnect\<close>, whose rollback
  works on the files the client left. A monitor that ended leaves clients with an uninitialised
  reply; one that loops never answers again.
\<close>

datatype daemon = Up server | Down | Stuck

definition mon_ask ::
  "(blockholders \<Rightarrow> trid_t) \<Rightarrow> (nat \<Rightarrow> time_t) \<Rightarrow> fd \<Rightarrow> trq \<Rightarrow> disk \<Rightarrow> daemon \<Rightarrow> (trq \<times> disk \<times> daemon) outcome" where
  "mon_ask ef clk who rq d dm =
     (case dm of
        Up s \<Rightarrow> (case process_clientrq ef clk rq who (mon s) of
            Ret (m', r) \<Rightarrow> Ret (r, d, Up (s\<lparr>mon := m'\<rparr>))
          | Exited \<Rightarrow> Undef | Undef \<Rightarrow> Undef | Diverge \<Rightarrow> Diverge)
      | Down \<Rightarrow> Undef | Stuck \<Rightarrow> Diverge)"

definition on_disk :: "disk \<Rightarrow> server \<Rightarrow> server" where
  "on_disk d s = s\<lparr>lgr := (lgr s)\<lparr>dsk := d\<rparr>\<rparr>"

definition mon_bye :: "env \<Rightarrow> fd \<Rightarrow> disk \<Rightarrow> daemon \<Rightarrow> disk \<times> daemon" where
  "mon_bye bad who d dm =
     (case dm of
        Up s \<Rightarrow> (case client_disconnect bad who (on_disk d s) of
            Done _ s' \<Rightarrow> (dsk (lgr s'), Up s') | Throw _ s' \<Rightarrow> (dsk (lgr s'), Down)
          | Quit s' \<Rightarrow> (dsk (lgr s'), Down) | Wrong \<Rightarrow> (d, Down) | Loop \<Rightarrow> (d, Stuck))
      | _ \<Rightarrow> (d, dm))"

definition monitor_tpm ::
  "(blockholders \<Rightarrow> trid_t) \<Rightarrow> (nat \<Rightarrow> time_t) \<Rightarrow> env \<Rightarrow> fd \<Rightarrow> daemon tpm" where
  "monitor_tpm ef clk bad who = \<lparr>ask = mon_ask ef clk who, bye = mon_bye bad who\<rparr>"

interpretation mq: quiet_tpm "monitor_tpm ef clk bad who" for ef clk bad who
  by unfold_locales (auto simp: monitor_tpm_def mon_ask_def split: daemon.splits outcome.splits)

section \<open>Closing a connection\<close>

lemma bye_other:
  assumes "mon_inv (mon s)" "mfind (transactions (mon s)) who = Some t"
    and "stat_of (mon s) t \<noteq> Some COMMITTING"
  shows "mon_bye bad who d (Up s) = (d, Up ((on_disk d s)\<lparr>mon := drop_client who t (mon s)\<rparr>))"
  using disconnect_quiet [of "on_disk d s" who t bad] assms by (simp add: mon_bye_def on_disk_def)

lemma bye_committing:
  assumes "mfind (transactions (mon s)) who = Some t" "stat_of (mon s) t = Some COMMITTING"
  shows "mon_bye bad who d (Up s) =
    (case rollback bad t ((lgr s)\<lparr>dsk := d\<rparr>) of
       Done _ l \<Rightarrow> (dsk l, Up (s\<lparr>lgr := l, mon := drop_client who t (mon s)\<rparr>))
     | Throw _ l \<Rightarrow> (dsk l, Down) | Quit l \<Rightarrow> (dsk l, Down) | Wrong \<Rightarrow> (d, Down) | Loop \<Rightarrow> (d, Stuck))"
proof -
  obtain q where "mfind (status (mon s)) t = Some q" "stat q = COMMITTING"
    using assms(2) by (auto simp: stat_of_def)
  then show ?thesis using assms(1)
    by (auto simp: mon_bye_def client_disconnect_def on_disk_def pseq_def pbind_def run_logger_def
        split: run.split)
qed

section \<open>A client dies while it commits\<close>

text \<open>
  The state of the files and of the monitor after the process of a transaction is gone, at whatever
  point of \<open>commit\<close> it stopped. \<open>s0\<close> is the state in which \<open>commit\<close> was called.
\<close>

definition served :: "fd \<Rightarrow> daemon cstate \<Rightarrow> bool" where
  "served who s \<longleftrightarrow> (\<exists>sr. srv s = Up sr \<and> mon_inv (mon sr) \<and>
     mfind (transactions (mon sr)) who = Some (tid s))"

text \<open>No record of an earlier transaction in the log bears the number of this one.\<close>

definition fresh_tid :: "'m cstate \<Rightarrow> bool" where
  "fresh_tid s \<longleftrightarrow> (\<forall>r \<in> set (log_f (files s)). lr_tid r \<noteq> tid s)"

text \<open>
  The rest of the files: blocks without an entry, and a log that has grown by own records only. Once the
  transaction is over, its log is closed if the log was closed before.
\<close>

definition own_growth :: "'m cstate \<Rightarrow> disk \<Rightarrow> bool" where
  "own_growth s0 d \<longleftrightarrow> unheld_kept s0 d \<and>
     (\<forall>r \<in> set (log_f d). r \<in> set (log_f (files s0)) \<or> lr_tid r = tid s0)"

definition left_over :: "'m cstate \<Rightarrow> disk \<Rightarrow> bool" where
  "left_over s0 d \<longleftrightarrow> own_growth s0 d \<and>
     (fresh_tid s0 \<longrightarrow> collect (log_f (files s0)) = [] \<longrightarrow> collect (log_f d) = [])"

lemma left_over_srv [simp]: "left_over (s\<lparr>srv := m\<rparr>) = left_over s"
  by (simp add: left_over_def own_growth_def fresh_tid_def fun_eq_iff)

lemma commit_growth:
  assumes "commit_ends s0 s"
  shows "own_growth s0 (files s)"
proof -
  have b: "lr_tid (begin_record t) = t" "lr_tid (end_record t) = t" for t
    by (simp_all add: begin_record_def end_record_def)
  show ?thesis
    using assms midway_unheld unheld_kept_same_files [of "files s" "files s0" s0] unheld_kept_refl [of s0]
    by (auto simp: commit_ends_def own_growth_def untouched_def committed_def stopped_def midway_def log_behind_def b
        dest: in_set_dropD)
qed

lemma commit_left_over:
  assumes "untouched s0 s \<or> committed s0 s"
  shows "left_over s0 (files s)"
  using assms commit_growth [of s0 s] committed_closed [of s0 s]
  by (auto simp: left_over_def commit_ends_def fresh_tid_def untouched_def)

lemma bye_ends:
  assumes ce: "commit_ends s0 s" and fr: "fresh_tid s0"
    and up: "srv s = Up sr" "mon_inv (mon sr)" "mfind (transactions (mon sr)) who = Some (tid s0)"
    and st: "stopped s0 s \<Longrightarrow> \<not> untouched s0 s \<Longrightarrow> \<not> committed s0 s \<Longrightarrow>
      stat_of (mon sr) (tid s0) = Some COMMITTING"
    and bye: "mon_bye no_faults who (files s) (srv s) = (d', dm)"
  shows "((\<forall>b. store_view d' b = store_view (files s0) b) \<or> (\<forall>b. store_view d' b = view s0 b)) \<and> left_over s0 d'"
proof (cases "stat_of (mon sr) (tid s0) = Some COMMITTING")
  case False
  then have "d' = files s" using bye_other [OF up(2,3) False] bye up(1) by simp
  moreover have "untouched s0 s \<Longrightarrow> store_view (files s) b = store_view (files s0) b" for b
    by (rule same_files_store_view) (simp add: untouched_def)
  ultimately show ?thesis using ce st False commit_left_over [of s0 s] by (auto simp: commit_ends_def committed_def)
next
  case True
  note bc = bye_committing [OF up(3) True, of no_faults "files s"]
  have fr': "\<forall>r \<in> set (log_f (files s0)). lr_tid r \<noteq> tid s0" using fr by (simp add: fresh_tid_def)
  from ce consider (u) "untouched s0 s" | (s) "stopped s0 s" | (c) "committed s0 s"
    by (auto simp: commit_ends_def)
  then show ?thesis
  proof cases
    case u
    have log: "log_f (files s) = log_f (files s0)" using u by (simp add: untouched_def)
    have "rollback no_faults (tid s0) ((lgr sr)\<lparr>dsk := files s\<rparr>) \<in> {Loop, Wrong}"
      using rollback_untouched [OF u, of "(lgr sr)\<lparr>dsk := files s\<rparr>"] fr' log
        rollback_empty [of "(lgr sr)\<lparr>dsk := files s\<rparr>" "tid s0"]
      by (cases "log_f (files s0) = []") simp_all
    then have "d' = files s" using bc bye up(1) by auto
    then show ?thesis using u same_files_store_view [of "files s" "files s0"] commit_left_over [of s0 s]
      by (simp add: untouched_def)
  next
    case s
    then obtain l' where "rollback no_faults (tid s0) ((lgr sr)\<lparr>dsk := files s\<rparr>) = Done () l'"
        "\<forall>b. store_view (dsk l') b = store_view (files s0) b" "unheld_kept s0 (dsk l')"
        "log_f (dsk l') = log_f (files s) @ [abort_record (tid s0)]"
      using rollback_stopped [OF s fr', of "(lgr sr)\<lparr>dsk := files s\<rparr>"] by auto
    then show ?thesis using bc bye up(1) commit_growth [OF ce] stopped_aborted [OF s fr'] fr
      by (auto simp: left_over_def own_growth_def)
  next
    case c
    then have "rollback no_faults (tid s0) ((lgr sr)\<lparr>dsk := files s\<rparr>) = Done () ((lgr sr)\<lparr>dsk := files s\<rparr>)"
      using rollback_committed [OF c fr', of "(lgr sr)\<lparr>dsk := files s\<rparr>"] by simp
    then have "d' = files s" using bc bye up(1) by auto
    then show ?thesis using c commit_left_over [of s0 s] by (simp add: committed_def)
  qed
qed

text \<open>What the requests COMMIT and END do to the monitor.\<close>

lemma mark_request:
  assumes a: "mon_ask ef clk who rq d (Up sr) = Ret (r, d', dm)" and m: "mon_inv (mon sr)"
    and q: "rq_request rq = COMMIT \<or> rq_request rq = END"
  shows "\<exists>sr'. dm = Up sr' \<and> d' = d \<and> mon_inv (mon sr') \<and> lgr sr' = lgr sr \<and>
    transactions (mon sr') = transactions (mon sr) \<and>
    (rq_request rq = COMMIT \<longrightarrow> rq_reply r = OK \<longrightarrow> stat_of (mon sr') (rq_tid rq) = Some COMMITTING)"
proof -
  obtain m' where p: "process_clientrq ef clk rq who (mon sr) = Ret (m', r)"
    and dm: "dm = Up (sr\<lparr>mon := m'\<rparr>)" "d' = d"
    using a by (auto simp: mon_ask_def split: outcome.splits)
  from p have "mon_inv m' \<and> transactions m' = transactions (mon sr)"
    by (cases rule: process_cases) (use q m in \<open>auto simp: mon_inv_def\<close>)
  moreover have "stat_of m' (rq_tid rq) = Some COMMITTING" if "rq_request rq = COMMIT" "rq_reply r = OK"
    using p that by (auto simp: process_clientrq_def dispatch_rq_def commit_rq_def stat_of_def set_stat_def
        split: if_splits option.splits)
  ultimately show ?thesis using dm by auto
qed

text \<open>The commit phase does not talk to the monitor.\<close>

definition away :: "'m \<Rightarrow> trid_t \<Rightarrow> mem \<Rightarrow> (block_no, mblock) stdmap \<Rightarrow> 'm cstate \<Rightarrow> bool" where
  "away x t h m s \<longleftrightarrow> srv s = x \<and> tid s = t \<and> heap s = h \<and> bmap s = m"

lemma away_log: "obeys (away x t h m) (\<lambda>_. away x t h m) (tx_log bad a b oi ov)"
proof (rule obeysI)
  fix s
  assume "away x t h m s"
  then show "post True (\<lambda>_. away x t h m) (\<lambda>_. away x t h m) (tx_log bad a b oi ov s)"
    using tx_log_run [of bad a b oi ov s] by (auto simp: away_def)
qed

interpretation aw: commit_law bad "away x t h m" "\<lambda>_. away x t h m" for bad x t h m
proof (unfold_locales, rule away_log)
qed (rule obeysI, auto simp: away_def put_index_def put_store_def tx_deref_def tx_abort_def
    split: outcome.split)+

lemma commit_log_away:
  assumes "final (commit_log bad s) = Some s'"
  shows "srv s' = srv s \<and> tid s' = tid s \<and> heap s' = heap s \<and> bmap s' = bmap s"
proof -
  have "post True (\<lambda>_. away (srv s) (tid s) (heap s) (bmap s)) (\<lambda>_. away (srv s) (tid s) (heap s) (bmap s)) (commit_log bad s)"
    by (rule obeysD [OF aw.logging_phase]) (simp add: away_def)
  then show ?thesis using assms by (cases "commit_log bad s") (auto simp: away_def)
qed

text \<open>One request of the committing process.\<close>

lemma ask_served:
  assumes a: "ask_tpm (monitor_tpm ef clk bad who) q 0 s = r" and sv: "served who s"
    and q: "q = COMMIT \<or> q = END" and f: "final r = Some s'"
  shows "served who s' \<and> files s' = files s \<and> tid s' = tid s \<and>
    (\<forall>x. r = Done x s' \<longrightarrow> s' = s\<lparr>srv := srv s'\<rparr>) \<and>
    (\<forall>rp. q = COMMIT \<longrightarrow> r = Done (True, rp) s' \<longrightarrow>
       (\<exists>sr. srv s' = Up sr \<and> stat_of (mon sr) (tid s) = Some COMMITTING))"
proof -
  let ?rq = "\<lparr>rq_tid = tid s, rq_pid = pid s, rq_request = q, rq_reply = OK, rq_block = 0\<rparr>"
  obtain sr where sr: "srv s = Up sr" "mon_inv (mon sr)" "mfind (transactions (mon sr)) who = Some (tid s)"
    using sv by (auto simp: served_def)
  obtain rp d' dm where m: "mon_ask ef clk who ?rq (files s) (Up sr) = Ret (rp, d', dm)"
    using a f sr(1) by (auto simp: ask_tpm_def monitor_tpm_def mon_ask_def split: outcome.splits)
  obtain sr' where up: "dm = Up sr'" "d' = files s" "mon_inv (mon sr')"
    "transactions (mon sr') = transactions (mon sr)"
    "q = COMMIT \<longrightarrow> rq_reply rp = OK \<longrightarrow> stat_of (mon sr') (tid s) = Some COMMITTING"
    using mark_request [OF m sr(2)] q by auto
  show ?thesis using a f m sr up
    by (auto simp: ask_tpm_def monitor_tpm_def served_def tx_abort_def Let_def split: if_splits)
qed

text \<open>
  The files after the process of a transaction is gone, however its \<open>commit\<close> ended, once the monitor
  has handled the disconnect: the committed state or the state before.
\<close>

definition all_or_nothing :: "daemon cstate \<Rightarrow> fd \<Rightarrow> daemon cstate \<Rightarrow> bool" where
  "all_or_nothing s who s' \<longleftrightarrow>
     (let d' = fst (mon_bye no_faults who (files s') (srv s')) in
      ((\<forall>b. store_view d' b = store_view (files s) b) \<or> (\<forall>b. store_view d' b = view s b)) \<and> left_over s d')"

lemma ends_all_or_nothing:
  assumes ce: "commit_ends s1 s'" and s1: "s1 = s\<lparr>srv := m\<rparr>" and fr: "fresh_tid s"
    and sv: "served who (s'\<lparr>tid := tid s\<rparr>)"
    and st: "untouched s1 s' \<or> committed s1 s' \<or>
      (\<exists>sr. srv s' = Up sr \<and> stat_of (mon sr) (tid s) = Some COMMITTING)"
  shows "all_or_nothing s who s'"
proof -
  obtain d' dm where b: "mon_bye no_faults who (files s') (srv s') = (d', dm)" by fastforce
  obtain sr where sr: "srv s' = Up sr" "mon_inv (mon sr)" "mfind (transactions (mon sr)) who = Some (tid s1)"
    using sv s1 by (auto simp: served_def)
  have "fresh_tid s1" using fr s1 by (simp add: fresh_tid_def)
  moreover have "stat_of (mon sr) (tid s1) = Some COMMITTING" if "\<not> untouched s1 s'" "\<not> committed s1 s'"
    using st that sr(1) s1 by auto
  ultimately have "((\<forall>x. store_view d' x = store_view (files s1) x) \<or> (\<forall>x. store_view d' x = view s1 x)) \<and> left_over s1 d'"
    using bye_ends [OF ce _ sr _ b] by blast
  then show ?thesis unfolding all_or_nothing_def Let_def b fst_conv by (simp add: s1)
qed

lemma committed_srv: "committed (s\<lparr>srv := m\<rparr>) s' = committed s s'"
  by (simp add: committed_def)

lemma commit_log_ends:
  assumes s1: "s1 = s\<lparr>srv := m\<rparr>" and ok: "client_ok s" "lfd s = 0" and fr: "fresh_tid s"
    and sv: "served who s1" and st: "m = Up sr" "stat_of (mon sr) (tid s) = Some COMMITTING"
    and f: "final (commit_log bad s1) = Some s'"
  shows "all_or_nothing s who s'"
proof -
  have p: "post False (\<lambda>_. committed s1) (\<lambda>_ s. untouched s1 s \<or> stopped s1 s) (commit_log bad s1)"
    using commit_log_step [of s1 bad] ok s1 by simp
  then have ce: "commit_ends s1 s'" using f
    by (cases "commit_log bad s1") (auto simp: commit_ends_def)
  have "srv s1 = m" using s1 by simp
  then have "srv s' = m" using commit_log_away [OF f] by simp
  with st sv s1 have "served who (s'\<lparr>tid := tid s\<rparr>)" by (simp add: served_def)
  with ends_all_or_nothing [OF ce s1 fr] st \<open>srv s' = m\<close> show ?thesis by blast
qed

lemma after_end:
  assumes c: "committed s s2" and sv: "served who s2" and t: "tid s2 = tid s" and fr: "fresh_tid s"
    and f: "final (pbind (ask_tpm (monitor_tpm ef clk no_faults who) END 0)
      (\<lambda>(okay, _). if \<not> okay then throw_abort else Done ()) s2) = Some s'"
  shows "all_or_nothing s who s'"
proof -
  let ?r = "ask_tpm (monitor_tpm ef clk no_faults who) END 0 s2"
  have fin: "final ?r = Some s'"
    using f by (cases ?r) (auto simp: pbind_def throw_abort_def split: if_splits)
  note a = ask_served [OF refl sv _ fin]
  have "committed s s'" using a committed_cong [OF _ c] by simp
  then have co: "commit_ends (s\<lparr>srv := srv s\<rparr>) s'" by (simp add: commit_ends_def)
  have "s'\<lparr>tid := tid s\<rparr> = s'" using a t by simp
  then show ?thesis using ends_all_or_nothing [OF co refl fr] a \<open>committed s s'\<close> by (simp add: committed_srv)
qed

lemma commit_atomic:
  assumes ok: "client_ok s" "lfd s = 0" and fr: "fresh_tid s" and sv: "served who s"
    and f: "final (commit (monitor_tpm ef clk no_faults who) bad s) = Some s'"
  shows "all_or_nothing s who s'"
proof -
  let ?T = "monitor_tpm ef clk no_faults who"
  let ?e = "pbind (ask_tpm ?T END 0) (\<lambda>(okay, _). if \<not> okay then throw_abort else Done ())"
  define r where "r = ask_tpm ?T COMMIT 0 s"
  note as = ask_served [OF r_def [symmetric] sv]
  have cm: "commit ?T bad s = pbind (\<lambda>_. r) (\<lambda>(okay, _). if \<not> okay then tx_abort
     else pseq (commit_log bad) ?e) s"
    by (simp add: commit_unfold r_def pbind_def)
  show ?thesis
  proof (cases "\<exists>rp s1. r = Done (True, rp) s1")
    case True
    then obtain rp s1 where d: "r = Done (True, rp) s1" by blast
    then have fin: "final r = Some s1" by simp
    obtain sr where s1: "s1 = s\<lparr>srv := srv s1\<rparr>" "served who s1" "tid s1 = tid s" "srv s1 = Up sr"
      "stat_of (mon sr) (tid s) = Some COMMITTING"
      using as [OF disjI1 [OF refl] fin] d by blast
    from s1(1) obtain m where m: "s1 = s\<lparr>srv := m\<rparr>" by blast
    have c: "commit ?T bad s = pseq (commit_log bad) ?e s1"
      using d by (simp add: cm pbind_def)
    show ?thesis
    proof (cases "commit_log bad s1")
      case l: (Done u s2)
      have "client_ok s1" "lfd s1 = 0" "committed s1 = committed s"
        using ok m by (simp_all add: committed_srv fun_eq_iff)
      then have co: "committed s s2" using commit_log_step [of s1 bad] l by simp
      have "final (commit_log bad s1) = Some s2" using l by simp
      note s2 = commit_log_away [OF this]
      then have "served who s2" using s1(2) by (simp add: served_def)
      from after_end [OF co this _ fr] f c l s2 s1(3) show ?thesis by (simp add: pseq_def pbind_def)
    qed (rule commit_log_ends [OF s1(1) ok fr s1(2,4,5), of bad], use f c in \<open>simp add: pseq_def pbind_def\<close>)+
  next
    case False
    then obtain s1 where "final r = Some s1" "s' = s1 \<or> s' = s1\<lparr>error_occured := True\<rparr>"
      using f by (cases r) (auto simp: cm pbind_def tx_abort_def)
    then have fin: "files s' = files s \<and> served who s' \<and> tid s' = tid s"
      using as [OF disjI1 [OF refl], of s1] by (auto simp: served_def)
    then have u: "untouched (s\<lparr>srv := srv s\<rparr>) s'" by (simp add: untouched_def)
    then have "commit_ends (s\<lparr>srv := srv s\<rparr>) s'" by (simp add: commit_ends_def)
    moreover have "served who (s'\<lparr>tid := tid s\<rparr>)" using fin by (auto simp: served_def)
    ultimately show ?thesis using ends_all_or_nothing [OF _ refl fr] u by blast
  qed
qed

section \<open>Commit always ends\<close>

lemma ask_ends:
  assumes "served who s"
  shows "\<exists>s'. final (ask_tpm (monitor_tpm ef clk bad who) q b s) = Some s'"
proof -
  let ?rq = "\<lparr>rq_tid = tid s, rq_pid = pid s, rq_request = q, rq_reply = OK, rq_block = b\<rparr>"
  obtain sr where sr: "srv s = Up sr" "mon_inv (mon sr)" using assms by (auto simp: served_def)
  obtain m' r where "process_clientrq ef clk ?rq who (mon sr) = Ret (m', r)"
    using process_total [OF sr(2), of ef clk ?rq who] by (auto simp: returns_Ret)
  then show ?thesis
    by (auto simp: ask_tpm_def monitor_tpm_def mon_ask_def sr(1) Let_def tx_abort_def)
qed

lemma commit_finishes:
  assumes ok: "client_ok s" "lfd s = 0" and sv: "served who s"
  shows "\<exists>s'. final (commit (monitor_tpm ef clk no_faults who) bad s) = Some s'"
proof -
  let ?T = "monitor_tpm ef clk no_faults who"
  let ?e = "pbind (ask_tpm ?T END 0) (\<lambda>(okay, _). if \<not> okay then throw_abort else Done ())"
  obtain s1 where s1: "final (ask_tpm ?T COMMIT 0 s) = Some s1" using ask_ends [OF sv] by blast
  note a = ask_served [OF refl sv disjI1 [OF refl] s1]
  show ?thesis
  proof (cases "\<exists>rp. ask_tpm ?T COMMIT 0 s = Done (True, rp) s1")
    case False
    then show ?thesis using s1
      by (cases "ask_tpm ?T COMMIT 0 s") (auto simp: commit_unfold pbind_def tx_abort_def)
  next
    case True
    then have c: "commit ?T bad s = pseq (commit_log bad) ?e s1"
      by (auto simp: commit_unfold pbind_def)
    from True a obtain m where m: "s1 = s\<lparr>srv := m\<rparr>" by blast
    have p: "post False (\<lambda>_. committed s1) (\<lambda>_ s. untouched s1 s \<or> stopped s1 s) (commit_log bad s1)"
      using commit_log_step [of s1 bad] ok m by simp
    show ?thesis
    proof (cases "commit_log bad s1")
      case (Done u s2)
      then have "final (commit_log bad s1) = Some s2" by simp
      from commit_log_away [OF this] have "srv s2 = srv s1 \<and> tid s2 = tid s1" by blast
      moreover have "served who s1" using a by blast
      ultimately have "served who s2" by (simp add: served_def)
      from ask_ends [OF this, of ef clk no_faults END 0] obtain s3
        where "final (ask_tpm ?T END 0 s2) = Some s3" by blast
      then show ?thesis using c Done
        by (cases "ask_tpm ?T END 0 s2") (auto simp: pseq_def pbind_def throw_abort_def)
    qed (use c p in \<open>auto simp: pseq_def pbind_def\<close>)
  qed
qed

end
