(* ===== verification/CrashRecovery.thy ===== *)
theory CrashRecovery
  imports System
begin

text \<open>
  The recovery program after a crash: the log a stopped \<open>commit\<close> leaves is broken only by its own
  records, so \<open>recover\<close> takes the datastore back to the state before; the log of a finished
  \<open>commit\<close> needs nothing. Nothing here depends on the monitor.
\<close>

section \<open>The recovery program\<close>

lemma recover_main_start:
  "recover_main no_faults d = undo_broken no_faults (collect (log_f d)) \<lparr>logfd = 0, dsk = d\<rparr>"
  by (simp add: recover_main_def open_logmgr_def doRecovery_def)

lemma recover_closed:
  "collect (log_f d) = [] \<Longrightarrow> recover_main no_faults d = Done () \<lparr>logfd = 0, dsk = d\<rparr>"
  by (simp add: recover_main_start)

lemma recover_stopped:
  assumes st: "stopped s0 s" and fr: "fresh_tid s0" and cl: "collect (log_f (files s0)) = []"
  shows "\<exists>l. recover_main no_faults (files s) = Done () l \<and>
    (\<forall>b. store_view (dsk l) b = store_view (files s0) b) \<and> collect (log_f (dsk l)) = []"
proof -
  let ?t = "tid s0"
  obtain W where m: "midway s0 W s" using st by (auto simp: stopped_def)
  let ?V = "begin_record ?t # W"
  have u: "undoable (files s0) W (files s)" and own: "\<forall>r \<in> set W. lr_tid r = ?t"
    using m by (auto simp: midway_def)
  have co: "collect (log_f (files s)) = [(?t, ?V)]" by (rule stopped_open [OF m _ cl]) (use fr in \<open>simp add: fresh_tid_def\<close>)
  have nc: "\<forall>r \<in> set ?V. lr_tid r = ?t" using own by (simp add: begin_record_def)
  have ok: "\<forall>r \<in> set ?V. rec_ok (files s) r"
    using undoable_rec_ok [OF u] by (auto simp: rec_ok_def begin_record_def effective_def)
  let ?l = "\<lparr>logfd = 0, dsk = files s\<rparr>"
  obtain l where l: "undo_broken no_faults [(?t, ?V)] ?l = Done () l"
    "same_files (dsk l) (undo_all ?V (files s))" "log_f (dsk l) = log_f (files s) @ [abort_record ?t]"
    using undo_broken_all [of "[(?t, ?V)]" ?l] ok nc by auto
  have "undo_all ?V (files s) = undo_all W (files s)"
    by (simp add: undo_eff_begin begin_record_def)
  then have "store_view (dsk l) b = store_view (files s0) b" for b
    using l(2) undoable_restores [OF u] same_files_store_view by metis
  moreover have "collect (log_f (dsk l)) = []"
    using aborted_log_closed [of "log_f (files s)"] l(3) co by simp
  ultimately show ?thesis using l(1) co by (auto simp: recover_main_start)
qed

text \<open>
  However \<open>commit\<close> ends, the recovery program then leaves the committed datastore or the one before,
  and a closed log.
\<close>

lemma commit_recovered:
  assumes q: "quiet_tpm T" and ok: "client_ok s" "lfd s = 0" and fr: "fresh_tid s"
    and cl: "collect (log_f (files s)) = []" and f: "final (commit T bad s) = Some s'"
  shows "\<exists>l. recover_main no_faults (files s') = Done () l \<and> collect (log_f (dsk l)) = [] \<and>
    ((\<forall>b. store_view (dsk l) b = store_view (files s) b) \<or> (\<forall>b. store_view (dsk l) b = view s b))"
proof -
  have "post True (\<lambda>_. committed s) (\<lambda>_. commit_ends s) (commit T bad s)"
    by (rule quiet_tpm.commit_outcome [OF q ok])
  then have "commit_ends s s'" using f by (cases "commit T bad s") (auto simp: commit_ends_def)
  then consider (u) "untouched s s'" | (s) "stopped s s'" | (c) "committed s s'"
    by (auto simp: commit_ends_def)
  then show ?thesis
  proof cases
    case u
    then have "log_f (files s') = log_f (files s)" "same_files (files s') (files s)"
      by (simp_all add: untouched_def)
    then show ?thesis using recover_closed [of "files s'"] cl same_files_store_view by auto
  next
    case s
    from recover_stopped [OF s fr cl] show ?thesis by blast
  next
    case c
    then show ?thesis using recover_closed [OF committed_closed [OF c _ cl]] committed_closed [OF c _ cl] fr
      by (auto simp: committed_def fresh_tid_def)
  qed
qed

text \<open>Recovery twice is recovery once.\<close>

lemma recover_again:
  assumes ok: "\<forall>r \<in> set (log_f d). rec_ok d r"
  shows "\<exists>l. recover_main no_faults d = Done () l \<and>
    same_files (dsk l) (undo_all (concat (map snd (collect (log_f d)))) d) \<and>
    recover_main no_faults (dsk l) = Done () \<lparr>logfd = 0, dsk = dsk l\<rparr>"
proof -
  obtain l where l: "doRecovery no_faults (log_f d) \<lparr>logfd = 0, dsk = d\<rparr> = Done () l"
    "same_files (dsk l) (undo_all (concat (map snd (collect (log_f d)))) d)"
    "log_f (dsk l) = log_f d @ map (\<lambda>p. abort_record (fst p)) (collect (log_f d))"
    using doRecovery_all [of "log_f d" "\<lparr>logfd = 0, dsk = d\<rparr>"] ok by auto
  have "recover_main no_faults d = Done () l"
    using l(1) by (simp add: recover_main_def open_logmgr_def)
  moreover have "collect (log_f (dsk l)) = []" using aborted_log_closed l(3) by simp
  ultimately show ?thesis using l(2) recover_closed by blast
qed

end
