(* ===== verification/Success.thy ===== *)
theory Success
  imports CrashRecovery
begin

text \<open>
  When no system call fails and the monitor has not preempted the transaction, \<open>commit\<close> succeeds:
  the datastore becomes what the transaction saw.
\<close>

section \<open>Programs that only a fault can stop\<close>

interpretation smooth: commit_law no_faults "\<lambda>_. True" "\<lambda>_ _. False"
proof (unfold_locales, goal_cases)
  case (1 a b oi ov)
  show ?case
  proof (rule obeysI)
    fix s :: "'a cstate"
    show "post True (\<lambda>_ _. True) (\<lambda>_ _. False) (tx_log no_faults a b oi ov s)"
      using tx_log_run [of no_faults a b oi ov s] by auto
  qed
qed (rule obeysI, auto simp: put_index_def write_index_def put_store_def write_store_def tx_deref_def
    split: outcome.split)+

lemma commit_log_succeeds:
  fixes s :: "'m cstate"
  assumes "client_ok s" "lfd s = 0"
  shows "\<exists>s'. commit_log no_faults s = Done () s' \<and> committed s s' \<and> srv s' = srv s \<and> tid s' = tid s \<and>
    heap s' = heap s \<and> bmap s' = bmap s"
proof -
  have p: "post False (\<lambda>_. committed s) (\<lambda>_ s'. untouched s s' \<or> stopped s s') (commit_log no_faults s)"
    by (rule commit_log_step [OF assms])
  have q: "post True (\<lambda>_ _. True) (\<lambda>_ _. False) (commit_log no_faults s)"
    by (rule obeysD [OF smooth.logging_phase TrueI])
  obtain s' where s': "commit_log no_faults s = Done () s'" "committed s s'"
    using p q by (cases "commit_log no_faults s") auto
  then have "final (commit_log no_faults s) = Some s'" by simp
  from commit_log_away [OF this] s' show ?thesis by blast
qed

section \<open>The two requests around it\<close>

lemma commit_answered:
  assumes sr: "srv s = Up sr" "stat_of (mon sr) (tid s) = Some q" "q \<noteq> PREEMPTED"
  shows "\<exists>rp. ask_tpm (monitor_tpm ef clk bad who) COMMIT 0 s =
    Done (True, rp) (s\<lparr>srv := Up (sr\<lparr>mon := set_stat (tid s) COMMITTING (mon sr)\<rparr>)\<rparr>)"
proof -
  obtain e where "mfind (status (mon sr)) (tid s) = Some e" "stat e = q"
    using sr(2) by (auto simp: stat_of_def)
  then show ?thesis using sr
    by (simp add: ask_tpm_def monitor_tpm_def mon_ask_def process_clientrq_def preempted_stat_of
        dispatch_rq_def commit_rq_def)
qed

lemma end_answered:
  assumes sr: "srv s = Up sr" "stat_of (mon sr) (tid s) = Some COMMITTING"
  shows "\<exists>rp. ask_tpm (monitor_tpm ef clk bad who) END 0 s =
    Done (True, rp) (s\<lparr>srv := Up (sr\<lparr>mon := set_stat (tid s) ENDED (mon sr)\<rparr>)\<rparr>)"
proof -
  obtain e where "mfind (status (mon sr)) (tid s) = Some e" "stat e = COMMITTING"
    using sr(2) by (auto simp: stat_of_def)
  then show ?thesis using sr
    by (simp add: ask_tpm_def monitor_tpm_def mon_ask_def process_clientrq_def preempted_stat_of
        dispatch_rq_def end_rq_def)
qed

lemma known_stat: "stat_of m t = Some q \<Longrightarrow> known m t"
  by (simp add: known_stat_of)

lemma commit_succeeds:
  assumes ok: "client_ok s" "lfd s = 0"
    and sr: "srv s = Up sr" "stat_of (mon sr) (tid s) = Some q" "q \<noteq> PREEMPTED"
  shows "\<exists>s' m'. commit (monitor_tpm ef clk bad who) no_faults s = Done () s' \<and>
    (\<forall>b. store_view (files s') b = view s b) \<and> srv s' = Up (sr\<lparr>mon := m'\<rparr>) \<and>
    m' = set_stat (tid s) ENDED (set_stat (tid s) COMMITTING (mon sr)) \<and>
    heap s' = heap s \<and> bmap s' = bmap s"
proof -
  let ?T = "monitor_tpm ef clk bad who"
  let ?e = "pbind (ask_tpm ?T END 0) (\<lambda>(okay, _). if \<not> okay then throw_abort else Done ())"
  let ?m1 = "set_stat (tid s) COMMITTING (mon sr)"
  define s1 where "s1 = s\<lparr>srv := Up (sr\<lparr>mon := ?m1\<rparr>)\<rparr>"
  have kn: "known (mon sr) (tid s)" using sr(2) by (rule known_stat)
  obtain rp where "ask_tpm ?T COMMIT 0 s = Done (True, rp) s1"
    using commit_answered [OF sr] unfolding s1_def by blast
  then have c: "commit ?T no_faults s = pseq (commit_log no_faults) ?e s1"
    by (simp add: commit_unfold pbind_def)
  have ok1: "client_ok s1" "lfd s1 = 0" "committed s1 = committed s" "tid s1 = tid s"
    using ok by (simp_all add: s1_def committed_srv fun_eq_iff)
  obtain s2 where s2: "commit_log no_faults s1 = Done () s2" "committed s s2" "srv s2 = srv s1" "tid s2 = tid s"
      "heap s2 = heap s" "bmap s2 = bmap s"
    using commit_log_succeeds [OF ok1(1,2)] ok1(3,4) by (auto simp: s1_def)
  have sr2: "srv s2 = Up (sr\<lparr>mon := ?m1\<rparr>)" "stat_of (mon (sr\<lparr>mon := ?m1\<rparr>)) (tid s2) = Some COMMITTING"
    using s2(3,4) kn by (simp_all add: s1_def)
  let ?m2 = "set_stat (tid s) ENDED ?m1"
  obtain rp' where "ask_tpm ?T END 0 s2 = Done (True, rp') (s2\<lparr>srv := Up (sr\<lparr>mon := ?m2\<rparr>)\<rparr>)"
    using end_answered [OF sr2, of ef clk bad who] s2(4) by auto
  then have "commit ?T no_faults s = Done () (s2\<lparr>srv := Up (sr\<lparr>mon := ?m2\<rparr>)\<rparr>)"
    using c s2(1) by (simp add: pseq_def pbind_def)
  then show ?thesis using s2(2,5,6) by (auto simp: committed_def)
qed

end
