(* ===== verification/Serial.thy ===== *)
theory Serial
  imports Success
begin

text \<open>
  A whole transaction of one process against the monitor: construction, the body, the commit in the
  destructor and the disconnect. When it returns, the datastore has been taken from one state to the
  next as if the body had run alone on a map from blocks to contents.
\<close>

section \<open>The connection stays registered\<close>

lemma served_ask:
  assumes "q \<noteq> BEGIN"
  shows "obeys (served who) (\<lambda>_. served who) (ask_tpm (monitor_tpm ef clk bad who) q b)"
proof (rule obeysI)
  fix s assume sv: "served who s"
  let ?rq = "\<lparr>rq_tid = tid s, rq_pid = pid s, rq_request = q, rq_reply = OK, rq_block = b\<rparr>"
  obtain sr where sr: "srv s = Up sr" "mon_inv (mon sr)" "mfind (transactions (mon sr)) who = Some (tid s)"
    using sv by (auto simp: served_def)
  obtain m' r where p: "process_clientrq ef clk ?rq who (mon sr) = Ret (m', r)"
    using process_total [OF sr(2), of ef clk ?rq who] by (auto simp: returns_Ret)
  have "mon_inv m'" by (rule process_inv [OF p sr(2)]) (use sr(3) assms in \<open>simp add: library_request_def\<close>)
  moreover have "transactions m' = transactions (mon sr)" using process_transactions [OF p] assms by simp
  ultimately show "post True (\<lambda>_. served who) (\<lambda>_. served who) (ask_tpm (monitor_tpm ef clk bad who) q b s)"
    using p sr by (auto simp: ask_tpm_def monitor_tpm_def mon_ask_def Let_def tx_abort_def served_def)
qed

lemma served_restart:
  assumes "served who s"
  shows "post True (\<lambda>_ _. True) (\<lambda>_. served who) (restart (monitor_tpm ef clk bad who) s)"
  by (rule restart_law [OF served_ask assms]) (simp_all add: served_def)

interpretation serve: strict_law "monitor_tpm ef clk bad who" "served who" "\<lambda>_. served who" for ef clk bad who
proof (unfold_locales, goal_cases)
  case (1 q b)
  then show ?case by (intro served_ask) auto
next
  case (2 s)
  then show ?case by (rule served_restart)
qed (simp_all add: served_def)

section \<open>Construction\<close>

lemma construct_eq:
  assumes "srv s = Up sr" "mon_inv (mon sr)"
    and "construct (monitor_tpm ef clk bye_bad who) bad p s = Done u s1"
  obtains m' where
    "process_clientrq ef clk \<lparr>rq_tid = 0, rq_pid = p, rq_request = BEGIN, rq_reply = OK, rq_block = 0\<rparr> who (mon sr) =
       Ret (m', \<lparr>rq_tid = next_tid (mon sr), rq_pid = p, rq_request = BEGIN, rq_reply = OK, rq_block = 0\<rparr>)"
    "next_tid m' = next_tid (mon sr) + 1" "mfind (transactions m') who = Some (next_tid (mon sr))"
    "stat_of m' (next_tid (mon sr)) = Some BEGUN"
    "s1 = s\<lparr>tid := next_tid (mon sr), pid := p, error_occured := False, last_free_block := 0, bmap := mempty,
       lfd := 0, srv := Up (sr\<lparr>mon := m'\<rparr>)\<rparr>"
proof -
  let ?rq = "\<lparr>rq_tid = 0, rq_pid = p, rq_request = BEGIN, rq_reply = OK, rq_block = 0\<rparr>"
  have p: "process_clientrq ef clk ?rq who (mon sr) = Ret (begin_rq clk ?rq who (mon sr))"
    by (simp add: process_clientrq_def dispatch_rq_def)
  with assms show ?thesis
    by (intro that [of "fst (begin_rq clk ?rq who (mon sr))"])
      (auto simp: construct_def Let_def pbind_def ask_tpm_def monitor_tpm_def mon_ask_def begin_rq_def
        stat_of_def split: if_splits)
qed

lemma construct_Done:
  assumes c: "construct (monitor_tpm ef clk bye_bad who) bad p s = Done u s1"
    and sr: "srv s = Up sr" "mon_inv (mon sr)" "mfind (transactions (mon sr)) who = None" "next_tid (mon sr) \<noteq> -1"
    and ok: "files_ok (files s)" "mem_ok (heap s)"
  shows "client_ok s1 \<and> lfd s1 = 0 \<and> \<not> error_occured s1 \<and> served who s1 \<and> files s1 = files s \<and>
    view s1 = store_view (files s)"
  using sr(1,2) c
proof (rule construct_eq)
  fix m' assume p: "process_clientrq ef clk \<lparr>rq_tid = 0, rq_pid = p, rq_request = BEGIN, rq_reply = OK, rq_block = 0\<rparr>
       who (mon sr) = Ret (m', \<lparr>rq_tid = next_tid (mon sr), rq_pid = p, rq_request = BEGIN, rq_reply = OK, rq_block = 0\<rparr>)"
    and t: "mfind (transactions m') who = Some (next_tid (mon sr))"
    and s1: "s1 = s\<lparr>tid := next_tid (mon sr), pid := p, error_occured := False, last_free_block := 0,
       bmap := mempty, lfd := 0, srv := Up (sr\<lparr>mon := m'\<rparr>)\<rparr>"
  have "mon_inv m'" by (rule process_inv [OF p sr(2)]) (use sr(3,4) in \<open>simp add: library_request_def\<close>)
  then have "served who s1" using t by (simp add: served_def s1)
  moreover have "client_ok s1" by (rule client_okI) (use ok in \<open>simp_all add: s1\<close>)
  moreover have "view s1 = store_view (files s)" by (simp add: view_def s1 fun_eq_iff)
  ultimately show ?thesis by (simp add: s1)
qed

section \<open>Destruction\<close>

lemma end_reply:
  assumes "ask_tpm (monitor_tpm ef clk bad who) END 0 s = Done (True, rp) s'" "served who s"
  shows "\<exists>sr. srv s' = Up sr \<and> stat_of (mon sr) (tid s') \<noteq> Some COMMITTING \<and> tid s' = tid s"
proof -
  obtain sr where sr: "srv s = Up sr" using assms(2) by (auto simp: served_def)
  let ?rq = "\<lparr>rq_tid = tid s, rq_pid = pid s, rq_request = END, rq_reply = OK, rq_block = 0\<rparr>"
  have "process_clientrq ef clk ?rq who (mon sr) =
      (if preempted (tid s) (mon sr) then Ret (mon sr, swapped_reply ?rq DIE) else Ret (end_rq ?rq (mon sr)))"
    by (simp add: process_clientrq_def dispatch_rq_def)
  then show ?thesis using assms(1) sr
    by (auto simp: ask_tpm_def monitor_tpm_def mon_ask_def end_rq_def tx_abort_def Let_def stat_of_def
        set_stat_def split: if_splits option.splits)
qed

lemma commit_Done:
  assumes c: "commit (monitor_tpm ef clk bye_bad who) bad s = Done u s'"
    and ok: "client_ok s" "lfd s = 0" and sv: "served who s"
  shows "(\<forall>b. store_view (files s') b = view s b) \<and> left_over s (files s') \<and> served who s' \<and>
    (\<exists>sr. srv s' = Up sr \<and> stat_of (mon sr) (tid s') \<noteq> Some COMMITTING)"
proof -
  let ?T = "monitor_tpm ef clk bye_bad who"
  have "post True (\<lambda>_. committed s) (\<lambda>_. commit_ends s) (commit ?T bad s)"
    by (rule quiet_tpm.commit_outcome [OF mq.quiet_tpm_axioms ok])
  then have v: "(\<forall>b. store_view (files s') b = view s b) \<and> left_over s (files s')"
    using c commit_left_over [of s s'] by (simp add: committed_def)
  obtain rp s1 where s1: "ask_tpm ?T COMMIT 0 s = Done (True, rp) s1"
      "pseq (commit_log bad) (pbind (ask_tpm ?T END 0) (\<lambda>(okay, _). if \<not> okay then throw_abort else Done ())) s1 =
        Done u s'"
    using c unfolding commit_unfold by (auto simp: pbind_eq_Done tx_abort_def split: if_splits)
  obtain u2 s2 rp2 where s2: "commit_log bad s1 = Done u2 s2" "ask_tpm ?T END 0 s2 = Done (True, rp2) s'"
    using s1(2) by (auto simp: pseq_eq_Done pbind_eq_Done throw_abort_def split: if_splits)
  have sv1: "served who s1" using obeys_returns [OF served_ask sv s1(1)] by simp
  have "final (commit_log bad s1) = Some s2" using s2(1) by simp
  from commit_log_away [OF this] sv1 have sv2: "served who s2" by (simp add: served_def)
  have "served who s'" using obeys_returns [OF served_ask sv2 s2(2)] by simp
  then show ?thesis using v end_reply [OF s2(2) sv2] by blast
qed

lemma free_entries_Done:
  "free_entries es s = Done u s' \<Longrightarrow> \<exists>h. s' = s\<lparr>heap := h\<rparr>"
proof (induction es arbitrary: s)
  case Nil
  then have "s' = s\<lparr>heap := heap s\<rparr>" by simp
  then show ?case by blast
next
  case (Cons e es)
  obtain b mb where e: "e = (b, mb)" by (cases e)
  from Cons.prems obtain u1 s1 where s1: "free_entry mb s = Done u1 s1" "free_entries es s1 = Done u s'"
    by (auto simp: e pseq_eq_Done)
  obtain h where "s1 = s\<lparr>heap := h\<rparr>" using free_entry_cases [of mb s] s1(1) by auto
  then show ?case using Cons.IH [OF s1(2)] by auto
qed

lemma destruct_Done:
  assumes d: "destruct (monitor_tpm ef clk no_faults who) bad s = Done u s'"
    and ok: "client_ok s" "lfd s = 0" and sv: "served who s" and e: "\<not> error_occured s"
  shows "\<forall>b. store_view (files s') b = view s b"
proof -
  let ?T = "monitor_tpm ef clk no_faults who"
  obtain u1 s1 u2 s2 where c: "commit ?T bad s = Done u1 s1" "free_entries (bmap s1) s1 = Done u2 s2"
      "close_connection ?T s2 = Done u s'"
    using d e by (auto simp: destruct_def pseq_eq_Done)
  note co = commit_Done [OF c(1) ok sv]
  obtain h where s2: "s2 = s1\<lparr>heap := h\<rparr>" using free_entries_Done [OF c(2)] by blast
  obtain sr where sr: "srv s1 = Up sr" "stat_of (mon sr) (tid s1) \<noteq> Some COMMITTING" "mon_inv (mon sr)"
      "mfind (transactions (mon sr)) who = Some (tid s1)"
    using co by (auto simp: served_def)
  have "files s' = files s1"
    using c(3) s2 sr(1) bye_other [OF sr(3,4,2), of no_faults "files s1"]
    by (auto simp: close_connection_def monitor_tpm_def)
  then show ?thesis using co by simp
qed

text \<open>The destructor of a transaction in order, without faults.\<close>

lemma destruct_succeeds:
  assumes ok: "client_ok s" "lfd s = 0" and sr: "srv s = Up sr" "mon_inv (mon sr)"
      "mfind (transactions (mon sr)) who = Some (tid s)" "\<not> preempted (tid s) (mon sr)"
    and e: "\<not> error_occured s"
  shows "\<exists>s'. destruct (monitor_tpm ef clk bad who) no_faults s = Done () s' \<and>
    (\<forall>b. store_view (files s') b = view s b) \<and>
    srv s' = Up ((on_disk (files s') sr)\<lparr>mon :=
      drop_client who (tid s) (set_stat (tid s) ENDED (set_stat (tid s) COMMITTING (mon sr)))\<rparr>)"
proof -
  let ?T = "monitor_tpm ef clk bad who"
  let ?m = "set_stat (tid s) ENDED (set_stat (tid s) COMMITTING (mon sr))"
  have kn: "known (mon sr) (tid s)" using sr(2,3) by (auto simp: mon_inv_def tids_ok_def)
  then obtain q where q: "stat_of (mon sr) (tid s) = Some q" "q \<noteq> PREEMPTED"
    using sr(4) by (auto simp: known_stat_of preempted_stat_of)
  obtain s1 where s1: "commit ?T no_faults s = Done () s1" "\<forall>b. store_view (files s1) b = view s b"
      "srv s1 = Up (sr\<lparr>mon := ?m\<rparr>)" "heap s1 = heap s" "bmap s1 = bmap s"
    using commit_succeeds [OF ok sr(1) q, of ef clk bad who] by auto
  obtain h where h: "free_entries (bmap s1) s1 = Done () (s1\<lparr>heap := h\<rparr>)"
    using free_entries_ok [OF ok(1) s1(4)] s1(5) by auto
  have m: "mon_inv (mon (sr\<lparr>mon := ?m\<rparr>))" "mfind (transactions (mon (sr\<lparr>mon := ?m\<rparr>))) who = Some (tid s)"
    "stat_of (mon (sr\<lparr>mon := ?m\<rparr>)) (tid s) \<noteq> Some COMMITTING"
    using sr(2,3) kn by (simp_all add: mon_inv_def)
  from bye_other [OF m, of bad "files s1"] s1(3)
  have "bye ?T (files s1) (srv s1) = (files s1, Up ((on_disk (files s1) sr)\<lparr>mon := drop_client who (tid s) ?m\<rparr>))"
    by (simp add: monitor_tpm_def on_disk_def)
  then obtain s' where "close_connection ?T (s1\<lparr>heap := h\<rparr>) = Done () s'" "files s' = files s1"
      "srv s' = Up ((on_disk (files s1) sr)\<lparr>mon := drop_client who (tid s) ?m\<rparr>)"
    by (simp add: close_connection_def)
  moreover from this have "destruct ?T no_faults s = Done () s'"
    using e s1(1) h by (simp add: destruct_def pseq_def pbind_def)
  ultimately show ?thesis using s1(2) by auto
qed

section \<open>The whole transaction\<close>

lemma transaction_serial:
  assumes r: "run_once (monitor_tpm ef clk no_faults who) bad p
      (exec (monitor_tpm ef clk no_faults who) bad scr) s = Done u s'"
    and sr: "srv s = Up sr" "mon_inv (mon sr)" "mfind (transactions (mon sr)) who = None" "next_tid (mon sr) \<noteq> -1"
    and ok: "files_ok (files s)" "mem_ok (heap s)"
  shows "\<exists>\<sigma>. runs_to scr (store_view (files s)) \<sigma> \<and> (\<forall>b. store_view (files s') b = \<sigma> b)"
proof -
  let ?T = "monitor_tpm ef clk no_faults who"
  obtain u1 s1 where c: "construct ?T bad p s = Done u1 s1"
    and rest: "(case exec ?T bad scr s1 of
         Done _ s1 \<Rightarrow> destruct ?T bad s1
       | Throw e s1 \<Rightarrow> (case destruct ?T bad s1 of
              Done _ s2 \<Rightarrow> Throw e s2 | Throw _ s2 \<Rightarrow> Quit s2
            | Quit s2 \<Rightarrow> Quit s2 | Wrong \<Rightarrow> Wrong | Loop \<Rightarrow> Loop)
       | Quit s1 \<Rightarrow> Quit s1 | Wrong \<Rightarrow> Wrong | Loop \<Rightarrow> Loop) = Done u s'"
    using r unfolding run_once_def by (auto simp: pseq_eq_Done)
  note s1 = construct_Done [OF c sr ok]
  obtain v s2 where x: "exec ?T bad scr s1 = Done v s2" and d: "destruct ?T bad s2 = Done u s'"
    using rest by (auto split: run.splits)
  have r2: "runs_to scr (view s1) (view s2)" "client_ok s2"
    using quiet_tpm.exec_refines [OF mq.quiet_tpm_axioms x] s1 by blast+
  have "lfd s2 = 0" using quiet_tpm.exec_defers_writes [OF mq.quiet_tpm_axioms, of ef clk no_faults who bad scr s1 s2] x s1
    by simp
  moreover have "served who s2" using obeys_returns [OF serve.executing _ x] s1 by blast
  moreover have "\<not> error_occured s2" using obeys_returns [OF clean.executing _ x, of False] s1 by simp
  ultimately have "\<forall>b. store_view (files s') b = view s2 b" using destruct_Done [OF d r2(2)] by blast
  then show ?thesis using r2(1) s1 by auto
qed

end
