(* ===== verification/Attempts.thy ===== *)
theory Attempts
  imports Serial
begin

text \<open>
  The whole of \<open>Begin(T) ... End(T)\<close>, restarts included, against the monitor: an attempt that does not
  commit leaves the files as they were and the connection closed, so the next attempt starts like the
  first, and whatever the end of the last one, the datastore is the old one or the one that the body
  makes of it.
\<close>

section \<open>Scripts with positive block numbers\<close>

primrec positive :: "script \<Rightarrow> bool" where
  "positive Finish = True"
| "positive (Alloc k) = (\<forall>b. b > 0 \<longrightarrow> positive (k b))"
| "positive (ReadB b k) = (b > 0 \<and> (\<forall>v. positive (k v)))"
| "positive (WriteB b new k) = (b > 0 \<and> (\<forall>v. positive (k v)))"
| "positive (ReleaseB b k) = (b > 0 \<and> positive k)"
| "positive AbortT = True"

lemma tx_deref_never [simp]: "tx_deref p s \<noteq> Throw e s'"
  by (cases "deref (heap s) p") (simp_all add: tx_deref_def)

context quiet_tpm
begin

text \<open>Such a body never leaves with the error flag clear.\<close>

lemma exec_throws_flagged:
  assumes "exec T bad scr s = Throw e s'" "positive scr" "client_ok s"
  shows "error_occured s'"
  using assms
proof (induction scr arbitrary: s)
  case (Alloc k)
  show ?case
  proof (cases "allocate T bad s = Throw e s'")
    case True
    then show ?thesis by (rule throw_sets_flag)
  next
    case False
    then obtain b s1 where s1: "allocate T bad s = Done b s1" "exec T bad (k b) s1 = Throw e s'"
      using Alloc.prems(1) by (auto simp: pbind_eq_Throw)
    note a = allocate_Done [OF s1(1) Alloc.prems(3)]
    then have "b > 0" by (auto simp: block_valid_def index_valid_def)
    then show ?thesis using Alloc.IH [OF rangeI s1(2)] Alloc.prems(2) a by auto
  qed
next
  case (ReadB b k)
  show ?case
  proof (cases "tx_read T bad b s = Throw e s'")
    case True
    then show ?thesis using throw_sets_flag(2) ReadB.prems(2) by auto
  next
    case False
    then obtain p v s1 where s1: "tx_read T bad b s = Done p s1" "exec T bad (k v) s1 = Throw e s'"
      using ReadB.prems(1) by (auto simp: pbind_eq_Throw tx_deref_Done tx_deref_never)
    then show ?thesis using ReadB.IH [OF rangeI s1(2)] tx_read_Done [OF s1(1) ReadB.prems(3)] ReadB.prems(2)
      by auto
  qed
next
  case (WriteB b new k)
  then have new: "is_block new" by (auto split: if_splits)
  show ?case
  proof (cases "tx_write T bad b new s = Throw e s'")
    case True
    then show ?thesis using throw_sets_flag(3) WriteB.prems(2) by auto
  next
    case False
    then obtain old s1 where s1: "tx_write T bad b new s = Done old s1" "exec T bad (k old) s1 = Throw e s'"
      using WriteB.prems(1) new by (auto simp: pbind_eq_Throw)
    then show ?thesis using WriteB.IH [OF rangeI s1(2)] tx_write_Done [OF s1(1) WriteB.prems(3) new] WriteB.prems(2)
      by auto
  qed
next
  case (ReleaseB b k)
  show ?case
  proof (cases "tx_release T bad b s = Throw e s'")
    case True
    then show ?thesis using throw_sets_flag(4) ReleaseB.prems(2) by auto
  next
    case False
    then obtain u s1 where s1: "tx_release T bad b s = Done u s1" "exec T bad k s1 = Throw e s'"
      using ReleaseB.prems(1) by (auto simp: pseq_def pbind_eq_Throw)
    then show ?thesis using ReleaseB.IH [OF s1(2)] tx_release_Done [OF s1(1) ReleaseB.prems(3)] ReleaseB.prems(2)
      by auto
  qed
qed (auto simp: tx_abort_def)

end

section \<open>Laws of the body\<close>

lemma ask_throws: "obeys (\<lambda>_. True) (\<lambda>e _. e \<noteq> Some TE_FAIL) (ask_tpm T q b)"
  by (rule obeysI) (auto simp: ask_tpm_def tx_abort_def Let_def split: outcome.split)

interpretation nf: strict_law T "\<lambda>_. True" "\<lambda>e _. e \<noteq> Some TE_FAIL" for T
proof (unfold_locales, goal_cases)
  case (1 q b)
  show ?case by (rule ask_throws)
next
  case (2 s)
  show ?case by (rule restart_law [OF ask_throws TrueI]) auto
qed simp_all

lemma ask_mem: "obeys (\<lambda>s. mem_ok (heap s)) (\<lambda>_ s. mem_ok (heap s)) (ask_tpm T q b)"
  by (rule obeysI) (auto simp: ask_tpm_def tx_abort_def Let_def split: outcome.split)

interpretation memory: strict_law T "\<lambda>s. mem_ok (heap s)" "\<lambda>_ s. mem_ok (heap s)" for T
proof (unfold_locales, goal_cases)
  case (1 q b)
  show ?case by (rule ask_mem)
next
  case (2 s)
  show ?case by (rule restart_law [OF ask_mem 2]) simp_all
qed simp_all

text \<open>The body never reaches COMMITTING, and the next transaction number stays.\<close>

definition open_tx :: "fd \<Rightarrow> trid_t \<Rightarrow> daemon cstate \<Rightarrow> bool" where
  "open_tx who N s \<longleftrightarrow> (\<exists>sr. srv s = Up sr \<and> mon_inv (mon sr) \<and>
     mfind (transactions (mon sr)) who = Some (tid s) \<and> stat_of (mon sr) (tid s) \<noteq> Some COMMITTING \<and>
     next_tid (mon sr) = N)"

lemma process_next_tid:
  assumes "process_clientrq ef clk rq who m = Ret (m', r)" "rq_request rq \<noteq> BEGIN"
  shows "next_tid m' = next_tid m"
  using assms(1)
proof (cases rule: process_cases)
  case (lock h st shared)
  then show ?thesis using table_handler.frame by blast
qed (use assms(2) in auto)

lemma open_ask:
  assumes "q \<noteq> BEGIN" "q \<noteq> COMMIT"
  shows "obeys (open_tx who N) (\<lambda>_. open_tx who N) (ask_tpm (monitor_tpm ef clk bad who) q b)"
proof (rule obeysI)
  fix s assume s: "open_tx who N s"
  let ?rq = "\<lparr>rq_tid = tid s, rq_pid = pid s, rq_request = q, rq_reply = OK, rq_block = b\<rparr>"
  obtain sr where sr: "srv s = Up sr" "mon_inv (mon sr)" "mfind (transactions (mon sr)) who = Some (tid s)"
    "stat_of (mon sr) (tid s) \<noteq> Some COMMITTING" "next_tid (mon sr) = N"
    using s by (auto simp: open_tx_def)
  obtain m' r where p: "process_clientrq ef clk ?rq who (mon sr) = Ret (m', r)"
    using process_total [OF sr(2), of ef clk ?rq who] by (auto simp: returns_Ret)
  have "mon_inv m'" by (rule process_inv [OF p sr(2)]) (use sr(3) assms(1) in \<open>simp add: library_request_def\<close>)
  moreover have "transactions m' = transactions (mon sr)" "next_tid m' = N"
    using process_transactions [OF p] process_next_tid [OF p] assms(1) sr(5) by simp_all
  moreover have "stat_of m' (tid s) \<noteq> Some COMMITTING"
  proof
    assume c: "stat_of m' (tid s) = Some COMMITTING"
    then show False using status_origin [OF p _ _ sr(2), of "tid s"] sr(4) assms by (cases q) auto
  qed
  ultimately show "post True (\<lambda>_. open_tx who N) (\<lambda>_. open_tx who N) (ask_tpm (monitor_tpm ef clk bad who) q b s)"
    using p sr by (auto simp: ask_tpm_def monitor_tpm_def mon_ask_def Let_def tx_abort_def open_tx_def)
qed

interpretation opn: strict_law "monitor_tpm ef clk bad who" "open_tx who N" "\<lambda>_. open_tx who N"
  for ef clk bad who N
proof (unfold_locales, goal_cases)
  case (1 q b)
  then show ?case by (intro open_ask) auto
next
  case (2 s)
  show ?case by (rule restart_law [OF open_ask 2]) (simp_all add: open_tx_def)
qed (simp_all add: open_tx_def)

section \<open>Closing\<close>

definition closed :: "fd \<Rightarrow> trid_t \<Rightarrow> daemon cstate \<Rightarrow> bool" where
  "closed who N s \<longleftrightarrow> (\<exists>sr. srv s = Up sr \<and> mon_inv (mon sr) \<and>
     mfind (transactions (mon sr)) who = None \<and> next_tid (mon sr) = N)"

lemma bye_closed: "closed who N s \<Longrightarrow> fst (mon_bye bad who (files s) (srv s)) = files s"
  by (auto simp: closed_def mon_bye_def client_disconnect_def on_disk_def)

lemma bye_open: "open_tx who N s \<Longrightarrow> fst (mon_bye bad who (files s) (srv s)) = files s"
  using bye_other by (fastforce simp: open_tx_def)

lemma close_open:
  assumes "open_tx who N s" "close_connection (monitor_tpm ef clk bad who) s = Done u s'"
  shows "closed who N s' \<and> files s' = files s \<and> heap s' = heap s \<and> last_sleep s' = last_sleep s"
proof -
  obtain sr where sr: "srv s = Up sr" "mon_inv (mon sr)" "mfind (transactions (mon sr)) who = Some (tid s)"
    "stat_of (mon sr) (tid s) \<noteq> Some COMMITTING" "next_tid (mon sr) = N"
    using assms(1) by (auto simp: open_tx_def)
  let ?m = "drop_client who (tid s) (mon sr)"
  have "mon_inv ?m" by (rule drop_client_inv [OF sr(2,3)])
  then show ?thesis
    using assms(2) sr(1,5) bye_other [OF sr(2-4), of bad "files s"]
    by (auto simp: close_connection_def monitor_tpm_def closed_def on_disk_def)
qed

lemma frees_mem: "frees p \<Longrightarrow> p s = Wrong \<or> (\<exists>h. p s = Done () (s\<lparr>heap := h\<rparr>))"
  unfolding frees_def by blast

lemma frees_all: "frees (free_entries es)"
  by (induction es rule: free_entries.induct) (simp_all add: frees_skip frees_pseq frees_entry)

lemma free_entries_memory: "obeys (\<lambda>s. mem_ok (heap s)) (\<lambda>_ s. mem_ok (heap s)) (free_entries es)"
  by (induction es rule: free_entries.induct) (auto simp: free_entry_def intro!: obeys_intros memory.pieces)

text \<open>The destructor of an aborted attempt.\<close>

lemma destruct_aborted:
  assumes T: "T = monitor_tpm ef clk bad who"
    and "error_occured s" "open_tx who N s" "mem_ok (heap s)"
  shows "destruct T bd s = Wrong \<or>
    (\<exists>s'. destruct T bd s = Done () s' \<and> closed who N s' \<and> files s' = files s \<and> mem_ok (heap s') \<and>
      last_sleep s' = last_sleep s)"
proof (cases "free_entries (bmap s) s = Wrong")
  case True
  then show ?thesis using assms(2) by (simp add: destruct_def pseq_def pbind_def)
next
  case False
  then obtain h where h: "free_entries (bmap s) s = Done () (s\<lparr>heap := h\<rparr>)"
    using frees_mem [OF frees_all] by blast
  have "mem_ok h" using obeysD [OF free_entries_memory assms(4), of "bmap s"] h by simp
  moreover obtain s' where s': "close_connection T (s\<lparr>heap := h\<rparr>) = Done () s'"
    by (cases "bye T (files s) (srv s)") (simp add: close_connection_def)
  moreover have "open_tx who N (s\<lparr>heap := h\<rparr>)" using assms(3) by (simp add: open_tx_def)
  ultimately show ?thesis
    using h assms(2) close_open [of who N "s\<lparr>heap := h\<rparr>" ef clk bad "()" s']
    by (auto simp: destruct_def pseq_def pbind_def T)
qed

section \<open>Commit throws only aborts\<close>

interpretation nfc: commit_law bad "\<lambda>_. True" "\<lambda>e _. e \<noteq> Some TE_FAIL" for bad
proof (unfold_locales, goal_cases)
  case (1 a b oi ov)
  show ?case
  proof (rule obeysI)
    fix s :: "'a cstate"
    show "post True (\<lambda>_ _. True) (\<lambda>e _. e \<noteq> Some TE_FAIL) (tx_log bad a b oi ov s)"
      using tx_log_run [of bad a b oi ov s] by auto
  qed
qed (rule obeysI, auto simp: put_index_def put_store_def tx_deref_def tx_abort_def split: outcome.split)+

lemma commit_throws: "obeys (\<lambda>_. True) (\<lambda>e _. e \<noteq> Some TE_FAIL) (commit T bad)"
proof -
  have th: "obeys (\<lambda>_. True) (\<lambda>e _. e \<noteq> Some TE_FAIL) throw_abort"
    by (rule obeysI) (simp add: throw_abort_def)
  show ?thesis unfolding commit_unfold
    by (intro obeys_intros ask_throws nf.pieces nfc.logging_phase th)
qed

section \<open>One attempt\<close>

text \<open>Every record of the log is older than the next transaction number.\<close>

definition log_older :: "trid_t \<Rightarrow> disk \<Rightarrow> bool" where
  "log_older N d \<longleftrightarrow> (\<forall>r \<in> set (log_f d). lr_tid r < N)"

text \<open>
  The datastore once the monitor has noticed that the process is gone: what the body makes of \<open>d\<close>, or,
  unless the program went past \<open>End(T)\<close>, \<open>d\<close> itself.
\<close>

definition serial_or_nothing :: "script \<Rightarrow> disk \<Rightarrow> fd \<Rightarrow> bool \<Rightarrow> daemon cstate \<Rightarrow> bool" where
  "serial_or_nothing scr d who done s' \<longleftrightarrow>
     (let d' = fst (mon_bye no_faults who (files s') (srv s')) in
      (\<exists>\<sigma>. runs_to scr (store_view d) \<sigma> \<and> (\<forall>b. store_view d' b = \<sigma> b)) \<or>
      (\<not> done \<and> (\<forall>b. store_view d' b = store_view d b)))"

lemma nothing_done:
  "closed who N s' \<Longrightarrow> files s' = d \<Longrightarrow> serial_or_nothing scr d who False s'"
  "open_tx who N s' \<Longrightarrow> files s' = d \<Longrightarrow> serial_or_nothing scr d who False s'"
  using bye_closed [of who N s' no_faults] bye_open [of who N s' no_faults]
  by (simp_all add: serial_or_nothing_def)

definition attempt_start :: "fd \<Rightarrow> trid_t \<Rightarrow> disk \<Rightarrow> daemon cstate \<Rightarrow> bool" where
  "attempt_start who N d s \<longleftrightarrow> closed who N s \<and> files s = d \<and> files_ok d \<and> mem_ok (heap s) \<and> log_older N d"

lemma construct_ends:
  assumes "attempt_start who N d s" "N \<noteq> -1"
  shows "(\<exists>s1. construct (monitor_tpm ef clk bad who) bd p s = Quit s1 \<and> closed who N s1 \<and> files s1 = d) \<or>
    (\<exists>s1. construct (monitor_tpm ef clk bad who) bd p s = Done () s1 \<and> open_tx who (N + 1) s1 \<and>
       client_ok s1 \<and> lfd s1 = 0 \<and> \<not> error_occured s1 \<and> files s1 = d \<and> view s1 = store_view d \<and>
       last_sleep s1 = last_sleep s \<and> fresh_tid s1)"
proof -
  obtain sr where sr: "srv s = Up sr" "mon_inv (mon sr)" "mfind (transactions (mon sr)) who = None"
    "next_tid (mon sr) = N"
    using assms(1) by (auto simp: attempt_start_def closed_def)
  let ?c = "construct (monitor_tpm ef clk bad who) bd p s"
  let ?s0 = "s\<lparr>tid := 0, pid := p, error_occured := False, last_free_block := 0, bmap := mempty, lfd := 0\<rparr>"
  have "?c = Quit ?s0 \<or> (\<exists>s1. ?c = Done () s1)"
    using sr(1) by (auto simp: construct_def Let_def pbind_def ask_tpm_def monitor_tpm_def mon_ask_def
        process_clientrq_def dispatch_rq_def begin_rq_def)
  then show ?thesis
  proof (elim disjE exE)
    assume "?c = Quit ?s0"
    then show ?thesis using assms(1) by (auto simp: attempt_start_def closed_def)
  next
    fix s1 assume c: "?c = Done () s1"
    from sr(1,2) c obtain m' where m': "next_tid m' = N + 1" "stat_of m' N = Some BEGUN" "tid s1 = N"
      "srv s1 = Up (sr\<lparr>mon := m'\<rparr>)" "last_sleep s1 = last_sleep s"
      by (rule construct_eq) (use sr(4) in auto)
    have cd: "client_ok s1 \<and> lfd s1 = 0 \<and> \<not> error_occured s1 \<and> served who s1 \<and> files s1 = files s \<and>
        view s1 = store_view (files s)"
      by (rule construct_Done [OF c sr(1-3)]) (use sr(4) assms in \<open>auto simp: attempt_start_def\<close>)
    then have "open_tx who (N + 1) s1" using m' by (auto simp: open_tx_def served_def)
    moreover have "fresh_tid s1" using cd m'(3) assms(1)
      by (auto simp: fresh_tid_def attempt_start_def log_older_def)
    ultimately show ?thesis using c cd m'(5) assms(1) by (simp add: attempt_start_def)
  qed
qed

text \<open>The destructor at the end of a body.\<close>

lemma destruct_commits:
  assumes sv: "served who s2" and ok: "client_ok s2" "lfd s2 = 0" and e: "\<not> error_occured s2" and fr: "fresh_tid s2"
    and f: "final (destruct (monitor_tpm ef clk no_faults who) bd s2) = Some s'"
    and bye: "mon_bye no_faults who (files s') (srv s') = (d', dm)"
  shows "left_over s2 d' \<and> ((\<forall>b. store_view d' b = view s2 b) \<or>
      (\<forall>u. destruct (monitor_tpm ef clk no_faults who) bd s2 \<noteq> Done u s') \<and>
      (\<forall>b. store_view d' b = store_view (files s2) b)) \<and>
    destruct (monitor_tpm ef clk no_faults who) bd s2 \<noteq> Throw TE_FAIL s' \<and>
    destruct (monitor_tpm ef clk no_faults who) bd s2 \<noteq> Throw TE_RESTART s'"
proof -
  let ?T = "monitor_tpm ef clk no_faults who"
  let ?rest = "pseq (\<lambda>s. free_entries (bmap s) s) (close_connection ?T)"
  have de: "destruct ?T bd s2 = pseq (commit ?T bd) ?rest s2"
    using e by (simp add: destruct_def pseq_def pbind_def)
  have stops: "all_or_nothing s2 who s'" if "final (commit ?T bd s2) = Some s'"
    using commit_atomic [OF ok fr sv that] .
  show ?thesis
  proof (cases "commit ?T bd s2")
    case c: (Done u s3)
    note cd = commit_Done [OF c ok sv]
    obtain h where h: "?rest s3 = close_connection ?T (s3\<lparr>heap := h\<rparr>)"
      using frees_mem [OF frees_all, of "bmap s3" s3] f by (auto simp: de c pseq_def pbind_def)
    obtain N where o: "open_tx who N (s3\<lparr>heap := h\<rparr>)"
      using cd by (auto simp: served_def open_tx_def)
    obtain u' where d: "close_connection ?T (s3\<lparr>heap := h\<rparr>) = Done u' s'"
      using f h by (cases "bye ?T (files s3) (srv s3)") (auto simp: de c pseq_Done close_connection_def)
    have "closed who N s'" "files s' = files s3" using close_open [OF o d] by simp_all
    then have "d' = files s3" using bye_closed [of who _ s' no_faults] bye by simp
    then show ?thesis using cd d h c by (simp add: de pseq_Done)
  next
    case (Throw ex s3)
    then have t: "s' = s3" "destruct ?T bd s2 = Throw ex s'" using f by (simp_all add: de pseq_def pbind_def)
    moreover have "ex \<noteq> TE_FAIL" using obeysD [OF commit_throws TrueI, of ?T bd s2] Throw by simp
    moreover have "ex \<noteq> TE_RESTART"
      using settledD [OF settled_commit, of "last_sleep s2" "sleeps s2" s2 ?T bd] Throw by (simp add: slp_def)
    ultimately show ?thesis using stops Throw bye by (auto simp: all_or_nothing_def Let_def)
  next
    case (Quit s3)
    then have "s' = s3" "destruct ?T bd s2 = Quit s'" using f by (simp_all add: de pseq_def pbind_def)
    then show ?thesis using stops Quit bye by (auto simp: all_or_nothing_def Let_def)
  qed (use f in \<open>simp_all add: de pseq_def pbind_def\<close>)
qed

lemma commit_attempt:
  assumes "served who s2" "client_ok s2" "lfd s2 = 0" "\<not> error_occured s2" "fresh_tid s2"
    and "runs_to scr (store_view d) (view s2)" "files s2 = d"
    and f: "final (destruct (monitor_tpm ef clk no_faults who) bd s2) = Some s'"
  shows "serial_or_nothing scr d who (\<exists>u. destruct (monitor_tpm ef clk no_faults who) bd s2 = Done u s') s' \<and>
    destruct (monitor_tpm ef clk no_faults who) bd s2 \<noteq> Throw TE_FAIL s' \<and>
    destruct (monitor_tpm ef clk no_faults who) bd s2 \<noteq> Throw TE_RESTART s'"
proof -
  obtain d' dm where b: "mon_bye no_faults who (files s') (srv s') = (d', dm)" by fastforce
  show ?thesis using destruct_commits [OF assms(1-5) f b] assms(6,7) b
    by (auto simp: serial_or_nothing_def Let_def)
qed

text \<open>
  An attempt asks for a restart only in a state from which the next one can start, and any other end
  is one of the two of \<open>serial_or_nothing\<close>.
\<close>

lemma attempt:
  fixes scr bd p ef clk who
  defines "T \<equiv> monitor_tpm ef clk no_faults who"
  assumes st: "attempt_start who N d s" "N \<noteq> -1" and pos: "positive scr"
    and f: "final (run_once T bd p (exec T bd scr) s) = Some s'"
  shows "run_once T bd p (exec T bd scr) s \<noteq> Throw TE_FAIL s' \<and>
    (if run_once T bd p (exec T bd scr) s = Throw TE_RESTART s'
     then closed who (N + 1) s' \<and> files s' = d \<and> mem_ok (heap s')
     else serial_or_nothing scr d who (\<exists>u. run_once T bd p (exec T bd scr) s = Done u s') s')"
  using construct_ends [OF st, of ef clk no_faults bd p]
proof (elim disjE exE conjE)
  fix s1 assume "construct (monitor_tpm ef clk no_faults who) bd p s = Quit s1" "closed who N s1" "files s1 = d"
  then show ?thesis using f
    by (auto simp: run_once_def pseq_def pbind_def T_def intro: nothing_done)
next
  fix s1
  assume c: "construct (monitor_tpm ef clk no_faults who) bd p s = Done () s1" and o1: "open_tx who (N + 1) s1"
    and ok: "client_ok s1" "lfd s1 = 0" "\<not> error_occured s1" "files s1 = d" "view s1 = store_view d"
      "fresh_tid s1"
  let ?x = "exec T bd scr s1"
  have ro: "run_once T bd p (exec T bd scr) s = (case ?x of
         Done _ s1 \<Rightarrow> destruct T bd s1
       | Throw e s1 \<Rightarrow> (case destruct T bd s1 of
              Done _ s2 \<Rightarrow> Throw e s2 | Throw _ s2 \<Rightarrow> Quit s2
            | Quit s2 \<Rightarrow> Quit s2 | Wrong \<Rightarrow> Wrong | Loop \<Rightarrow> Loop)
       | Quit s1 \<Rightarrow> Quit s1 | Wrong \<Rightarrow> Wrong | Loop \<Rightarrow> Loop)"
    using c [folded T_def] by (simp add: run_once_def pseq_def pbind_def)
  have op: "post True (\<lambda>_. open_tx who (N + 1)) (\<lambda>_. open_tx who (N + 1)) ?x"
    unfolding T_def by (rule obeysD [OF opn.executing o1])
  have qt: "quiet_tpm T" unfolding T_def by (rule mq.quiet_tpm_axioms)
  note fr = quiet_tpm.exec_defers_writes [OF qt, of bd scr s1]
  show ?thesis
  proof (cases ?x)
    case (Done u s2)
    have "served who s1" using o1 by (auto simp: open_tx_def served_def)
    then have sv: "served who s2" using obeys_returns [OF serve.executing _ Done [unfolded T_def]] by blast
    have r: "runs_to scr (store_view d) (view s2)" "client_ok s2"
      using quiet_tpm.exec_refines [OF qt Done ok(1)] ok(5) by simp_all
    have e: "\<not> error_occured s2" using obeys_returns [OF clean.executing _ Done, of False] ok(3) by simp
    have f2: "files s2 = d" "lfd s2 = 0" "tid s2 = tid s1" using fr Done ok by simp_all
    then have "fresh_tid s2" using ok(4,6) by (simp add: fresh_tid_def)
    moreover have "run_once T bd p (exec T bd scr) s = destruct T bd s2" using ro Done by simp
    ultimately show ?thesis
      using commit_attempt [OF sv r(2) f2(2) e _ r(1) f2(1)] f by (simp add: T_def)
  next
    case (Throw e s2)
    have fl: "error_occured s2" by (rule quiet_tpm.exec_throws_flagged [OF qt Throw pos ok(1)])
    have o2: "open_tx who (N + 1) s2" using op Throw by simp
    have "mem_ok (heap s1)" using client_okD(1) [OF ok(1)] .
    then have m2: "mem_ok (heap s2)" using obeysD [OF memory.executing, of s1 T bd scr] Throw by simp
    have "e \<noteq> TE_FAIL" using obeysD [OF nf.executing TrueI, of T bd scr s1] Throw by simp
    moreover have "files s2 = d" using fr Throw ok(4) by simp
    ultimately show ?thesis
      using destruct_aborted [OF T_def [THEN meta_eq_to_obj_eq] fl o2 m2, of bd] ro Throw f
      by (auto intro: nothing_done)
  next
    case (Quit s2)
    then have "files s2 = d" "open_tx who (N + 1) s2" using fr op ok(4) by simp_all
    then show ?thesis using ro Quit f by (auto intro: nothing_done)
  qed (use ro f in simp_all)
qed

section \<open>The loop\<close>

text \<open>Room for the remaining attempts, and the state in which the next one starts.\<close>

definition tries_left :: "trid_t \<Rightarrow> 'm cstate \<Rightarrow> bool" where
  "tries_left N s \<longleftrightarrow> unat N + (6 - unat (last_sleep s)) < 2 ^ 64 - 1"

lemma tries_left_number: "tries_left N s \<Longrightarrow> N \<noteq> -1"
proof
  assume "tries_left N s" "N = -1"
  moreover have "unat (-1 :: trid_t) = 2 ^ 64 - 1" by (simp add: unsigned_minus_1_eq_mask mask_eq_exp_minus_1)
  ultimately show False by (simp add: tries_left_def)
qed

lemma next_attempt:
  fixes scr bd p ef clk who
  defines "T \<equiv> monitor_tpm ef clk no_faults who"
  assumes st: "attempt_start who N d s" "tries_left N s" and pos: "positive scr"
    and rs: "run_once T bd p (exec T bd scr) s = Throw TE_RESTART s1"
  shows "attempt_start who (N + 1) d s1 \<and> tries_left (N + 1) s1 \<and>
    6 - unat (last_sleep s1) < 6 - unat (last_sleep s)"
proof -
  have N: "N \<noteq> -1" by (rule tries_left_number [OF st(2)])
  have c: "closed who (N + 1) s1" "files s1 = d" "mem_ok (heap s1)"
    using attempt [OF st(1) N pos, of ef clk bd p s1, folded T_def] rs by simp_all
  have ls: "unat (last_sleep s) < 6" "last_sleep s1 = last_sleep s + 1"
    using run_once_pace [OF paced_exec, of "last_sleep s" "sleeps s" s T bd p T bd scr] rs
    by (simp_all add: slp_def)
  have u: "unat (last_sleep s1) = Suc (unat (last_sleep s))" using ls by (simp add: unat_Suc_small)
  have "1 + N \<noteq> 0" using N by (simp add: add_eq_0_iff)
  from unatSuc [OF this] have n: "unat (N + 1) = Suc (unat N)" by (simp add: add.commute)
  have "log_older (N + 1) d"
    using st(1) N by (auto simp: attempt_start_def log_older_def intro!: word_less_add_one less_imp_le)
  then have "attempt_start who (N + 1) d s1" using c st by (simp add: attempt_start_def)
  moreover have e: "6 - unat (last_sleep s) = Suc (6 - unat (last_sleep s1))" using ls(1) u by simp
  then have "tries_left (N + 1) s1" using st(2) n by (simp add: tries_left_def)
  ultimately show ?thesis using e by simp
qed

theorem loop_serial_or_nothing:
  fixes scr bd p ef clk who
  defines "T \<equiv> monitor_tpm ef clk no_faults who"
  assumes "attempt_start who N d s" "tries_left N s" "positive scr"
    and "transaction_loop T bd p (exec T bd scr) s = Some r" "final r = Some s'"
  shows "serial_or_nothing scr d who (\<exists>u. r = Done u s') s'"
  using assms(2,3,5,6)
proof (induction "6 - unat (last_sleep s)" arbitrary: s N rule: less_induct)
  case less
  have N: "N \<noteq> -1" by (rule tries_left_number [OF less.prems(2)])
  let ?r = "run_once T bd p (exec T bd scr) s"
  note at = attempt [OF less.prems(1) N assms(4), of ef clk bd p, folded T_def]
  have unf: "(case ?r of
        Throw e s1 \<Rightarrow> (case e of TE_RESTART \<Rightarrow> transaction_loop T bd p (exec T bd scr) s1
           | TE_ABORT \<Rightarrow> Some (Quit s1) | TE_FAIL \<Rightarrow> Some (Done () s1))
      | Done x s1 \<Rightarrow> Some (Done x s1)
      | Quit s1 \<Rightarrow> Some (Quit s1) | Wrong \<Rightarrow> Some Wrong | Loop \<Rightarrow> Some Loop) = Some r"
    using less.prems(3) by (simp add: transaction_loop.simps [of T bd p "exec T bd scr" s])
  show ?case
  proof (cases "\<exists>s1. ?r = Throw TE_RESTART s1")
    case True
    then obtain s1 where s1: "?r = Throw TE_RESTART s1" by blast
    have "transaction_loop T bd p (exec T bd scr) s1 = Some r" using unf s1 by simp
    then show ?thesis
      using less.hyps [of s1 "N + 1"] less.prems(4)
        next_attempt [OF less.prems(1,2) assms(4), of ef clk bd p s1, folded T_def] s1 by simp
  next
    case False
    show ?thesis
    proof (cases ?r)
      case (Throw e s1)
      then have "e = TE_ABORT" using False at [of s1] by (cases e) auto
      then show ?thesis using unf Throw at [of s1] less.prems(4) by auto
    next
      case (Done u s1)
      have r: "r = Done u s1" using unf unfolding Done by simp
      then have "s1 = s'" using less.prems(4) by simp
      then show ?thesis using Done at [of s'] r by auto
    next
      case (Quit s1)
      have r: "r = Quit s1" using unf unfolding Quit by simp
      then have "s1 = s'" using less.prems(4) by simp
      then show ?thesis using Quit at [of s'] r by auto
    qed (use unf less.prems(4) in auto)
  qed
qed

end
