(* ===== verification/TestPrograms.thy ===== *)
theory TestPrograms
  imports Attempts
begin

text \<open>
  The programs \<open>st1\<close> ... \<open>st5\<close> and \<open>ct1\<close> ... \<open>ct3\<close> that ship with the library, as scripts. Theory Console
  adds what they print and the \<open>sleep\<close> calls of the \<open>ct\<close> programs; \<open>block_of c\<close> is a buffer filled with
  \<open>memset\<close>.
\<close>

definition block_of :: "char \<Rightarrow> byte list" where
  "block_of c = replicate BLOCKSIZE (of_char c)"

lemma block_of_ok [simp]: "is_block (block_of c)"
  by (simp add: block_of_def is_block_def)

fun allocs :: "nat \<Rightarrow> script" where
  "allocs 0 = Finish"
| "allocs (Suc n) = Alloc (\<lambda>_. allocs n)"

definition st1 :: script where
  "st1 = allocs 5"

definition st2 :: script where
  "st2 = Alloc (\<lambda>b. ReadB 1 (\<lambda>_. WriteB b (block_of (CHR ''B'')) (\<lambda>_. ReadB b (\<lambda>_. Finish))))"

definition st3 :: script where
  "st3 = WriteB 1 (block_of (CHR ''C'')) (\<lambda>_. Alloc (\<lambda>nb1. Alloc (\<lambda>nb2.
     WriteB nb1 (block_of (CHR ''D'')) (\<lambda>_. WriteB nb2 (block_of (CHR ''E'')) (\<lambda>_.
     ReleaseB 5 (ReleaseB nb2 (ReadB nb1 (\<lambda>_. WriteB 2 (block_of (CHR ''K'')) (\<lambda>_. Finish)))))))))"

definition st4 :: script where
  "st4 = ReadB 2 (\<lambda>_. ReadB 3 (\<lambda>_. WriteB 2 (block_of (CHR ''F'')) (\<lambda>_. Finish)))"

definition st5 :: script where
  "st5 = ReadB 2 (\<lambda>_. ReadB 3 (\<lambda>_. WriteB 2 (block_of (CHR ''Z'')) (\<lambda>_. AbortT)))"

definition ct1 :: script where
  "ct1 = ReadB 2 (\<lambda>_. ReadB 3 (\<lambda>_. WriteB 1 (block_of (CHR ''G'')) (\<lambda>_. Finish)))"

definition ct2 :: script where
  "ct2 = ReadB 2 (\<lambda>_. ReadB 3 (\<lambda>_. Finish))"

definition ct3 :: script where
  "ct3 = WriteB 1 (block_of (CHR ''H'')) (\<lambda>_. WriteB 2 (block_of (CHR ''I'')) (\<lambda>_. Finish))"

text \<open>\<open>st2\<close> runs its transaction twice in one process.\<close>

definition st2_main ::
  "'m tpm \<Rightarrow> env \<Rightarrow> pid_t \<Rightarrow> 'm cstate \<Rightarrow> (TransactionException, unit, 'm cstate) run option" where
  "st2_main T bad p s =
     (case transaction_loop T bad p (exec T bad st2) s of
        Some (Done _ s1) \<Rightarrow> transaction_loop T bad p (exec T bad st2) s1
      | r \<Rightarrow> r)"

lemma positive_allocs: "positive (allocs n)"
  by (induction n) simp_all

lemma test_programs_positive [simp]:
  "positive st1" "positive st2" "positive st3" "positive st4" "positive st5" "positive ct1" "positive ct2"
  "positive ct3"
  by (simp_all add: st1_def positive_allocs st2_def st3_def st4_def st5_def ct1_def ct2_def ct3_def)

section \<open>What they do to a map of blocks\<close>

lemma runs_to_allocs:
  "runs_to (allocs n) \<sigma> \<sigma>' \<Longrightarrow> \<exists>B. card B = n \<and> finite B \<and> (\<forall>b \<in> B. \<sigma> b = None) \<and>
     \<sigma>' = (\<lambda>b. if b \<in> B then Some zeros else \<sigma> b)"
proof (induction n arbitrary: \<sigma>)
  case 0
  then show ?case by (intro exI [of _ "{}"]) (auto elim: runs_toE)
next
  case (Suc n)
  then obtain b where b: "\<sigma> b = None" "runs_to (allocs n) (\<sigma>(b \<mapsto> zeros)) \<sigma>'"
    by (auto elim: runs_toE)
  from Suc.IH [OF b(2)] obtain B where B: "card B = n" "finite B" "\<forall>x \<in> B. (\<sigma>(b \<mapsto> zeros)) x = None"
    "\<sigma>' = (\<lambda>x. if x \<in> B then Some zeros else (\<sigma>(b \<mapsto> zeros)) x)"
    by blast
  then have "b \<notin> B" by auto
  then show ?case using B b(1) by (intro exI [of _ "insert b B"]) (auto split: if_splits)
qed

lemma runs_to_st1: "runs_to st1 \<sigma> \<sigma>' \<Longrightarrow> \<exists>B. card B = 5 \<and> (\<forall>b \<in> B. \<sigma> b = None) \<and>
    \<sigma>' = (\<lambda>b. if b \<in> B then Some zeros else \<sigma> b)"
  unfolding st1_def using runs_to_allocs by blast

lemma runs_to_st3:
  assumes "runs_to st3 \<sigma> \<sigma>'"
  shows "\<exists>nb. nb \<noteq> 1 \<and> nb \<noteq> 5 \<and> \<sigma> nb = None \<and> \<sigma> 1 \<noteq> None \<and>
    \<sigma>' = \<sigma>(1 \<mapsto> block_of (CHR ''C''), nb \<mapsto> block_of (CHR ''D''), 5 := None, 2 \<mapsto> block_of (CHR ''K''))"
proof -
  define C D E K where "C = block_of (CHR ''C'')" "D = block_of (CHR ''D'')" "E = block_of (CHR ''E'')"
    "K = block_of (CHR ''K'')"
  let ?r = "\<lambda>nb nb2. \<sigma>(1 \<mapsto> C, nb \<mapsto> zeros, nb2 \<mapsto> zeros, nb \<mapsto> D, nb2 \<mapsto> E, 5 := None, nb2 := None)"
  obtain nb nb2 where f: "\<sigma> 1 \<noteq> None" "(\<sigma>(1 \<mapsto> C)) nb = None" "(\<sigma>(1 \<mapsto> C, nb \<mapsto> zeros)) nb2 = None"
    "?r nb nb2 nb \<noteq> None" "?r nb nb2 2 \<noteq> None" "\<sigma>' = (?r nb nb2)(2 \<mapsto> K)"
    using assms unfolding st3_def C_D_E_K_def by (elim runs_toE) (metis option.distinct(1))
  then have ne: "nb \<noteq> 1" "nb2 \<noteq> 1" "nb2 \<noteq> nb" "nb \<noteq> 5" "nb2 \<noteq> 2" "\<sigma> nb = None" "\<sigma> nb2 = None"
    by (auto split: if_splits)
  have "\<sigma>' x = (\<sigma>(1 \<mapsto> C, nb \<mapsto> D, 5 := None, 2 \<mapsto> K)) x" for x
    using ne unfolding f(6) by simp
  then show ?thesis using ne f(1) unfolding C_D_E_K_def by blast
qed

lemma runs_to_st4:
  "runs_to st4 \<sigma> \<sigma>' \<Longrightarrow> \<sigma> 2 \<noteq> None \<and> \<sigma> 3 \<noteq> None \<and> \<sigma>' = \<sigma>(2 \<mapsto> block_of (CHR ''F''))"
  unfolding st4_def by (elim runs_toE) auto

lemma runs_to_st5: "\<not> runs_to st5 \<sigma> \<sigma>'"
  unfolding st5_def by (auto elim!: runs_toE)

lemma runs_to_ct3:
  "runs_to ct3 \<sigma> \<sigma>' \<Longrightarrow> \<sigma> 1 \<noteq> None \<and> \<sigma> 2 \<noteq> None \<and> \<sigma>' = \<sigma>(1 \<mapsto> block_of (CHR ''H''), 2 \<mapsto> block_of (CHR ''I''))"
  unfolding ct3_def by (elim runs_toE) auto

end
