(* ===== verification/Console.thy ===== *)
theory Console
  imports TestPrograms
begin

text \<open>
  The test programs with their terminal: what each prints to \<open>cout\<close> between its calls, the pauses, and
  the notice of a restart. \<open>program\<close> is a script with output, \<open>erase\<close> forgets the output, \<open>talk\<close> runs the
  body with the library and returns what appeared on the terminal besides. \<open>prints\<close> is the meaning on a
  map of blocks.
\<close>

section \<open>Programs\<close>

datatype console = Shown string | Slept nat

datatype program = Over
  | Say string program
  | Pause nat program
  | AllocP "int \<Rightarrow> program"
  | ReadP block_no "byte list \<Rightarrow> program"
  | WriteP block_no "byte list" "byte list \<Rightarrow> program"
  | ReleaseP block_no program
  | AbortP

primrec erase :: "program \<Rightarrow> script" where
  "erase Over = Finish"
| "erase (Say x k) = erase k"
| "erase (Pause n k) = erase k"
| "erase (AllocP k) = Alloc (\<lambda>b. erase (k b))"
| "erase (ReadP b k) = ReadB b (\<lambda>v. erase (k v))"
| "erase (WriteP b new k) = WriteB b new (\<lambda>old. erase (k old))"
| "erase (ReleaseP b k) = ReleaseB b (erase k)"
| "erase AbortP = AbortT"

text \<open>\<open>cout << ... << endl\<close>, and the two versions of \<open>print_block\<close>.\<close>

definition endl :: "string \<Rightarrow> string" where
  "endl x = x @ [NL]"

definition print_block :: "byte list \<Rightarrow> string" where
  "print_block t = endl (map (\<lambda>c. char_of (unat c)) t)"

definition print_block_info :: "byte list \<Rightarrow> string" where
  "print_block_info t = endl ''block info:'' @ print_block t"

fun st1_loop :: "nat \<Rightarrow> program" where
  "st1_loop 0 = Over"
| "st1_loop (Suc n) = AllocP (\<lambda>b. Say (endl (''Allocated block #'' @ dec_int b)) (st1_loop n))"

definition st1_program :: program where
  "st1_program = st1_loop 5"

definition st2_program :: program where
  "st2_program =
     AllocP (\<lambda>b. Say (endl ''Reading block #1'') (ReadP 1 (\<lambda>t. Say (print_block t)
     (Say (endl (''writing a string to newly allocated block '' @ dec_int b))
     (WriteP b (block_of (CHR ''B'')) (\<lambda>_. Say (endl ''Now reading the newly allocate block back'')
     (ReadP b (\<lambda>t. Say (print_block t) Over))))))))"

definition st3_program :: program where
  "st3_program =
     Say (endl ''writing block #1 as CCC..'') (WriteP 1 (block_of (CHR ''C'')) (\<lambda>oldval.
     Say (endl ''Block 1 previously was: '') (Say (print_block oldval)
     (AllocP (\<lambda>nb1. Say (endl (''Allocated block # '' @ dec_int nb1))
     (AllocP (\<lambda>nb2. Say (endl (''Allocated block # '' @ dec_int nb2))
     (Say (endl (''Writing '' @ dec_int nb1 @ '' as DDD.. '')) (WriteP nb1 (block_of (CHR ''D'')) (\<lambda>_.
     Say (endl (''Writing '' @ dec_int nb2 @ '' as EEE.. '')) (WriteP nb2 (block_of (CHR ''E'')) (\<lambda>_.
     Say (endl ''Releasing block 5'') (ReleaseP 5
     (Say (endl (''(Release after allocate) Releasing block '' @ dec_int nb2)) (ReleaseP nb2
     (Say (endl (''(Read after write) Reading block '' @ dec_int nb1)) (ReadP nb1 (\<lambda>t. Say (print_block t)
     (Say (endl ''Writing block #2'') (WriteP 2 (block_of (CHR ''K'')) (\<lambda>_. Over)))))))))))))))))))))"

text \<open>The first part of \<open>st4\<close> and \<open>st5\<close>.\<close>

definition st4_program :: program where
  "st4_program =
     Say (endl ''Reading block 2'') (ReadP 2 (\<lambda>t. Say (print_block_info t)
     (Say (endl ''Reading block 3'') (ReadP 3 (\<lambda>t. Say (print_block_info t)
     (Say (endl ''writing FFF.. to block 2'') (WriteP 2 (block_of (CHR ''F'')) (\<lambda>oldval.
     Say (endl ''Block 2 previously was: '') (Say (print_block_info oldval) Over)))))))))"

definition st5_program :: program where
  "st5_program =
     Say (endl ''Reading block 2'') (ReadP 2 (\<lambda>t. Say (print_block_info t)
     (Say (endl ''Reading block 3'') (ReadP 3 (\<lambda>t. Say (print_block_info t)
     (Say (endl ''writing ZZZZ... to block 2'') (WriteP 2 (block_of (CHR ''Z'')) (\<lambda>oldval.
     Say (endl ''Block 2 previously was: '') (Say (print_block_info oldval)
     (Say (endl ''Now aborting tranasction..'') AbortP))))))))))"

definition ct1_program :: program where
  "ct1_program =
     Say (endl ''ct1.cc: Reading block 2'') (ReadP 2 (\<lambda>t. Say (print_block t)
     (Say (endl ''ct1.cc: Reading block 3'') (ReadP 3 (\<lambda>t. Say (print_block t)
     (Say (endl ''ct1.cc: Now writing GGG.. to block 1'') (WriteP 1 (block_of (CHR ''G'')) (\<lambda>oldval.
     Say (endl ''ct1.cc: Block 1 previously was: '') (Say (print_block oldval) (Pause 2 Over))))))))))"

definition ct2_program :: program where
  "ct2_program =
     Say (endl ''ct2.cc: Now reading block 2'') (ReadP 2 (\<lambda>t. Say (print_block t)
     (Say (endl ''ct2.cc: Now reading block 3'') (ReadP 3 (\<lambda>t. Say (print_block t) (Pause 20 Over))))))"

definition ct3_program :: program where
  "ct3_program =
     Say (endl ''ct3.cc: Asking to write block #1'') (WriteP 1 (block_of (CHR ''H'')) (\<lambda>_.
     Say (endl ''ct3.cc: Block 1 written'')
     (Say (endl ''ct3.cc: Asking to write 2'') (WriteP 2 (block_of (CHR ''I'')) (\<lambda>_.
     Say (endl ''ct3.cc: Block 2 written'') Over)))))"

lemma erase_st1_loop: "erase (st1_loop n) = allocs n"
  by (induction n) simp_all

lemma erase_programs [simp]:
  "erase st1_program = st1" "erase st2_program = st2" "erase st3_program = st3" "erase st4_program = st4"
  "erase st5_program = st5" "erase ct1_program = ct1" "erase ct2_program = ct2" "erase ct3_program = ct3"
  by (simp_all add: st1_program_def erase_st1_loop st1_def st2_program_def st2_def st3_program_def st3_def
      st4_program_def st4_def st5_program_def st5_def ct1_program_def ct1_def ct2_program_def ct2_def
      ct3_program_def ct3_def)

section \<open>Running a program\<close>

text \<open>A result together with the terminal; a call that does not return shows nothing more.\<close>

type_synonym 'm shown_run = "(TransactionException, unit, 'm cstate) run \<times> console list"

definition then_show :: "('a, 'm) cprog \<Rightarrow> ('a \<Rightarrow> 'm cstate \<Rightarrow> 'm shown_run) \<Rightarrow> 'm cstate \<Rightarrow> 'm shown_run" where
  "then_show p k s =
     (case p s of Done x s1 \<Rightarrow> k x s1 | Throw e s1 \<Rightarrow> (Throw e s1, []) | Quit s1 \<Rightarrow> (Quit s1, [])
      | Wrong \<Rightarrow> (Wrong, []) | Loop \<Rightarrow> (Loop, []))"

primrec talk :: "'m tpm \<Rightarrow> env \<Rightarrow> program \<Rightarrow> 'm cstate \<Rightarrow> 'm shown_run" where
  "talk T bad Over s = (Done () s, [])"
| "talk T bad (Say x k) s = (let (r, os) = talk T bad k s in (r, Shown x # os))"
| "talk T bad (Pause n k) s = (let (r, os) = talk T bad k s in (r, Slept n # os))"
| "talk T bad (AllocP k) s = then_show (allocate T bad) (\<lambda>b. talk T bad (k b)) s"
| "talk T bad (ReadP b k) s = then_show (pbind (tx_read T bad b) tx_deref) (\<lambda>v. talk T bad (k v)) s"
| "talk T bad (WriteP b new k) s =
     (if is_block new then then_show (tx_write T bad b new) (\<lambda>old. talk T bad (k old)) s else (Wrong, []))"
| "talk T bad (ReleaseP b k) s = then_show (tx_release T bad b) (\<lambda>_. talk T bad k) s"
| "talk T bad AbortP s = (tx_abort s, [])"

lemma talk_erases: "fst (talk T bad p s) = exec T bad (erase p) s"
  by (induction p arbitrary: s)
    (auto simp: then_show_def pbind_def pseq_def tx_abort_def split_def Let_def split: run.split)

text \<open>One pass through \<open>Begin(T) ... End(T)\<close>, and the loop.\<close>

definition show_once :: "'m tpm \<Rightarrow> env \<Rightarrow> pid_t \<Rightarrow> program \<Rightarrow> 'm cstate \<Rightarrow> 'm shown_run" where
  "show_once T bad p prg s =
     (run_once T bad p (exec T bad (erase prg)) s,
      case construct T bad p s of Done _ s1 \<Rightarrow> snd (talk T bad prg s1) | _ \<Rightarrow> [])"

partial_function (option) show_loop ::
  "'m tpm \<Rightarrow> env \<Rightarrow> pid_t \<Rightarrow> program \<Rightarrow> 'm cstate \<Rightarrow> 'm shown_run option" where
  "show_loop T bad p prg s =
     (case show_once T bad p prg s of
        (r, os) \<Rightarrow> (case r of
            Throw e s1 \<Rightarrow>
              (case e of
                 TE_RESTART \<Rightarrow>
                   Option.bind (show_loop T bad p prg s1) (\<lambda>(r', os').
                     Some (r', os @ Shown (endl ''Restarting transaction...'') # os'))
               | TE_ABORT \<Rightarrow> Some (Quit s1, os)
               | TE_FAIL \<Rightarrow> Some (Done () s1, os))
          | Done x s1 \<Rightarrow> Some (Done x s1, os)
          | Quit s1 \<Rightarrow> Some (Quit s1, os) | Wrong \<Rightarrow> Some (Wrong, os) | Loop \<Rightarrow> Some (Loop, os)))"

lemma loop_shows: "map_option fst (show_loop T bad p prg s) = transaction_loop T bad p (exec T bad (erase prg)) s"
proof (induction "6 - unat (last_sleep s)" arbitrary: s rule: less_induct)
  case less
  show ?case
  proof (cases "run_once T bad p (exec T bad (erase prg)) s")
    case (Throw e s1)
    show ?thesis
    proof (cases e)
      case TE_RESTART
      have "6 - unat (last_sleep s1) < 6 - unat (last_sleep s)"
        using run_once_pace [OF paced_exec, of "last_sleep s" "sleeps s" s T bad p T bad "erase prg"] Throw TE_RESTART
        by (auto simp: slp_def unat_Suc_small)
      from less [OF this] show ?thesis
        using Throw TE_RESTART
        by (auto simp: show_loop.simps [of T bad p prg s] transaction_loop.simps [of T bad p _ s] show_once_def
            split_def map_option_case split: option.splits)
    qed (use Throw in \<open>simp_all add: show_loop.simps [of T bad p prg s]
        transaction_loop.simps [of T bad p _ s] show_once_def\<close>)
  qed (simp_all add: show_loop.simps [of T bad p prg s] transaction_loop.simps [of T bad p _ s] show_once_def)
qed

text \<open>\<open>main\<close> of \<open>st2\<close>, whose loop runs the transaction twice.\<close>

definition st2_shown ::
  "'m tpm \<Rightarrow> env \<Rightarrow> pid_t \<Rightarrow> 'm cstate \<Rightarrow> 'm shown_run option" where
  "st2_shown T bad p s =
     (case show_loop T bad p st2_program s of
        Some (Done u s1, os) \<Rightarrow>
          map_option (\<lambda>(r, os'). (r, os @ os')) (show_loop T bad p st2_program s1)
      | r \<Rightarrow> r)"

lemma st2_shown_main: "map_option fst (st2_shown T bad p s) = st2_main T bad p s"
proof -
  have e: "transaction_loop T bad p (exec T bad st2) s = map_option fst (show_loop T bad p st2_program s)" for s
    by (simp add: loop_shows)
  show ?thesis
    unfolding st2_shown_def st2_main_def e
    by (auto simp: option.map_comp comp_def split_def split: option.split run.split)
qed

section \<open>What a program prints, over a map of blocks\<close>

inductive prints ::
  "program \<Rightarrow> (block_no \<rightharpoonup> byte list) \<Rightarrow> (block_no \<rightharpoonup> byte list) \<Rightarrow> console list \<Rightarrow> bool" where
  shows_over: "prints Over \<sigma> \<sigma> []"
| shows_say: "prints k \<sigma> \<sigma>' os \<Longrightarrow> prints (Say x k) \<sigma> \<sigma>' (Shown x # os)"
| shows_pause: "prints k \<sigma> \<sigma>' os \<Longrightarrow> prints (Pause n k) \<sigma> \<sigma>' (Slept n # os)"
| shows_alloc: "\<sigma> b = None \<Longrightarrow> prints (k b) (\<sigma>(b \<mapsto> zeros)) \<sigma>' os \<Longrightarrow> prints (AllocP k) \<sigma> \<sigma>' os"
| shows_read: "\<sigma> b = Some v \<Longrightarrow> prints (k v) \<sigma> \<sigma>' os \<Longrightarrow> prints (ReadP b k) \<sigma> \<sigma>' os"
| shows_write: "\<sigma> b = Some old \<Longrightarrow> prints (k old) (\<sigma>(b \<mapsto> new)) \<sigma>' os \<Longrightarrow> prints (WriteP b new k) \<sigma> \<sigma>' os"
| shows_release: "prints k (\<sigma>(b := None)) \<sigma>' os \<Longrightarrow> prints (ReleaseP b k) \<sigma> \<sigma>' os"

inductive_cases printsE:
  "prints Over \<sigma> \<sigma>' os" "prints (Say x k) \<sigma> \<sigma>' os" "prints (Pause n k) \<sigma> \<sigma>' os"
  "prints (AllocP k) \<sigma> \<sigma>' os" "prints (ReadP b k) \<sigma> \<sigma>' os" "prints (WriteP b new k) \<sigma> \<sigma>' os"
  "prints (ReleaseP b k) \<sigma> \<sigma>' os" "prints AbortP \<sigma> \<sigma>' os"

lemma prints_runs: "prints prg \<sigma> \<sigma>' os \<Longrightarrow> runs_to (erase prg) \<sigma> \<sigma>'"
  by (induction rule: prints.induct) (auto simp del: fun_upd_apply intro: runs_to.intros)

lemma then_show_Done:
  "then_show p k s = (Done u s', os) \<longleftrightarrow> (\<exists>x s1. p s = Done x s1 \<and> k x s1 = (Done u s', os))"
  by (auto simp: then_show_def split: run.split)

context quiet_tpm
begin

text \<open>A body that ends prints what its meaning prints, on the view of the transaction.\<close>

lemma talk_refines:
  assumes "talk T bad prg s = (Done u s', os)" "client_ok s"
  shows "prints prg (view s) (view s') os"
  using assms
proof (induction prg arbitrary: s os)
  case (AllocP k)
  then obtain b s1 where s1: "allocate T bad s = Done b s1" "talk T bad (k b) s1 = (Done u s', os)"
    by (auto simp: then_show_Done)
  note a = allocate_Done [OF s1(1) AllocP.prems(2)]
  then have "prints (k b) ((view s)(b \<mapsto> zeros)) (view s') os"
    using AllocP.IH [OF rangeI s1(2)] by (metis a)
  then show ?case using a by (blast intro: shows_alloc)
next
  case (ReadP b k)
  then obtain p v s1 where s1: "tx_read T bad b s = Done p s1" "tx_deref p s1 = Done v s1"
      "talk T bad (k v) s1 = (Done u s', os)"
    by (auto simp: then_show_Done pbind_eq_Done tx_deref_Done)
  note a = tx_read_Done [OF s1(1) ReadP.prems(2)]
  have "view s b = Some v" using a s1(2) by (auto simp: tx_deref_Done)
  moreover have "prints (k v) (view s) (view s') os"
    using ReadP.IH [OF rangeI s1(3)] by (metis a)
  ultimately show ?case by (blast intro: shows_read)
next
  case (WriteP b new k)
  then obtain old s1 where s1: "tx_write T bad b new s = Done old s1" "talk T bad (k old) s1 = (Done u s', os)"
    and new: "is_block new"
    by (auto simp: then_show_Done split: if_splits)
  note a = tx_write_Done [OF s1(1) WriteP.prems(2) new]
  then have "prints (k old) ((view s)(b \<mapsto> new)) (view s') os"
    using WriteP.IH [OF rangeI s1(2)] by (metis a)
  then show ?case using a by (blast intro: shows_write)
next
  case (ReleaseP b k)
  then obtain u1 s1 where s1: "tx_release T bad b s = Done u1 s1" "talk T bad k s1 = (Done u s', os)"
    by (auto simp: then_show_Done)
  note a = tx_release_Done [OF s1(1) ReleaseP.prems(2)]
  then have "prints k ((view s)(b := None)) (view s') os"
    using ReleaseP.IH [OF s1(2)] by (metis a)
  then show ?case by (blast intro: shows_release)
qed (auto simp: tx_abort_def split: prod.splits intro: prints.intros)

end

section \<open>The last attempt\<close>

text \<open>
  What the last attempt of a program that goes past \<open>End(T)\<close> printed belongs to a run of the body on
  the datastore at the beginning, the run whose result the datastore now holds.
\<close>

lemma printed_attempt:
  fixes prg bd p ef clk who
  defines "T \<equiv> monitor_tpm ef clk no_faults who"
  assumes st: "attempt_start who N d s" "N \<noteq> -1"
    and o: "show_once T bd p prg s = (Done u s', os)"
  shows "\<exists>\<sigma>. prints prg (store_view d) \<sigma> os \<and>
    (\<forall>b. store_view (fst (mon_bye no_faults who (files s') (srv s'))) b = \<sigma> b)"
proof -
  have r: "run_once T bd p (exec T bd (erase prg)) s = Done u s'" using o by (simp add: show_once_def)
  then obtain s1 where c: "construct T bd p s = Done () s1"
    by (auto simp: run_once_def pseq_def pbind_eq_Done)
  from construct_ends [OF st, of ef clk no_faults bd p, folded T_def] c
  have o1: "open_tx who (N + 1) s1" and ok: "client_ok s1" "lfd s1 = 0" "\<not> error_occured s1" "files s1 = d"
      "view s1 = store_view d" "fresh_tid s1" by auto
  have os: "os = snd (talk T bd prg s1)" using o c by (simp add: show_once_def)
  obtain u2 s2 where x: "exec T bd (erase prg) s1 = Done u2 s2" "destruct T bd s2 = Done u s'"
    using r c by (auto simp: run_once_def pseq_def pbind_def split: run.splits)
  have t: "talk T bd prg s1 = (Done u2 s2, os)"
    using talk_erases [of T bd prg s1] x(1) os by (metis prod.collapse)
  have qt: "quiet_tpm T" unfolding T_def by (rule mq.quiet_tpm_axioms)
  have "served who s1" using o1 by (auto simp: open_tx_def served_def)
  then have sv: "served who s2" using obeys_returns [OF serve.executing _ x(1) [unfolded T_def]] by blast
  have r2: "client_ok s2" using quiet_tpm.exec_refines [OF qt x(1) ok(1)] by simp
  have e: "\<not> error_occured s2" using obeys_returns [OF clean.executing _ x(1), of False] ok(3) by simp
  have fr: "files s2 = d" "lfd s2 = 0" "tid s2 = tid s1"
    using quiet_tpm.exec_defers_writes [OF qt, of bd "erase prg" s1] x(1) ok by simp_all
  then have ft: "fresh_tid s2" using ok(4,6) by (simp add: fresh_tid_def)
  obtain d' dm where b: "mon_bye no_faults who (files s') (srv s') = (d', dm)" by fastforce
  have "final (destruct (monitor_tpm ef clk no_faults who) bd s2) = Some s'" using x(2) by (simp add: T_def)
  from destruct_commits [OF sv r2 fr(2) e ft this b] x(2) [unfolded T_def]
  have "\<forall>b. store_view d' b = view s2 b" by blast
  moreover have "prints prg (store_view d) (view s2) os"
    using quiet_tpm.talk_refines [OF qt t ok(1)] ok(5) by simp
  ultimately show ?thesis using b by auto
qed

lemma printed_loop:
  fixes prg bd p ef clk who
  defines "T \<equiv> monitor_tpm ef clk no_faults who"
  assumes "attempt_start who N d s" "tries_left N s" "positive (erase prg)"
    and "show_loop T bd p prg s = Some (Done u s', os)"
  shows "\<exists>\<sigma> before last. os = before @ last \<and> prints prg (store_view d) \<sigma> last \<and>
    (\<forall>b. store_view (fst (mon_bye no_faults who (files s') (srv s'))) b = \<sigma> b)"
  using assms(2,3,5)
proof (induction "6 - unat (last_sleep s)" arbitrary: s N os rule: less_induct)
  case less
  have N: "N \<noteq> -1" by (rule tries_left_number [OF less.prems(2)])
  let ?r = "run_once T bd p (exec T bd (erase prg)) s"
  obtain os0 where so: "show_once T bd p prg s = (?r, os0)" by (simp add: show_once_def)
  note unf = less.prems(3) [unfolded show_loop.simps [of T bd p prg s] so]
  show ?case
  proof (cases ?r)
    case (Throw e s1)
    show ?thesis
    proof (cases e)
      case TE_RESTART
      note nx = next_attempt [OF less.prems(1,2) assms(4), of ef clk bd p s1, folded T_def]
      obtain os1 where os1: "show_loop T bd p prg s1 = Some (Done u s', os1)"
          "os = os0 @ Shown (endl ''Restarting transaction...'') # os1"
        using unf Throw TE_RESTART by (auto simp: bind_eq_Some_conv)
      then obtain \<sigma> before last where "os1 = before @ last" "prints prg (store_view d) \<sigma> last"
          "\<forall>b. store_view (fst (mon_bye no_faults who (files s') (srv s'))) b = \<sigma> b"
        using less.hyps [of s1 "N + 1" os1] nx Throw TE_RESTART by auto
      then show ?thesis using os1(2)
        by (intro exI [of _ \<sigma>] exI [of _ "os0 @ Shown (endl ''Restarting transaction...'') # before"]
            exI [of _ last]) simp
    next
      case TE_FAIL
      then show ?thesis
        using attempt [OF less.prems(1) N assms(4), of ef clk bd p s1, folded T_def] Throw by simp
    qed (use unf Throw in simp)
  next
    case (Done u1 s1)
    then have "show_once T bd p prg s = (Done u s', os)" using unf so by simp
    from printed_attempt [OF less.prems(1) N this [unfolded T_def]] show ?thesis
      by (metis append_Nil)
  qed (use unf in simp_all)
qed

end
