(* ===== verification/Schedules.thy ===== *)
theory Schedules
  imports Attempts
begin

text \<open>
  Scripts one call at a time. \<open>one_call\<close> runs the next call of a body with the library; \<open>partly\<close> is a
  run of a script on a map of blocks that has got as far as some rest, with the set of the blocks it
  has touched: it may be moved to any map that agrees on these. \<open>explains\<close> runs whole transactions one
  after the other.
\<close>

primrec one_call :: "'m tpm \<Rightarrow> env \<Rightarrow> script \<Rightarrow> (script, 'm) cprog" where
  "one_call T bad Finish = Done Finish"
| "one_call T bad (Alloc k) = pbind (allocate T bad) (\<lambda>b. Done (k b))"
| "one_call T bad (ReadB b k) = pbind (tx_read T bad b) (\<lambda>p. pbind (tx_deref p) (\<lambda>v. Done (k v)))"
| "one_call T bad (WriteB b new k) =
     (if is_block new then pbind (tx_write T bad b new) (\<lambda>old. Done (k old)) else (\<lambda>_. Wrong))"
| "one_call T bad (ReleaseB b k) = pseq (tx_release T bad b) (Done k)"
| "one_call T bad AbortT = tx_abort"

lemma pbind_Wrong [simp]: "pbind (\<lambda>_. Wrong) f = (\<lambda>_. Wrong)"
  by (simp add: pbind_def fun_eq_iff)

text \<open>\<open>exec\<close> is \<open>one_call\<close> again and again.\<close>

lemma exec_one_call: "exec T bad scr = pbind (one_call T bad scr) (exec T bad)"
  by (cases scr) (auto simp: pbind_def pseq_def tx_abort_def fun_eq_iff split: run.split)

context strict_law
begin

lemma one_step: "obeys I X (one_call T bad scr)"
  by (cases scr) (auto intro!: obeys_intros)

end

section \<open>Part of a run\<close>

inductive partly ::
  "script \<Rightarrow> (block_no \<rightharpoonup> byte list) \<Rightarrow> block_no set \<Rightarrow> script \<Rightarrow> (block_no \<rightharpoonup> byte list) \<Rightarrow> bool"
  for scr \<sigma> where
  at_start: "partly scr \<sigma> B scr \<sigma>"
| did_alloc: "partly scr \<sigma> B (Alloc k) \<tau> \<Longrightarrow> \<tau> b = None \<Longrightarrow> B \<subseteq> B' \<Longrightarrow> b \<in> B' \<Longrightarrow>
    partly scr \<sigma> B' (k b) (\<tau>(b \<mapsto> zeros))"
| did_read: "partly scr \<sigma> B (ReadB b k) \<tau> \<Longrightarrow> \<tau> b = Some v \<Longrightarrow> B \<subseteq> B' \<Longrightarrow> b \<in> B' \<Longrightarrow>
    partly scr \<sigma> B' (k v) \<tau>"
| did_write: "partly scr \<sigma> B (WriteB b new k) \<tau> \<Longrightarrow> \<tau> b = Some old \<Longrightarrow> B \<subseteq> B' \<Longrightarrow> b \<in> B' \<Longrightarrow>
    partly scr \<sigma> B' (k old) (\<tau>(b \<mapsto> new))"
| did_release: "partly scr \<sigma> B (ReleaseB b k) \<tau> \<Longrightarrow> B \<subseteq> B' \<Longrightarrow> b \<in> B' \<Longrightarrow>
    partly scr \<sigma> B' k (\<tau>(b := None))"

lemma partly_complete: "partly scr \<sigma> B rest \<tau> \<Longrightarrow> runs_to rest \<tau> \<rho> \<Longrightarrow> runs_to scr \<sigma> \<rho>"
  by (induction arbitrary: \<rho> rule: partly.induct) (auto intro: runs_to.intros)

text \<open>The blocks outside \<open>B\<close> do not matter.\<close>

definition patch ::
  "block_no set \<Rightarrow> (block_no \<rightharpoonup> byte list) \<Rightarrow> (block_no \<rightharpoonup> byte list) \<Rightarrow> (block_no \<rightharpoonup> byte list)" where
  "patch B \<tau> \<sigma>' b = (if b \<in> B then \<tau> b else \<sigma>' b)"

lemma partly_outside: "partly scr \<sigma> B rest \<tau> \<Longrightarrow> b \<notin> B \<Longrightarrow> \<tau> b = \<sigma> b"
  by (induction rule: partly.induct) auto

lemma patch_wider:
  assumes "partly scr \<sigma> B rest \<tau>" "B \<subseteq> B'" "\<forall>b \<in> B'. \<sigma>' b = \<sigma> b"
  shows "patch B \<tau> \<sigma>' = patch B' \<tau> \<sigma>'"
  using assms partly_outside [OF assms(1)] by (auto simp: patch_def fun_eq_iff)

lemma patch_upd: "b \<in> B \<Longrightarrow> patch B (\<tau>(b := x)) \<sigma>' = (patch B \<tau> \<sigma>')(b := x)"
  by (auto simp: patch_def fun_eq_iff)

lemma partly_frame:
  assumes "partly scr \<sigma> B rest \<tau>" "\<forall>b \<in> B. \<sigma>' b = \<sigma> b"
  shows "partly scr \<sigma>' B rest (patch B \<tau> \<sigma>')"
  using assms
proof (induction rule: partly.induct)
  case (at_start B)
  then have "patch B \<sigma> \<sigma>' = \<sigma>'" by (auto simp: patch_def fun_eq_iff)
  then show ?case by (simp add: partly.at_start)
next
  case (did_alloc B k \<tau> b B')
  note w = patch_wider [OF did_alloc.hyps(1,3) did_alloc.prems]
  have "partly scr \<sigma>' B (Alloc k) (patch B' \<tau> \<sigma>')" using did_alloc w by auto
  then have "partly scr \<sigma>' B' (k b) ((patch B' \<tau> \<sigma>')(b \<mapsto> zeros))"
    by (rule partly.did_alloc) (use did_alloc.hyps in \<open>auto simp: patch_def\<close>)
  then show ?case by (simp only: patch_upd [OF did_alloc.hyps(4)])
next
  case (did_read B b k \<tau> v B')
  note w = patch_wider [OF did_read.hyps(1,3) did_read.prems]
  have "partly scr \<sigma>' B (ReadB b k) (patch B' \<tau> \<sigma>')" using did_read w by auto
  then show ?case
    by (rule partly.did_read) (use did_read.hyps in \<open>auto simp: patch_def\<close>)
next
  case (did_write B b new k \<tau> old B')
  note w = patch_wider [OF did_write.hyps(1,3) did_write.prems]
  have "partly scr \<sigma>' B (WriteB b new k) (patch B' \<tau> \<sigma>')" using did_write w by auto
  then have "partly scr \<sigma>' B' (k old) ((patch B' \<tau> \<sigma>')(b \<mapsto> new))"
    by (rule partly.did_write) (use did_write.hyps in \<open>auto simp: patch_def\<close>)
  then show ?case by (simp only: patch_upd [OF did_write.hyps(4)])
next
  case (did_release B b k \<tau> B')
  note w = patch_wider [OF did_release.hyps(1,2) did_release.prems]
  have "partly scr \<sigma>' B (ReleaseB b k) (patch B' \<tau> \<sigma>')" using did_release w by auto
  then have "partly scr \<sigma>' B' k ((patch B' \<tau> \<sigma>')(b := None))"
    by (rule partly.did_release) (use did_release.hyps in auto)
  then show ?case by (simp only: patch_upd [OF did_release.hyps(3)])
qed

section \<open>One transaction after the other\<close>

text \<open>
  How a transaction left: it got past \<open>End(T)\<close>, or its commit was stopped, in which case it counts as
  a whole or not at all.
\<close>

datatype ending = Past script | Stopped script

inductive explains ::
  "ending list \<Rightarrow> (block_no \<rightharpoonup> byte list) \<Rightarrow> (block_no \<rightharpoonup> byte list) \<Rightarrow> bool" where
  nobody: "explains [] \<sigma> \<sigma>"
| ran: "explains h \<sigma> \<tau> \<Longrightarrow> runs_to scr \<tau> \<rho> \<Longrightarrow> e = Past scr \<or> e = Stopped scr \<Longrightarrow> explains (h @ [e]) \<sigma> \<rho>"
| undone: "explains h \<sigma> \<tau> \<Longrightarrow> explains (h @ [Stopped scr]) \<sigma> \<tau>"

end
