(* ===== verification/Standing.thy ===== *)
theory Standing
  imports Schedules
begin

text \<open>
  What the requests of one client leave alone in the monitor. \<open>standing\<close> is a property of the tables
  that no request of client \<open>who\<close> but BEGIN can break; then no library call and no commit of \<open>who\<close>
  breaks it. Two such properties: what another client \<open>x\<close> holds, and that \<open>who\<close> is preempted.
\<close>

section \<open>Another client\<close>

text \<open>
  \<open>x\<close> has the transaction \<open>ot\<close>, which is not committing, and holds the locks \<open>K\<close> unless it is preempted;
  \<open>K = None\<close> says that it is.
\<close>

definition bystands ::
  "fd \<Rightarrow> trid_t option \<Rightarrow> (block_no \<rightharpoonup> locktype) option \<Rightarrow> monitor \<Rightarrow> bool" where
  "bystands x ot K m \<longleftrightarrow> mfind (transactions m) x = ot \<and>
     (\<forall>t. ot = Some t \<longrightarrow> stat_of m t \<noteq> Some COMMITTING \<and>
        (stat_of m t = Some PREEMPTED \<or> (\<exists>L. K = Some L \<and> (\<forall>b l. L b = Some l \<longrightarrow> covers m t b l))))"

lemma bystandsI:
  assumes "mfind (transactions m) x = ot" "\<And>t. ot = Some t \<Longrightarrow> stat_of m t \<noteq> Some COMMITTING"
    and "\<And>t L. ot = Some t \<Longrightarrow> K = None \<Longrightarrow> stat_of m t = Some PREEMPTED"
    and "\<And>t L b l. ot = Some t \<Longrightarrow> stat_of m t \<noteq> Some PREEMPTED \<Longrightarrow> K = Some L \<Longrightarrow> L b = Some l \<Longrightarrow> covers m t b l"
  shows "bystands x ot K m"
  using assms by (cases K) (auto simp: bystands_def)

lemma bystandsD:
  assumes "bystands x (Some t) K m"
  shows "mfind (transactions m) x = Some t" "stat_of m t \<noteq> Some COMMITTING"
    "K = None \<Longrightarrow> stat_of m t = Some PREEMPTED"
    "stat_of m t \<noteq> Some PREEMPTED \<Longrightarrow> K = Some L \<Longrightarrow> L b = Some l \<Longrightarrow> covers m t b l"
  using assms by (auto simp: bystands_def)

lemma other_tid:
  assumes "mon_inv m" "mfind (transactions m) who = Some t" "mfind (transactions m) x = Some t'" "x \<noteq> who"
  shows "t' \<noteq> t" "t \<noteq> 0" "t' \<noteq> 0" "known m t" "known m t'"
  using assms by (auto simp: mon_inv_def tids_ok_def)

lemma process_bystands:
  assumes p: "process_clientrq ef clk rq who m = Ret (m', r)" and "benign ef" "rq_request rq \<noteq> BEGIN"
    and inv: "mon_inv m" and me: "mfind (transactions m) who = Some (rq_tid rq)" and ne: "x \<noteq> who"
    and st: "bystands x ot K m"
  shows "bystands x ot K m'"
  using p
proof (cases rule: process_cases)
  case (lock h s shared)
  have tr: "transactions m' = transactions m" using table_handler.frame [OF lock(1,5)] by blast
  show ?thesis
  proof (rule bystandsI)
    show "mfind (transactions m') x = ot" using st tr by (simp add: bystands_def)
    fix t assume t: "ot = Some t"
    have o: "t \<noteq> rq_tid rq" "rq_tid rq \<noteq> 0" "t \<noteq> 0"
      using other_tid [OF inv me _ ne, of t] bystandsD(1) [OF st [unfolded t]] by blast+
    note os = table_handler.other_stat [OF lock(1,5) o(1)]
    show "stat_of m' t \<noteq> Some COMMITTING" using os bystandsD(2) [OF st [unfolded t]] by auto
    show "stat_of m' t = Some PREEMPTED" if "K = None"
      using os bystandsD(3) [OF st [unfolded t]] that by auto
    show "covers m' t b l" if n: "stat_of m' t \<noteq> Some PREEMPTED" and L: "K = Some L" "L b = Some l" for L b l
    proof -
      have "stat_of m t \<noteq> Some PREEMPTED"
        using table_handler.preempted_stays [OF lock(1,5) o(1)] n by blast
      then have "covers m t b l" using bystandsD(4) [OF st [unfolded t]] L by blast
      then show ?thesis using covers_kept [OF lock(2) [OF assms(2)] lock(5) _ o(2,1,3)] n inv
        by (auto simp: mon_inv_def)
    qed
  qed
next
  case (mark s)
  show ?thesis
  proof (rule bystandsI)
    show "mfind (transactions m') x = ot" using st mark(3) by (auto simp: bystands_def)
    fix t assume t: "ot = Some t"
    have "t \<noteq> rq_tid rq"
      using other_tid(1) [OF inv me _ ne, of t] bystandsD(1) [OF st [unfolded t]] by blast
    then have s: "stat_of m' t = stat_of m t" "covers m' t b l = covers m t b l" for b l
      using mark(3) by (auto simp: covers_def)
    note d = bystandsD [OF st [unfolded t]]
    show "stat_of m' t \<noteq> Some COMMITTING" using s d by simp
    show "stat_of m' t = Some PREEMPTED" if "K = None" using s d that by auto
    show "covers m' t b l" if "stat_of m' t \<noteq> Some PREEMPTED" "K = Some L" "L b = Some l" for L b l
      using s d that by auto
  qed
qed (use assms in auto)

lemma begin_bystands:
  assumes p: "process_clientrq ef clk rq who m = Ret (m', r)" and q: "rq_request rq = BEGIN"
    and inv: "mon_inv m" and ne: "x \<noteq> who" and st: "bystands x ot K m"
  shows "bystands x ot K m'"
proof -
  have m': "m' = fst (begin_rq clk rq who m)"
    using p q by (auto simp: process_clientrq_def dispatch_rq_def)
  show ?thesis
  proof (rule bystandsI)
    show "mfind (transactions m') x = ot" using st ne by (simp add: m' bystands_def)
    fix t assume t: "ot = Some t"
    note d = bystandsD [OF st [unfolded t]]
    have "t \<noteq> next_tid m" using d(1) inv by (auto simp: mon_inv_def tids_ok_def)
    then have s: "stat_of m' t = stat_of m t" "covers m' t b l = covers m t b l" for b l
      by (auto simp: m' covers_def) (auto simp: begin_rq_def Let_def stat_of_def)
    show "stat_of m' t \<noteq> Some COMMITTING" using s d by simp
    show "stat_of m' t = Some PREEMPTED" if "K = None" using s d that by auto
    show "covers m' t b l" if "stat_of m' t \<noteq> Some PREEMPTED" "K = Some L" "L b = Some l" for L b l
      using s d that by auto
  qed
qed

lemma drop_bystands:
  assumes inv: "mon_inv m" and me: "mfind (transactions m) who = Some t0" and ne: "x \<noteq> who"
    and st: "bystands x ot K m"
  shows "bystands x ot K (drop_client who t0 m)"
proof (rule bystandsI)
  show "mfind (transactions (drop_client who t0 m)) x = ot" using st ne by (simp add: bystands_def)
  fix t assume t: "ot = Some t"
  note d = bystandsD [OF st [unfolded t]] and o = other_tid [OF inv me _ ne, of t]
  have ot: "t \<noteq> t0" "t0 \<noteq> 0" "t \<noteq> 0" "known m t0" using o d(1) by blast+
  have s: "stat_of (drop_client who t0 m) t = stat_of m t"
    using ot by (simp add: stat_of_flush [OF ot(4)])
  have c: "covers m t b l \<Longrightarrow> covers (drop_client who t0 m) t b l" for b l
    using ot by (auto simp: covers_def holders_flush_if [OF ot(4,2)] flush_holder_def split: if_splits)
  show "stat_of (drop_client who t0 m) t \<noteq> Some COMMITTING" using s d by simp
  show "stat_of (drop_client who t0 m) t = Some PREEMPTED" if "K = None" using s d that by auto
  show "covers (drop_client who t0 m) t b l"
    if "stat_of (drop_client who t0 m) t \<noteq> Some PREEMPTED" "K = Some L" "L b = Some l" for L b l
    using s d that c by auto
qed

section \<open>The client's own locks\<close>

definition owns :: "(block_no \<rightharpoonup> locktype) \<Rightarrow> trid_t \<Rightarrow> monitor \<Rightarrow> bool" where
  "owns L t m \<longleftrightarrow> stat_of m t \<noteq> Some PREEMPTED \<and> (\<forall>b l. L b = Some l \<longrightarrow> covers m t b l)"

fun lock_for :: "request_t \<Rightarrow> locktype" where
  "lock_for ALLOCATE = A_LOCK" | "lock_for READ = R_LOCK" | "lock_for WRITE = W_LOCK" | "lock_for _ = S_LOCK"

lemma process_owns:
  assumes p: "process_clientrq ef clk rq who m = Ret (m', r)"
    and q: "rq_request rq \<in> {ALLOCATE, READ, WRITE, RELEASE}"
    and kn: "known m (rq_tid rq)" and o: "owns L (rq_tid rq) m"
  shows "rq_reply r = OK \<and> owns (L(rq_block rq \<mapsto> lock_for (rq_request rq))) (rq_tid rq) m' \<or>
    rq_reply r = NOT_OK \<and> m' = m"
  using p
proof (cases rule: process_cases)
  case die
  then show ?thesis using o by (simp add: owns_def preempted_stat_of)
next
  case (lock h s shared)
  note an = table_handler.answer [OF lock(1,5)]
  show ?thesis
  proof (cases "r = swapped_reply rq OK")
    case True
    have g: "if shared then rq_tid rq \<in> set (readers (holders m' (rq_block rq)))
        else writer (holders m' (rq_block rq)) = rq_tid rq" "stat_of m' (rq_tid rq) = Some s"
      using table_handler.granted [OF lock(1), of clk rq m m'] lock(5) True kn by auto
    have "covers m' (rq_tid rq) b l" if "(L(rq_block rq \<mapsto> lock_for (rq_request rq))) b = Some l" for b l
    proof (cases "b = rq_block rq")
      case True
      then show ?thesis using that g(1) q lock(7) by (auto simp: covers_def)
    next
      case False
      then show ?thesis
        using that o covers_holders_cong [OF table_handler.other_block [OF lock(1,5) False]]
        by (auto simp: owns_def)
    qed
    moreover have "s \<noteq> PREEMPTED" using lock(6) by auto
    ultimately show ?thesis using True g(2) by (auto simp: owns_def)
  next
    case False
    then show ?thesis using an by auto
  qed
qed (use q in auto)

text \<open>Two clients that hold the same block both read it.\<close>

lemma owns_apart:
  assumes "mon_inv m" "owns L t m" "owns L' t' m" "t \<noteq> t'" "t \<noteq> 0" "t' \<noteq> 0"
    and "L b = Some l" "L' b = Some l'"
  shows "l = R_LOCK \<and> l' = R_LOCK"
proof -
  have "covers m t b l" "covers m t' b l'" "holder_ok (holders m b)"
    using assms by (auto simp: owns_def mon_inv_def lock_inv_def)
  then show ?thesis using assms(4-6) by (auto simp: covers_def holder_ok_def split: if_splits)
qed

section \<open>Properties of the tables along a run\<close>

definition with_mon :: "fd \<Rightarrow> trid_t \<Rightarrow> (trid_t \<Rightarrow> monitor \<Rightarrow> bool) \<Rightarrow> daemon cstate \<Rightarrow> bool" where
  "with_mon who N P s \<longleftrightarrow> (\<exists>sr. srv s = Up sr \<and> mon_inv (mon sr) \<and>
     mfind (transactions (mon sr)) who = Some (tid s) \<and> next_tid (mon sr) = N \<and> P (tid s) (mon sr))"

locale standing =
  fixes ef :: "blockholders \<Rightarrow> trid_t"
    and who :: fd
    and P :: "trid_t \<Rightarrow> monitor \<Rightarrow> bool"
  assumes stands: "process_clientrq ef clk rq who m = Ret (m', r) \<Longrightarrow> rq_request rq \<noteq> BEGIN \<Longrightarrow> mon_inv m \<Longrightarrow>
      mfind (transactions m) who = Some (rq_tid rq) \<Longrightarrow> P (rq_tid rq) m \<Longrightarrow> P (rq_tid rq) m'"
begin

lemma asking:
  assumes "q \<noteq> BEGIN"
  shows "obeys (with_mon who N P) (\<lambda>_. with_mon who N P) (ask_tpm (monitor_tpm ef clk bad who) q b)"
proof (rule obeysI)
  fix s assume s: "with_mon who N P s"
  let ?rq = "\<lparr>rq_tid = tid s, rq_pid = pid s, rq_request = q, rq_reply = OK, rq_block = b\<rparr>"
  obtain sr where sr: "srv s = Up sr" "mon_inv (mon sr)" "mfind (transactions (mon sr)) who = Some (tid s)"
    "next_tid (mon sr) = N" "P (tid s) (mon sr)"
    using s by (auto simp: with_mon_def)
  obtain m' r where p: "process_clientrq ef clk ?rq who (mon sr) = Ret (m', r)"
    using process_total [OF sr(2), of ef clk ?rq who] by (auto simp: returns_Ret)
  have "mon_inv m'" by (rule process_inv [OF p sr(2)]) (use sr(3) assms in \<open>simp add: library_request_def\<close>)
  moreover have "transactions m' = transactions (mon sr)" "next_tid m' = N"
    using process_transactions [OF p] process_next_tid [OF p] assms sr(4) by simp_all
  moreover have "P (tid s) m'" using stands [OF p _ sr(2)] sr(3,5) assms by simp
  ultimately show "post True (\<lambda>_. with_mon who N P) (\<lambda>_. with_mon who N P) (ask_tpm (monitor_tpm ef clk bad who) q b s)"
    using p sr by (auto simp: ask_tpm_def monitor_tpm_def mon_ask_def Let_def tx_abort_def with_mon_def)
qed

lemma calling: "strict_law (monitor_tpm ef clk bad who) (with_mon who N P) (\<lambda>_. with_mon who N P)"
proof (unfold_locales, goal_cases)
  case (1 q b)
  then show ?case by (intro asking) auto
next
  case (2 s)
  show ?case by (rule restart_law [OF asking 2]) (simp_all add: with_mon_def)
qed (simp_all add: with_mon_def)

lemma logging: "commit_law bad (with_mon who N P) (\<lambda>_. with_mon who N P)"
proof (unfold_locales, goal_cases)
  case (1 a b oi ov)
  show ?case
  proof (rule obeysI)
    fix s
    assume "with_mon who N P s"
    then show "post True (\<lambda>_. with_mon who N P) (\<lambda>_. with_mon who N P) (tx_log bad a b oi ov s)"
      using tx_log_run [of bad a b oi ov s] by (auto simp: with_mon_def)
  qed
qed (rule obeysI, auto simp: with_mon_def put_index_def put_store_def tx_deref_def tx_abort_def split: outcome.split)+

lemma one_call: "obeys (with_mon who N P) (\<lambda>_. with_mon who N P) (one_call (monitor_tpm ef clk bad who) bd scr)"
  by (rule strict_law.one_step [OF calling])

lemma committing: "obeys (with_mon who N P) (\<lambda>_. with_mon who N P) (commit (monitor_tpm ef clk bad who) bd)"
proof -
  have th: "obeys (with_mon who N P) (\<lambda>_. with_mon who N P) throw_abort" "obeys (with_mon who N P) (\<lambda>_. with_mon who N P) tx_abort"
    by (rule obeysI, simp add: throw_abort_def tx_abort_def with_mon_def)+
  show ?thesis unfolding commit_unfold
    by (intro obeys_intros asking commit_law.logging_phase [OF logging] th) simp_all
qed

end

text \<open>The three instances.\<close>

definition doomed :: "trid_t \<Rightarrow> monitor \<Rightarrow> bool" where
  "doomed t m \<longleftrightarrow> stat_of m t = Some PREEMPTED"

interpretation dm: standing ef who doomed for ef who
  by unfold_locales (auto simp: doomed_def intro: preempted_forever)

lemma bystanding:
  assumes "benign ef" "x \<noteq> who"
  shows "standing ef who (\<lambda>_. bystands x ot K)"
  by unfold_locales (rule process_bystands [OF _ assms(1) _ _ _ assms(2)])

end
