(* ===== verification/OwnLocks.thy ===== *)
theory OwnLocks
  imports Standing
begin

text \<open>
  The locks that a transaction has recorded in its block map are locks that the monitor grants it, as
  long as it is not preempted: every call that returns keeps this, and it has recorded its block.
\<close>

definition locks_of :: "'m cstate \<Rightarrow> block_no \<rightharpoonup> locktype" where
  "locks_of s b = map_option lock (mfind (bmap s) b)"

definition in_lock :: "fd \<Rightarrow> trid_t \<Rightarrow> daemon cstate \<Rightarrow> bool" where
  "in_lock who N s \<longleftrightarrow> with_mon who N (owns (locks_of s)) s"

text \<open>What a call on block \<open>b\<close> is to show.\<close>

definition locked_call :: "fd \<Rightarrow> trid_t \<Rightarrow> block_no \<Rightarrow> daemon cstate \<Rightarrow> daemon cstate \<Rightarrow> bool" where
  "locked_call who N b s s' \<longleftrightarrow> in_lock who N s' \<and> (\<exists>l. locks_of s' = (locks_of s)(b \<mapsto> l))"

lemma locks_of_cong: "bmap s' = bmap s \<Longrightarrow> locks_of s' = locks_of s"
  by (simp add: locks_of_def fun_eq_iff)

lemma locks_of_heap [simp]: "locks_of (s\<lparr>heap := h\<rparr>) = locks_of s"
  by (simp add: locks_of_def fun_eq_iff)

lemma locks_of_put: "bmap s' = mput b mb (bmap s) \<Longrightarrow> locks_of s' = (locks_of s)(b \<mapsto> lock mb)"
  by (auto simp: locks_of_def fun_eq_iff)

lemma locks_of_upd:
  "bmap s' = mupd b f (bmap s) \<Longrightarrow> mfind (bmap s) b = Some mb \<Longrightarrow> locks_of s' = (locks_of s)(b \<mapsto> lock (f mb))"
  by (auto simp: locks_of_def fun_eq_iff)

lemma with_mon_cong: "srv s' = srv s \<Longrightarrow> tid s' = tid s \<Longrightarrow> with_mon who N P s' = with_mon who N P s"
  by (simp add: with_mon_def)

lemma ask_locks:
  assumes a: "ask_tpm (monitor_tpm ef clk bad who) q b s = Done r s'"
    and q: "q \<in> {ALLOCATE, READ, WRITE, RELEASE}" and w: "with_mon who N (owns L) s"
  shows "(\<exists>m. s' = s\<lparr>srv := m\<rparr>) \<and> with_mon who N (owns (if fst r then L(b \<mapsto> lock_for q) else L)) s'"
proof -
  let ?rq = "\<lparr>rq_tid = tid s, rq_pid = pid s, rq_request = q, rq_reply = OK, rq_block = b\<rparr>"
  obtain sr where sr: "srv s = Up sr" "mon_inv (mon sr)" "mfind (transactions (mon sr)) who = Some (tid s)"
    "next_tid (mon sr) = N" "owns L (tid s) (mon sr)"
    using w by (auto simp: with_mon_def)
  obtain m' rp where p: "process_clientrq ef clk ?rq who (mon sr) = Ret (m', rp)"
    using process_total [OF sr(2), of ef clk ?rq who] by (auto simp: returns_Ret)
  have kn: "known (mon sr) (rq_tid ?rq)" using sr(2,3) by (auto simp: mon_inv_def tids_ok_def)
  have o: "rq_reply rp = OK \<and> owns (L(b \<mapsto> lock_for q)) (tid s) m' \<or> rq_reply rp = NOT_OK \<and> m' = mon sr"
    using process_owns [OF p _ kn] q sr(5) by simp
  have "q \<noteq> BEGIN" using q by auto
  then have "mon_inv m'" by (intro process_inv [OF p sr(2)]) (use sr(3) in \<open>simp add: library_request_def\<close>)
  moreover have "transactions m' = transactions (mon sr)" "next_tid m' = N"
    using process_transactions [OF p] process_next_tid [OF p] \<open>q \<noteq> BEGIN\<close> sr(4) by simp_all
  ultimately show ?thesis using a p sr o
    by (auto simp: ask_tpm_def monitor_tpm_def mon_ask_def Let_def with_mon_def tx_abort_def split: if_splits)
qed

section \<open>The calls\<close>

lemma loop_locks:
  fixes ef clk bad who
  defines "T \<equiv> monitor_tpm ef clk bad who"
  assumes r: "allocate_loop T bd s = Some (Done b s')" and w: "with_mon who N (owns L) s"
  shows "with_mon who N (owns (L(b \<mapsto> A_LOCK))) s' \<and> bmap s' = bmap s"
proof -
  have "with_mon who N (owns L) s \<longrightarrow> (\<forall>b s'. r = Done b s' \<longrightarrow>
      with_mon who N (owns (L(b \<mapsto> A_LOCK))) s' \<and> bmap s' = bmap s)"
    if "allocate_loop T bd s = Some r" for r
  proof (rule allocate_loop.raw_induct [where P = "\<lambda>T' bd s r. T' = T \<longrightarrow> with_mon who N (owns L) s \<longrightarrow>
      (\<forall>b s'. r = Done b s' \<longrightarrow> with_mon who N (owns (L(b \<mapsto> A_LOCK))) s' \<and> bmap s' = bmap s)",
      OF _ that, THEN mp, OF _ refl], goal_cases)
    case (1 f T' bd s r)
    show ?case
    proof (intro impI allI)
      fix b s'
      assume T': "T' = T" and w: "with_mon who N (owns L) s" and r: "r = Done b s'"
      from 1(2) r obtain b1 s1 rp s2 where s1: "find_free_block T bd s = Done b1 s1"
          and s2: "ask_tpm T ALLOCATE b1 s1 = Done rp s2"
          and rest: "if fst rp then b = b1 \<and> s' = s2 else f T bd s2 = Some (Done b s')"
        unfolding T' by (auto split: run.splits if_splits)
      have e: "s1 = s\<lparr>last_free_block := b1\<rparr>" using find_free_block_Done [OF s1] by blast
      then have "with_mon who N (owns L) s1" using w by (simp add: with_mon_def)
      from ask_locks [OF s2 [unfolded T_def] _ this]
      have a: "bmap s2 = bmap s" "with_mon who N (owns (if fst rp then L(b1 \<mapsto> A_LOCK) else L)) s2"
        using e by auto
      show "with_mon who N (owns (L(b \<mapsto> A_LOCK))) s' \<and> bmap s' = bmap s"
      proof (cases "fst rp")
        case True
        then show ?thesis using rest a by simp
      next
        case False
        then show ?thesis using rest a 1(1) [of T bd s2 "Done b s'"] T' by auto
      qed
    qed
  qed
  then show ?thesis using assms by blast
qed

lemma allocate_locks:
  assumes r: "allocate (monitor_tpm ef clk bad who) bd s = Done b s'" and w: "in_lock who N s"
  shows "locked_call who N b s s'"
proof -
  let ?T = "monitor_tpm ef clk bad who"
  obtain s1 where s1: "allocate_loop ?T bd s = Some (Done b s1)"
      "pbind tx_new (\<lambda>a. pseq (tx_fill (Some a) zeros)
         (pseq (set_entry b \<lparr>lock = A_LOCK, data = Some a, oldval = Some a, oldindex = CHR ''U''\<rparr>)
           (Done b))) s1 = Done b s'"
    using r by (auto simp: allocate_def pbind_eq_Done pseq_eq_Done split: option.splits)
  note l = loop_locks [OF s1(1) w [unfolded in_lock_def]]
  obtain a where s': "srv s' = srv s1" "tid s' = tid s1"
    "bmap s' = mput b \<lparr>lock = A_LOCK, data = Some a, oldval = Some a, oldindex = CHR ''U''\<rparr> (bmap s)"
    using s1(2) l by (auto simp: pbind_eq_Done pseq_eq_Done tx_new_Done tx_fill_Done set_entry_Done)
  have "locks_of s' = (locks_of s)(b \<mapsto> A_LOCK)" using locks_of_put [OF s'(3)] by simp
  then show ?thesis using l with_mon_cong [OF s'(1,2)] by (auto simp: locked_call_def in_lock_def)
qed

text \<open>The three other calls ask for one lock and then make or change the entry of their block.\<close>

lemma fresh_lock:
  fixes ef clk bad who
  defines "T \<equiv> monitor_tpm ef clk bad who"
  assumes r: "pbind (is_allocated bd b) (\<lambda>al. if \<not> al then tx_abort
     else pbind (ask_tpm T q b) (\<lambda>(okay, _). if \<not> okay then restart T else f)) s0 = Done x s'"
    and q: "q \<in> {READ, WRITE, RELEASE}"
    and f: "\<And>s1. f s1 = Done x s' \<Longrightarrow> srv s' = srv s1 \<and> tid s' = tid s1 \<and>
      (\<exists>p p' c. bmap s' = mput b \<lparr>lock = lock_for q, data = p, oldval = p', oldindex = c\<rparr> (bmap s1))"
    and w: "with_mon who N (owns (locks_of s)) s0"
    and l: "\<And>c. c \<noteq> b \<Longrightarrow> locks_of s0 c = locks_of s c"
  shows "locked_call who N b s s'"
proof -
  obtain rp s1 where s1: "ask_tpm T q b s0 = Done (True, rp) s1" "f s1 = Done x s'"
    using r by (auto simp: pbind_eq_Done tx_abort_def restart_Done split: if_splits dest!: is_allocated_Done)
  have a: "bmap s1 = bmap s0" "with_mon who N (owns ((locks_of s)(b \<mapsto> lock_for q))) s1"
    using ask_locks [OF s1(1) [unfolded T_def] _ w] q by auto
  note s' = f [OF s1(2)]
  have "locks_of s' = (locks_of s)(b \<mapsto> lock_for q)"
    using s' a(1) l by (auto simp: locks_of_def fun_eq_iff)
  then show ?thesis using a s' by (auto simp: locked_call_def in_lock_def with_mon_def)
qed

lemma kept_lock: "in_lock who N s \<Longrightarrow> mfind (bmap s) b = Some mb \<Longrightarrow> s' = s\<lparr>heap := h\<rparr> \<Longrightarrow> locked_call who N b s s'"
  by (auto simp: locked_call_def in_lock_def with_mon_def locks_of_def fun_eq_iff intro!: exI [of _ "lock mb"])

text \<open>Dropping the read buffer changes no recorded lock.\<close>

lemma drop_locks:
  assumes "drop_read_buffer b mb s = Done u s1"
  shows "srv s1 = srv s \<and> tid s1 = tid s \<and> locks_of s1 = locks_of s"
  using assms by (auto simp: drop_read_buffer_def pseq_eq_Done tx_delete_def locks_of_def fun_eq_iff
      option.map_comp comp_def split: outcome.splits if_splits)

lemma read_locks:
  assumes r: "tx_read (monitor_tpm ef clk bad who) bd b s = Done p s'" and w: "in_lock who N s"
  shows "locked_call who N b s s'"
proof (cases "mfind (bmap s) b")
  case (Some mb)
  then have "s' = s\<lparr>heap := heap s\<rparr>" using r
    by (auto simp: tx_read_def tx_abort_def throw_abort_def split: if_splits)
  then show ?thesis by (rule kept_lock [OF w Some])
next
  case None
  then have "read_from_store (monitor_tpm ef clk bad who) bd b s = Done p s'"
    using r by (auto simp: tx_read_def throw_abort_def split: if_splits)
  then show ?thesis unfolding read_from_store_def
    by (rule fresh_lock) (use w in \<open>(auto simp: in_lock_def pbind_eq_Done pseq_eq_Done tx_new_Done
        tx_fill_Done set_entry_Done dest!: read_store_Done)[4], blast\<close>)
qed

lemma store_write_locks:
  assumes r: "write_to_store (monitor_tpm ef clk bad who) bd b v s0 = Done old s'"
    and w: "with_mon who N (owns (locks_of s)) s0" "locks_of s0 = locks_of s"
  shows "locked_call who N b s s'"
  using r unfolding write_to_store_def
proof (rule fresh_lock)
  fix s1 :: "daemon cstate"
  assume "pbind (tx_read_store bd b) (\<lambda>old. pbind tx_new (\<lambda>saved. pseq (tx_fill (Some saved) old)
    (pbind tx_new (\<lambda>a. pseq (tx_fill (Some a) v)
      (pseq (set_entry b \<lparr>lock = W_LOCK, data = Some a, oldval = Some saved, oldindex = CHR ''A''\<rparr>)
        (Done old)))))) s1 = Done old s'"
  from two_buffers_Done [OF with_stored_Done [OF this, THEN conjunct2]]
  show "srv s' = srv s1 \<and> tid s' = tid s1 \<and> (\<exists>p p' c. bmap s' =
      mput b \<lparr>lock = lock_for WRITE, data = p, oldval = p', oldindex = c\<rparr> (bmap s1))"
    by auto
qed (use w in auto)

lemma write_locks:
  assumes r: "tx_write (monitor_tpm ef clk bad who) bd b v s = Done old s'" and w: "in_lock who N s"
  shows "locked_call who N b s s'"
proof -
  let ?T = "monitor_tpm ef clk bad who"
  have b: "\<not> b \<le> 0" using r by (auto simp: tx_write_def throw_abort_def split: if_splits)
  show ?thesis
  proof (cases "mfind (bmap s) b")
    case None
    then have "write_to_store ?T bd b v s = Done old s'" using r b by (simp add: tx_write_def)
    then show ?thesis by (rule store_write_locks) (use w in \<open>simp_all add: in_lock_def\<close>)
  next
    case (Some mb)
    show ?thesis
    proof (cases "lock mb = R_LOCK")
      case True
      then obtain u s1 where s1: "drop_read_buffer b mb s = Done u s1" "write_to_store ?T bd b v s1 = Done old s'"
        using r b Some by (auto simp: tx_write_def pseq_eq_Done)
      note d = drop_locks [OF s1(1)]
      show ?thesis by (rule store_write_locks [OF s1(2)]) (use w d in \<open>simp_all add: in_lock_def with_mon_def\<close>)
    next
      case False
      then obtain h where "s' = s\<lparr>heap := h\<rparr>" using r b Some
        by (cases "lock mb") (auto simp: tx_write_def tx_abort_def pbind_eq_Done pseq_eq_Done tx_deref_def
            tx_fill_def split: outcome.splits)
      then show ?thesis by (rule kept_lock [OF w Some])
    qed
  qed
qed

lemma store_release_locks:
  assumes r: "release_in_store (monitor_tpm ef clk bad who) bd b s0 = Done u s'"
    and w: "with_mon who N (owns (locks_of s)) s0" "locks_of s0 = locks_of s"
  shows "locked_call who N b s s'"
  using r unfolding release_in_store_def
  by (rule fresh_lock) (use w in \<open>(auto simp: pbind_eq_Done pseq_eq_Done tx_new_Done tx_fill_Done
      set_entry_Done dest!: read_store_Done)[4], blast\<close>)

lemma release_locks:
  assumes r: "tx_release (monitor_tpm ef clk bad who) bd b s = Done u s'" and w: "in_lock who N s"
  shows "locked_call who N b s s'"
proof -
  let ?T = "monitor_tpm ef clk bad who"
  have b: "\<not> b \<le> 0" using r by (auto simp: tx_release_def throw_abort_def split: if_splits)
  show ?thesis
  proof (cases "mfind (bmap s) b")
    case None
    then have "release_in_store ?T bd b s = Done u s'" using r b by (simp add: tx_release_def)
    then show ?thesis by (rule store_release_locks) (use w in \<open>simp_all add: in_lock_def\<close>)
  next
    case (Some mb)
    show ?thesis
    proof (cases "lock mb = R_LOCK")
      case True
      then obtain u s1 where s1: "drop_read_buffer b mb s = Done u s1" "release_in_store ?T bd b s1 = Done u s'"
        using r b Some by (auto simp: tx_release_def pseq_eq_Done)
      note d = drop_locks [OF s1(1)]
      show ?thesis by (rule store_release_locks [OF s1(2)]) (use w d in \<open>simp_all add: in_lock_def with_mon_def\<close>)
    next
      case False
      then have s': "s' = s\<lparr>bmap := mupd b (\<lambda>mb. mb\<lparr>lock := S_LOCK\<rparr>) (bmap s)\<rparr>"
        using r b Some by (cases "lock mb") (auto simp: tx_release_def)
      have l: "locks_of s' = (locks_of s)(b \<mapsto> S_LOCK)"
        using locks_of_upd [OF _ Some, of s' "\<lambda>mb. mb\<lparr>lock := S_LOCK\<rparr>"] by (simp add: s')
      have "covers m t b (lock mb) \<Longrightarrow> covers m t b S_LOCK" for m t using False by (simp add: covers_def)
      moreover have "locks_of s b = Some (lock mb)" using Some by (simp add: locks_of_def)
      ultimately have "owns (locks_of s) t m \<Longrightarrow> owns (locks_of s') t m" for t m
        unfolding l by (auto simp: owns_def)
      then show ?thesis using w l by (auto simp: locked_call_def in_lock_def with_mon_def s')
    qed
  qed
qed

end
