(* ===== verification/Interleaving.thy ===== *)
theory Interleaving
  imports OwnLocks
begin

text \<open>
  Several client processes at one store and one monitor. A step is one call of the library, the
  construction of a \<open>Transaction\<close>, its destruction, or the death of a process; steps of different
  clients alternate freely. The commit may be stopped by any failing system call. The theorem at the
  end: the store is always what the finished transactions make of it, one after the other in the order
  of their commits.
\<close>

section \<open>The system\<close>

datatype stage = Away | Working script script

record world =
  wdisk :: disk
  wmon :: daemon
  wstage :: "fd \<Rightarrow> stage"
  wlocal :: "fd \<Rightarrow> daemon cstate"

text \<open>The state of a process, with the files and the monitor as they are now.\<close>

definition here :: "world \<Rightarrow> fd \<Rightarrow> daemon cstate" where
  "here w c = (wlocal w c)\<lparr>files := wdisk w, srv := wmon w\<rparr>"

definition put_back :: "world \<Rightarrow> fd \<Rightarrow> stage \<Rightarrow> daemon cstate \<Rightarrow> world" where
  "put_back w c st s =
     \<lparr>wdisk = files s, wmon = srv s, wstage = (wstage w)(c := st), wlocal = (wlocal w)(c := s)\<rparr>"

text \<open>A process that is gone: its connection is closed and the monitor notices.\<close>

definition gone :: "world \<Rightarrow> fd \<Rightarrow> daemon cstate \<Rightarrow> world" where
  "gone w c s = (let (d', m') = mon_bye no_faults c (files s) (srv s) in
     put_back w c Away (s\<lparr>files := d', srv := m'\<rparr>))"

text \<open>
  The name under which a transaction that reached its commit counts. One that the monitor has
  preempted gets DIE for its COMMIT and has none.
\<close>

definition refused :: "world \<Rightarrow> fd \<Rightarrow> bool" where
  "refused w c \<longleftrightarrow> (\<exists>sr. wmon w = Up sr \<and> stat_of (mon sr) (tid (here w c)) = Some PREEMPTED)"

definition counts_as :: "world \<Rightarrow> fd \<Rightarrow> script \<Rightarrow> bool \<Rightarrow> ending list" where
  "counts_as w c scr past = (if past then [Past scr] else if refused w c then [] else [Stopped scr])"

inductive world_step :: "(blockholders \<Rightarrow> trid_t) \<Rightarrow> world \<Rightarrow> ending list \<Rightarrow> world \<Rightarrow> bool" for ef where
  starts: "wstage w c = Away \<Longrightarrow> files s = wdisk w \<Longrightarrow> srv s = wmon w \<Longrightarrow> wmon w = Up sr \<Longrightarrow>
     next_tid (mon sr) \<noteq> -1 \<Longrightarrow> mem_ok (heap s) \<Longrightarrow> positive scr \<Longrightarrow>
     construct (monitor_tpm ef clk no_faults c) bad p s = Done u s' \<Longrightarrow>
     world_step ef w [] (put_back w c (Working scr scr) s')"
| calls: "wstage w c = Working scr0 scr \<Longrightarrow>
     one_call (monitor_tpm ef clk no_faults c) bad scr (here w c) = Done scr' s' \<Longrightarrow>
     world_step ef w [] (put_back w c (Working scr0 scr') s')"
| fails: "wstage w c = Working scr0 scr \<Longrightarrow>
     one_call (monitor_tpm ef clk no_faults c) bad scr (here w c) = Throw e s1 \<Longrightarrow>
     final (destruct (monitor_tpm ef clk' no_faults c) bad' s1) = Some s' \<Longrightarrow>
     world_step ef w [] (gone w c s')"
| exits: "wstage w c = Working scr0 scr \<Longrightarrow>
     one_call (monitor_tpm ef clk no_faults c) bad scr (here w c) = Quit s' \<Longrightarrow>
     world_step ef w [] (gone w c s')"
| killed: "wstage w c = Working scr0 scr \<Longrightarrow> world_step ef w [] (gone w c (here w c))"
| ends: "wstage w c = Working scr0 Finish \<Longrightarrow>
     destruct (monitor_tpm ef clk no_faults c) bad (here w c) = r \<Longrightarrow> final r = Some s' \<Longrightarrow>
     world_step ef w (counts_as w c scr0 (\<exists>u. r = Done u s')) (gone w c s')"

inductive world_runs :: "(blockholders \<Rightarrow> trid_t) \<Rightarrow> disk \<Rightarrow> ending list \<Rightarrow> world \<Rightarrow> bool" for ef d where
  boot: "world_runs ef d [] \<lparr>wdisk = d, wmon = Up \<lparr>mon = init_monitor, lgr = l\<rparr>, wstage = (\<lambda>_. Away), wlocal = loc\<rparr>"
| step: "world_runs ef d h w \<Longrightarrow> world_step ef w e w' \<Longrightarrow> world_runs ef d (h @ e) w'"

lemma here_sel [simp]: "files (here w c) = wdisk w" "srv (here w c) = wmon w"
  by (simp_all add: here_def)

lemma put_back_sel [simp]:
  "wdisk (put_back w c st s) = files s" "wmon (put_back w c st s) = srv s"
  "wstage (put_back w c st s) x = (if x = c then st else wstage w x)"
  "x \<noteq> c \<Longrightarrow> here (put_back w c st s) x = (here w x)\<lparr>files := files s, srv := srv s\<rparr>"
  "here (put_back w c st s) c = s"
  by (simp_all add: put_back_def here_def)

section \<open>A client at work\<close>

text \<open>
  Unless it is preempted, a client at work holds the locks it has recorded, its view has grown from
  the store of this moment by its calls, and they have touched only blocks that it holds.
\<close>

definition attends :: "fd \<Rightarrow> trid_t \<Rightarrow> script \<Rightarrow> script \<Rightarrow> daemon cstate \<Rightarrow> bool" where
  "attends c N scr0 scr s \<longleftrightarrow> positive scr \<and> lfd s = 0 \<and> \<not> error_occured s \<and> mem_ok (heap s) \<and> fresh_tid s \<and>
     open_tx c N s \<and>
     (with_mon c N doomed s \<or>
      client_ok s \<and> in_lock c N s \<and> partly scr0 (store_view (files s)) (dom (locks_of s)) scr (view s))"

definition world_ok :: "world \<Rightarrow> bool" where
  "world_ok w \<longleftrightarrow>
     (\<forall>c scr0 scr. wstage w c = Working scr0 scr \<longrightarrow> \<not> error_occured (wlocal w c)) \<and>
     (\<forall>sr. wmon w = Up sr \<longrightarrow> mon_inv (mon sr) \<and> files_ok (wdisk w) \<and> log_older (next_tid (mon sr)) (wdisk w) \<and>
        (\<forall>c. case wstage w c of
             Away \<Rightarrow> mfind (transactions (mon sr)) c = None
           | Working scr0 scr \<Rightarrow> attends c (next_tid (mon sr)) scr0 scr (here w c)))"

text \<open>Moving a client that only watches to other files.\<close>

definition same_block :: "disk \<Rightarrow> disk \<Rightarrow> block_no \<Rightarrow> bool" where
  "same_block d' d b \<longleftrightarrow> block_valid d' b = block_valid d b \<and> dindex d' b = dindex d b \<and> dblock d' b = dblock d b"

lemma client_ok_files:
  assumes ok: "client_ok s" and d: "files_ok d'"
    and same: "\<forall>b \<in> dom (locks_of s). same_block d' (files s) b"
  shows "client_ok (s\<lparr>files := d', srv := m\<rparr>)" "view (s\<lparr>files := d', srv := m\<rparr>) = patch (dom (locks_of s)) (view s) (store_view d')"
proof -
  have sd: "same_block d' (files s) b" if "mfind (bmap s) b = Some mb" for b mb
    using same that by (simp add: locks_of_def dom_def)
  have "entry_ok d' (heap s) (last_free_block s) b mb" if "mfind (bmap s) b = Some mb" for b mb
    using client_okD(5) [OF ok that] sd [OF that]
    by (simp add: entry_ok_def same_block_def cong: locktype.case_cong)
  then show "client_ok (s\<lparr>files := d', srv := m\<rparr>)"
    using client_okD [OF ok] client_ok_base(3) [OF ok] d by (intro client_okI) simp_all
  show "view (s\<lparr>files := d', srv := m\<rparr>) = patch (dom (locks_of s)) (view s) (store_view d')"
    using sd by (auto simp: same_block_def view_def patch_def locks_of_def store_view_def fun_eq_iff
        split: option.splits locktype.splits)
qed

lemma entry_ok_read:
  assumes "client_ok s" "locks_of s b = Some R_LOCK"
  shows "dindex (files s) b = CHR ''A'' \<and> block_valid (files s) b \<and> view s b = store_view (files s) b"
proof -
  obtain mb where mb: "mfind (bmap s) b = Some mb" "lock mb = R_LOCK" using assms(2) by (auto simp: locks_of_def)
  then show ?thesis using client_okD(5) [OF assms(1) mb(1)] by (simp add: entry_ok_def view_def)
qed

lemma attends_bystands:
  assumes "attends x N scr0 scr s" "srv s = Up sr"
  shows "bystands x (Some (tid s)) (if stat_of (mon sr) (tid s) = Some PREEMPTED then None else Some (locks_of s)) (mon sr)"
  using assms by (auto simp: attends_def open_tx_def with_mon_def doomed_def in_lock_def owns_def bystands_def)

lemma attends_other:
  assumes at: "attends x N scr0 scr s" and sr: "srv s = Up sr" and m: "mon_inv (mon sr')" "next_tid (mon sr') = N'"
    and bs: "bystands x (Some (tid s)) (if stat_of (mon sr) (tid s) = Some PREEMPTED then None else Some (locks_of s)) (mon sr')"
    and log: "\<forall>r \<in> set (log_f d'). lr_tid r \<noteq> tid s"
    and same: "client_ok s \<Longrightarrow> in_lock x N s \<Longrightarrow> files_ok d' \<and>
      (\<forall>b \<in> dom (locks_of s). same_block d' (files s) b)"
  shows "attends x N' scr0 scr (s\<lparr>files := d', srv := Up sr'\<rparr>)"
proof -
  let ?s = "s\<lparr>files := d', srv := Up sr'\<rparr>"
  have base: "positive scr \<and> lfd ?s = 0 \<and> \<not> error_occured ?s \<and> mem_ok (heap ?s) \<and> fresh_tid ?s"
    using at log by (simp add: attends_def fresh_tid_def)
  have op: "open_tx x N' ?s" using bystandsD(1,2) [OF bs] m by (simp add: open_tx_def)
  have tr: "mfind (transactions (mon sr')) x = Some (tid s)" using bystandsD(1) [OF bs] .
  show ?thesis
  proof (cases "stat_of (mon sr') (tid s) = Some PREEMPTED")
    case True
    then have "with_mon x N' doomed ?s" using m tr by (simp add: with_mon_def doomed_def)
    then show ?thesis using base op by (simp add: attends_def)
  next
    case False
    then have np: "stat_of (mon sr) (tid s) \<noteq> Some PREEMPTED" using bystandsD(3) [OF bs] by auto
    then have ok: "client_ok s" "in_lock x N s"
      "partly scr0 (store_view (files s)) (dom (locks_of s)) scr (view s)"
      using at sr by (auto simp: attends_def with_mon_def doomed_def)
    have cov: "covers (mon sr') (tid s) b l" if "locks_of s b = Some l" for b l
      using bystandsD(4) [OF bs False] np that by simp
    have fo: "files_ok d'" and sm: "\<forall>b \<in> dom (locks_of s). same_block d' (files s) b"
      using same [OF ok(1,2)] by blast+
    note cf = client_ok_files [OF ok(1) fo sm, where m = "Up sr'"]
    have lk: "locks_of ?s = locks_of s" by (rule locks_of_cong) simp
    have "in_lock x N' ?s" using m tr False cov by (simp add: in_lock_def with_mon_def owns_def lk)
    moreover have "\<forall>b \<in> dom (locks_of s). store_view d' b = store_view (files s) b"
      using sm by (simp add: store_view_def same_block_def)
    then have "partly scr0 (store_view d') (dom (locks_of s)) scr (view ?s)"
      unfolding cf(2) by (intro partly_frame [OF ok(3)])
    ultimately show ?thesis using base op cf(1) by (simp add: attends_def lk)
  qed
qed

section \<open>The steps of one client\<close>

text \<open>A call that returns.\<close>

lemma allocate_positive:
  assumes "quiet_tpm T" "allocate T bd s = Done b s'"
  shows "b > 0"
proof -
  obtain s1 where s1: "allocate_loop T bd s = Some (Done b s1)"
    using assms(2) by (auto simp: allocate_def pbind_eq_Done pseq_eq_Done split: option.splits)
  have "0 \<le> last_free_block s"
  proof (rule ccontr)
    assume "\<not> 0 \<le> last_free_block s"
    then have "find_free_block T bd s = Wrong" by (simp add: find_free_block_def Let_def)
    then show False using s1 by (subst (asm) allocate_loop.simps) simp
  qed
  then show ?thesis using quiet_tpm.allocate_loop_Done [OF assms(1) s1] by auto
qed

lemma one_call_positive:
  assumes "quiet_tpm T" "one_call T bd scr s = Done scr' s'" "positive scr"
  shows "positive scr'"
  using assms(2,3) allocate_positive [OF assms(1)]
  by (cases scr) (auto simp: pbind_eq_Done pseq_eq_Done tx_abort_def split: if_splits)

lemma one_call_throws:
  assumes "one_call T bd scr s = Throw e s'" "positive scr"
  shows "error_occured s'"
  using assms by (cases scr) (auto simp: pbind_eq_Throw pseq_def tx_abort_def dest: throw_sets_flag split: if_splits)

lemma one_call_refines:
  assumes c: "one_call (monitor_tpm ef clk bad c) bd scr s = Done scr' s'"
    and ok: "client_ok s" "in_lock c N s" "partly scr0 \<sigma> (dom (locks_of s)) scr (view s)"
  shows "client_ok s' \<and> in_lock c N s' \<and> partly scr0 \<sigma> (dom (locks_of s')) scr' (view s')"
proof -
  let ?T = "monitor_tpm ef clk bad c"
  have dm: "dom (locks_of s) \<subseteq> dom (locks_of s1) \<and> b \<in> dom (locks_of s1) \<and> in_lock c N s1"
    if "locked_call c N b s s1" for b s1 using that by (auto simp: locked_call_def)
  show ?thesis
  proof (cases scr)
    case Finish
    then show ?thesis using c ok by simp
  next
    case (Alloc k)
    then obtain b where b: "allocate ?T bd s = Done b s'" "scr' = k b" using c by (auto simp: pbind_eq_Done)
    note r = quiet_tpm.allocate_Done [OF mq.quiet_tpm_axioms b(1) ok(1)]
    note l = dm [OF allocate_locks [OF b(1) ok(2)]]
    show ?thesis using r l did_alloc [OF ok(3) [unfolded Alloc]] b(2) by auto
  next
    case (ReadB b k)
    then obtain p v where b: "tx_read ?T bd b s = Done p s'" "deref (heap s') p = Ret v" "scr' = k v"
      using c by (auto simp: pbind_eq_Done tx_deref_Done)
    note r = quiet_tpm.tx_read_Done [OF mq.quiet_tpm_axioms b(1) ok(1)]
    note l = dm [OF read_locks [OF b(1) ok(2)]]
    show ?thesis using r l did_read [OF ok(3) [unfolded ReadB]] b(2,3) by auto
  next
    case (WriteB b new k)
    then obtain old where b: "tx_write ?T bd b new s = Done old s'" "is_block new" "scr' = k old"
      using c by (auto simp: pbind_eq_Done split: if_splits)
    note r = quiet_tpm.tx_write_Done [OF mq.quiet_tpm_axioms b(1) ok(1) b(2)]
    note l = dm [OF write_locks [OF b(1) ok(2)]]
    show ?thesis using r l did_write [OF ok(3) [unfolded WriteB]] b(3) by auto
  next
    case (ReleaseB b k)
    then obtain u where b: "tx_release ?T bd b s = Done u s'" "scr' = k"
      using c by (auto simp: pseq_eq_Done)
    note r = quiet_tpm.tx_release_Done [OF mq.quiet_tpm_axioms b(1) ok(1)]
    note l = dm [OF release_locks [OF b(1) ok(2)]]
    show ?thesis using r l did_release [OF ok(3) [unfolded ReleaseB]] b(2) by auto
  next
    case AbortT
    then show ?thesis using c by (simp add: tx_abort_def)
  qed
qed

lemma one_call_frame:
  assumes "one_call (monitor_tpm ef clk bad c) bd scr s = r" "final r = Some s'"
  shows "files s' = files s \<and> tid s' = tid s \<and> lfd s' = lfd s"
proof -
  have "post True (\<lambda>_. frame (files s) (tid s) (lfd s)) (\<lambda>_. frame (files s) (tid s) (lfd s))
      (one_call (monitor_tpm ef clk bad c) bd scr s)"
    by (rule obeysD [OF strict_law.one_step [OF mq.fr.strict_law_axioms]]) (simp add: frame_def)
  then show ?thesis using assms by (cases r) (auto simp: frame_def)
qed

lemma attends_call:
  assumes at: "attends c N scr0 scr s" and c: "one_call (monitor_tpm ef clk bad c) bd scr s = Done scr' s'"
  shows "attends c N scr0 scr' s'"
proof -
  have f: "files s' = files s" "tid s' = tid s" "lfd s' = lfd s"
    using one_call_frame [OF c, of s'] by auto
  have "positive scr'" using one_call_positive [OF mq.quiet_tpm_axioms c] at by (simp add: attends_def)
  moreover have "\<not> error_occured s'"
    using obeys_returns [OF strict_law.one_step [OF clean.strict_law_axioms, of False] _ c] at by (simp add: attends_def)
  moreover have "mem_ok (heap s')"
    using obeys_returns [OF strict_law.one_step [OF memory.strict_law_axioms] _ c] at by (simp add: attends_def)
  moreover have "open_tx c N s'"
    using obeys_returns [OF strict_law.one_step [OF opn.strict_law_axioms] _ c] at by (simp add: attends_def)
  moreover have "fresh_tid s'" "lfd s' = 0" using at f by (simp_all add: attends_def fresh_tid_def)
  moreover have "with_mon c N doomed s' \<or> client_ok s' \<and> in_lock c N s' \<and>
      partly scr0 (store_view (files s')) (dom (locks_of s')) scr' (view s')"
    using at obeys_returns [OF dm.one_call _ c, of N] one_call_refines [OF c, of N scr0 "store_view (files s)"] f
    by (auto simp: attends_def)
  ultimately show ?thesis by (simp add: attends_def)
qed

section \<open>Leaving\<close>

text \<open>What the monitor says about another client once \<open>c\<close> is gone, if it still answers.\<close>

definition left_by :: "fd \<Rightarrow> trid_t \<Rightarrow> fd \<Rightarrow> trid_t option \<Rightarrow> (block_no \<rightharpoonup> locktype) option \<Rightarrow> daemon \<Rightarrow> bool" where
  "left_by c N x ot K dm \<longleftrightarrow> (\<forall>sr. dm = Up sr \<longrightarrow> mon_inv (mon sr) \<and> next_tid (mon sr) = N \<and>
     mfind (transactions (mon sr)) c = None \<and> bystands x ot K (mon sr))"

lemma bye_leaves:
  assumes w: "with_mon c N (\<lambda>_. bystands x ot K) s" and ne: "x \<noteq> c"
    and b: "mon_bye bad c d (srv s) = (d', dm)"
  shows "left_by c N x ot K dm"
proof -
  obtain sr where sr: "srv s = Up sr" "mon_inv (mon sr)" "mfind (transactions (mon sr)) c = Some (tid s)"
    "next_tid (mon sr) = N" "bystands x ot K (mon sr)"
    using w by (auto simp: with_mon_def)
  have m: "mon_inv (drop_client c (tid s) (mon sr))" "bystands x ot K (drop_client c (tid s) (mon sr))"
    using drop_client_inv [OF sr(2,3)] drop_bystands [OF sr(2,3) ne sr(5)] by simp_all
  show ?thesis
  proof (cases "stat_of (mon sr) (tid s) = Some COMMITTING")
    case True
    then show ?thesis using bye_committing [OF sr(3) True, of bad d] b sr(1,4) m
      by (auto simp: left_by_def split: run.splits)
  next
    case False
    then show ?thesis using bye_other [OF sr(2,3) False, of bad d] b sr(1,4) m
      by (auto simp: left_by_def)
  qed
qed

lemma bye_again:
  assumes "left_by c N x ot K dm" "mon_bye bad c d dm = (d', dm')"
  shows "left_by c N x ot K dm' \<and> d' = d"
  using assms by (cases dm) (auto simp: left_by_def mon_bye_def client_disconnect_def on_disk_def)

lemma destruct_leaves:
  assumes w: "with_mon c N (\<lambda>_. bystands x ot K) s" and ne: "x \<noteq> c" and "benign ef"
    and f: "final (destruct (monitor_tpm ef clk bad c) bd s) = Some s'"
  shows "with_mon c N (\<lambda>_. bystands x ot K) s' \<or> left_by c N x ot K (srv s')"
proof -
  let ?T = "monitor_tpm ef clk bad c"
  let ?p = "\<lambda>s. if \<not> error_occured s then commit ?T bd s else Done () s"
  have p: "post True (\<lambda>_. with_mon c N (\<lambda>_. bystands x ot K)) (\<lambda>_. with_mon c N (\<lambda>_. bystands x ot K)) (?p s)"
    using obeysD [OF standing.committing [OF bystanding [OF assms(3) ne]] w] w by simp
  show ?thesis
  proof (cases "?p s")
    case (Done u s1)
    have w1: "with_mon c N (\<lambda>_. bystands x ot K) s1" using p Done by simp
    have d: "destruct ?T bd s = pseq (\<lambda>s. free_entries (bmap s) s) (close_connection ?T) s1"
      unfolding destruct_def by (simp only: pseq_def pbind_def [of ?p] Done run.case)
    obtain h where "free_entries (bmap s1) s1 = Done () (s1\<lparr>heap := h\<rparr>)"
      using frees_mem [OF frees_all, of "bmap s1" s1] f d by (auto simp: pseq_def pbind_def)
    then have "destruct ?T bd s = close_connection ?T (s1\<lparr>heap := h\<rparr>)" using d by (simp add: pseq_def pbind_def)
    then have "srv s' = snd (mon_bye bad c (files s1) (srv s1))"
      using f by (auto simp: close_connection_def monitor_tpm_def Let_def split: prod.splits)
    then show ?thesis using bye_leaves [OF w1 ne, of bad "files s1"]
      by (cases "mon_bye bad c (files s1) (srv s1)") auto
  qed (use p f in \<open>simp_all only: destruct_def pseq_def pbind_def [of ?p] run.case final.simps post.simps option.inject\<close>,
      auto)
qed

lemma doomed_ask:
  assumes "with_mon c N doomed s"
  shows "ask_tpm (monitor_tpm ef clk bad c) COMMIT 0 s = Throw TE_ABORT (s\<lparr>error_occured := True\<rparr>)"
proof -
  obtain sr where sr: "srv s = Up sr" "preempted (tid s) (mon sr)"
    using assms by (auto simp: with_mon_def doomed_def preempted_stat_of)
  have m: "sr\<lparr>mon := mon sr\<rparr> = sr" by simp
  have st: "s\<lparr>files := files s, srv := Up sr\<rparr> = s" using sr(1) by simp
  show ?thesis
    using sr st by (simp add: ask_tpm_def monitor_tpm_def mon_ask_def process_clientrq_def tx_abort_def m Let_def)
qed

lemma doomed_commit:
  "with_mon c N doomed s \<Longrightarrow> commit (monitor_tpm ef clk bad c) bd s = Throw TE_ABORT (s\<lparr>error_occured := True\<rparr>)"
  by (simp add: commit_def pbind_def doomed_ask)

lemma doomed_destruct:
  assumes w: "with_mon c N doomed s" and e: "\<not> error_occured s"
    and f: "final (destruct (monitor_tpm ef clk bad c) bd s) = Some s'"
  shows "destruct (monitor_tpm ef clk bad c) bd s = Throw TE_ABORT s' \<and> s' = s\<lparr>error_occured := True\<rparr>"
  using f e by (simp add: destruct_def pseq_def pbind_def doomed_commit [OF w])

text \<open>A client that leaves without a commit.\<close>

lemma destruct_failed:
  assumes "open_tx c N s" "mem_ok (heap s)" "error_occured s"
    and f: "final (destruct (monitor_tpm ef clk bad c) bd s) = Some s'"
  shows "files s' = files s \<and> closed c N s'"
  using destruct_aborted [OF refl assms(3,1,2), of ef clk bad bd] f by auto

text \<open>The files after a commit.\<close>

lemma files_ok_kept:
  assumes "unheld_kept s d" "files_ok (files s)"
  shows "files_ok d"
proof -
  have "index_valid (index_f (files s)) NBLOCKS" using assms(2) by (simp add: files_ok_def index_valid_def NBLOCKS_def)
  then have "index_valid (index_f d) NBLOCKS" using assms(1) by (simp add: unheld_kept_def)
  then show ?thesis using assms by (auto simp: files_ok_def unheld_kept_def index_valid_def block_valid_def)
qed

lemma commit_elsewhere:
  assumes k: "unheld_kept s d'" and v: "(\<forall>b. store_view d' b = view s b) \<or> (\<forall>b. store_view d' b = store_view (files s) b)"
    and s: "client_ok s" "in_lock c N s" and x: "client_ok sx" "in_lock x M sx" "files sx = files s" "srv sx = srv s"
    and ne: "x \<noteq> c"
  shows "\<forall>b \<in> dom (locks_of sx). same_block d' (files sx) b"
proof
  fix b assume b: "b \<in> dom (locks_of sx)"
  obtain sr where sr: "srv s = Up sr" "mon_inv (mon sr)" "mfind (transactions (mon sr)) c = Some (tid s)"
    "owns (locks_of s) (tid s) (mon sr)" "mfind (transactions (mon sr)) x = Some (tid sx)"
    "owns (locks_of sx) (tid sx) (mon sr)"
    using s(2) x(2,4) by (auto simp: in_lock_def with_mon_def)
  have val: "block_valid (files s) b" using client_okD(5) [OF x(1), of b] b x(3)
    by (auto simp: locks_of_def entry_ok_def)
  show "same_block d' (files sx) b"
  proof (cases "locks_of s b")
    case None
    then show ?thesis using k val x(3) by (auto simp: unheld_kept_def locks_of_def same_block_def)
  next
    case (Some l)
    obtain l' where l': "locks_of sx b = Some l'" using b by blast
    note o = other_tid [OF sr(2,3,5) ne]
    have "l = R_LOCK" using owns_apart [OF sr(2,4,6) o(1) [symmetric] o(2,3) Some l'] by blast
    then have r: "dindex (files s) b = CHR ''A''" "view s b = store_view (files s) b"
      using entry_ok_read [OF s(1)] Some by simp_all
    have "store_view d' b = store_view (files s) b" using v r(2) by metis
    then have "store_view d' b = Some (dblock (files s) b)" using r(1) val by (simp add: store_view_def)
    then show ?thesis using r val x(3) by (auto simp: store_view_def same_block_def split: if_splits)
  qed
qed

section \<open>Every step keeps the order\<close>

lemma world_okD:
  assumes "world_ok w" "wmon w = Up sr"
  shows "mon_inv (mon sr)" "files_ok (wdisk w)" "log_older (next_tid (mon sr)) (wdisk w)"
    "wstage w c = Away \<Longrightarrow> mfind (transactions (mon sr)) c = None"
    "wstage w c = Working scr0 scr \<Longrightarrow> attends c (next_tid (mon sr)) scr0 scr (here w c)"
proof -
  have c: "case wstage w c of Away \<Rightarrow> mfind (transactions (mon sr)) c = None
      | Working scr0 scr \<Rightarrow> attends c (next_tid (mon sr)) scr0 scr (here w c)"
    using assms unfolding world_ok_def by blast
  show "mon_inv (mon sr)" "files_ok (wdisk w)" "log_older (next_tid (mon sr)) (wdisk w)"
    using assms unfolding world_ok_def by blast+
  show "wstage w c = Away \<Longrightarrow> mfind (transactions (mon sr)) c = None"
    "wstage w c = Working scr0 scr \<Longrightarrow> attends c (next_tid (mon sr)) scr0 scr (here w c)"
    using c by simp_all
qed

text \<open>The other clients, when \<open>c\<close> has made a step.\<close>

lemma others_kept:
  assumes ok: "world_ok w" and sr: "wmon w = Up sr" and sr': "wmon w' = Up sr'" "mon_inv (mon sr')"
    and frame: "\<And>x. x \<noteq> c \<Longrightarrow> wstage w' x = wstage w x \<and> here w' x = (here w x)\<lparr>files := wdisk w', srv := wmon w'\<rparr>"
    and tables: "\<And>x ot K. x \<noteq> c \<Longrightarrow> bystands x ot K (mon sr) \<Longrightarrow> bystands x ot K (mon sr')"
    and log: "\<And>x r. x \<noteq> c \<Longrightarrow> r \<in> set (log_f (wdisk w')) \<Longrightarrow>
      r \<in> set (log_f (wdisk w)) \<or> mfind (transactions (mon sr)) c = Some (lr_tid r)"
    and same: "\<And>x N. x \<noteq> c \<Longrightarrow> client_ok (here w x) \<Longrightarrow> in_lock x N (here w x) \<Longrightarrow>
      files_ok (wdisk w') \<and> (\<forall>b \<in> dom (locks_of (here w x)). same_block (wdisk w') (wdisk w) b)"
    and x: "x \<noteq> c"
  shows "case wstage w' x of
       Away \<Rightarrow> mfind (transactions (mon sr')) x = None
     | Working scr0 scr \<Rightarrow> attends x (next_tid (mon sr')) scr0 scr (here w' x)"
proof (cases "wstage w x")
  case Away
  then have "mfind (transactions (mon sr)) x = None" using world_okD(4) [OF ok sr] by blast
  then have "bystands x None None (mon sr)" by (simp add: bystands_def)
  from tables [OF x this] show ?thesis using frame [OF x] Away by (simp add: bystands_def)
next
  case (Working scr0 scr)
  then have at: "attends x (next_tid (mon sr)) scr0 scr (here w x)"
    using world_okD(5) [OF ok sr] by blast
  have t: "mfind (transactions (mon sr)) x = Some (tid (here w x))"
    using at sr by (auto simp: attends_def open_tx_def)
  have inv: "mon_inv (mon sr)" using ok sr by (simp add: world_ok_def)
  have lg: "\<forall>r \<in> set (log_f (wdisk w')). lr_tid r \<noteq> tid (here w x)"
  proof
    fix r assume "r \<in> set (log_f (wdisk w'))"
    then show "lr_tid r \<noteq> tid (here w x)"
      using log [OF x, of r] at other_tid(1) [OF inv _ t x, of "lr_tid r"] by (auto simp: attends_def fresh_tid_def)
  qed
  have hs: "srv (here w x) = Up sr" using sr by simp
  have "attends x (next_tid (mon sr')) scr0 scr ((here w x)\<lparr>files := wdisk w', srv := Up sr'\<rparr>)"
    by (rule attends_other [OF at hs sr'(2) refl tables [OF x attends_bystands [OF at hs]] lg])
      (unfold here_sel, rule same [OF x], assumption+)
  then show ?thesis using frame [OF x] Working sr'(1) by simp
qed

lemma log_older_kept:
  assumes "log_older N d" "\<And>r. r \<in> set (log_f d') \<Longrightarrow> r \<in> set (log_f d) \<or> lr_tid r < N"
  shows "log_older N d'"
  using assms by (auto simp: log_older_def)

lemma world_okI:
  assumes "\<And>x scr0 scr. wstage w x = Working scr0 scr \<Longrightarrow> \<not> error_occured (wlocal w x)"
    and "\<And>sr. wmon w = Up sr \<Longrightarrow> mon_inv (mon sr) \<and> files_ok (wdisk w) \<and> log_older (next_tid (mon sr)) (wdisk w)"
    and "\<And>sr x. wmon w = Up sr \<Longrightarrow> (case wstage w x of
             Away \<Rightarrow> mfind (transactions (mon sr)) x = None
           | Working scr0 scr \<Rightarrow> attends x (next_tid (mon sr)) scr0 scr (here w x))"
  shows "world_ok w"
  using assms unfolding world_ok_def by blast

lemma world_ok_flag: "world_ok w \<Longrightarrow> wstage w c = Working scr0 scr \<Longrightarrow> \<not> error_occured (here w c)"
  by (auto simp: world_ok_def here_def)

lemma put_back_flag:
  assumes "world_ok w" "\<And>a b. st = Working a b \<Longrightarrow> \<not> error_occured s"
    and "wstage (put_back w c st s) x = Working scr0 scr"
  shows "\<not> error_occured (wlocal (put_back w c st s) x)"
  using assms by (auto simp: world_ok_def put_back_def split: if_splits)

subsection \<open>Starting\<close>

lemma start_ok:
  assumes ok: "world_ok w" and ef: "benign ef" and aw: "wstage w c = Away"
    and s: "files s = wdisk w" "srv s = wmon w" "wmon w = Up sr" "next_tid (mon sr) \<noteq> -1" "mem_ok (heap s)"
    and pos: "positive scr" and k: "construct (monitor_tpm ef clk no_faults c) bad p s = Done u s'"
  shows "world_ok (put_back w c (Working scr scr) s') \<and> files s' = wdisk w"
proof -
  let ?w = "put_back w c (Working scr scr) s'"
  note W = world_okD [OF ok s(3)]
  let ?N = "next_tid (mon sr)"
  have "attempt_start c ?N (wdisk w) s"
    using W(1-3) W(4) [OF aw] s by (simp add: attempt_start_def closed_def)
  from construct_ends [OF this s(4), of ef clk no_faults bad p] k
  have cd: "open_tx c (?N + 1) s'" "client_ok s'" "lfd s' = 0" "\<not> error_occured s'" "files s' = wdisk w"
    "view s' = store_view (wdisk w)" "fresh_tid s'" by auto
  have sr': "srv s = Up sr" using s(2,3) by simp
  show ?thesis
  proof (rule construct_eq [OF sr' W(1) k])
    fix m' assume m': "process_clientrq ef clk \<lparr>rq_tid = 0, rq_pid = p, rq_request = BEGIN, rq_reply = OK, rq_block = 0\<rparr> c (mon sr) =
       Ret (m', \<lparr>rq_tid = ?N, rq_pid = p, rq_request = BEGIN, rq_reply = OK, rq_block = 0\<rparr>)"
      "stat_of m' ?N = Some BEGUN" "next_tid m' = ?N + 1"
      and e: "s' = s\<lparr>tid := ?N, pid := p, error_occured := False, last_free_block := 0, bmap := mempty, lfd := 0,
        srv := Up (sr\<lparr>mon := m'\<rparr>)\<rparr>"
    have l: "locks_of s' = (\<lambda>_. None)" by (simp add: e locks_of_def fun_eq_iff)
    have inv: "mon_inv m'" "mfind (transactions m') c = Some ?N" using cd(1) e by (auto simp: open_tx_def)
    have ts: "tid s' = ?N" "srv s' = Up (sr\<lparr>mon := m'\<rparr>)" by (simp_all add: e)
    have "in_lock c (?N + 1) s'" unfolding in_lock_def with_mon_def l owns_def using inv m'(2,3) ts by simp
    moreover have "partly scr (store_view (wdisk w)) {} scr (store_view (wdisk w))" by (rule partly.at_start)
    moreover have "mem_ok (heap s')" using client_okD(1) [OF cd(2)] .
    ultimately have at: "attends c (?N + 1) scr scr s'" using cd pos by (simp add: attends_def l)
    have fl: "wmon ?w = Up (sr\<lparr>mon := m'\<rparr>)" "wdisk ?w = wdisk w" using e s(1) by simp_all
    have "world_ok ?w"
    proof (rule world_okI)
      fix sr1 x assume "wmon ?w = Up sr1"
      then have sr1: "sr1 = sr\<lparr>mon := m'\<rparr>" using fl by simp
      have "log_older (?N + 1) (wdisk w)"
        using W(3) s(4) by (auto simp: log_older_def intro!: word_less_add_one less_imp_le)
      then show "mon_inv (mon sr1) \<and> files_ok (wdisk ?w) \<and> log_older (next_tid (mon sr1)) (wdisk ?w)"
        using inv W(2) fl m'(3) by (simp add: sr1)
      show "case wstage ?w x of Away \<Rightarrow> mfind (transactions (mon sr1)) x = None
           | Working scr0 scr \<Rightarrow> attends x (next_tid (mon sr1)) scr0 scr (here ?w x)"
      proof (cases "x = c")
        case True
        then show ?thesis using at m'(3) by (simp add: sr1)
      next
        case False
        then show ?thesis
          by (intro others_kept [OF ok s(3) fl(1) _ _ _ _ _ False, folded sr1])
            (use inv fl cd(5) W(2) begin_bystands [OF m'(1) _ W(1)] in \<open>auto simp: sr1 same_block_def\<close>)
      qed
    qed (rule put_back_flag [OF ok], use cd(4) in auto)
    then show ?thesis using cd(5) by simp
  qed
qed

subsection \<open>A monitor that does not answer\<close>

definition silent :: "daemon cstate \<Rightarrow> bool" where
  "silent s \<longleftrightarrow> (\<forall>sr. srv s \<noteq> Up sr)"

lemma silent_ask: "silent s \<Longrightarrow> ask_tpm (monitor_tpm ef clk bad c) q b s \<in> {Wrong, Loop}"
  by (cases "srv s") (auto simp: silent_def ask_tpm_def monitor_tpm_def mon_ask_def)

lemma silent_obeys: "obeys silent (\<lambda>_. silent) (ask_tpm (monitor_tpm ef clk bad c) q b)"
proof (rule obeysI)
  fix s assume "silent s"
  from silent_ask [OF this, of ef clk bad c q b]
  show "post True (\<lambda>_. silent) (\<lambda>_. silent) (ask_tpm (monitor_tpm ef clk bad c) q b s)" by auto
qed

interpretation si: strict_law "monitor_tpm ef clk bad c" silent "\<lambda>_. silent" for ef clk bad c
proof (unfold_locales, goal_cases)
  case (1 q b)
  show ?case by (rule silent_obeys)
next
  case (2 s)
  show ?case by (rule restart_law [OF silent_obeys 2]) (simp_all add: silent_def)
qed (simp_all add: silent_def)

lemma silent_bye: "silent s \<Longrightarrow> mon_bye bad c d (srv s) = (d, srv s)"
  by (cases "srv s") (auto simp: silent_def mon_bye_def)

lemma silent_destruct:
  assumes "silent s" and f: "final (destruct (monitor_tpm ef clk bad c) bd s) = Some s'"
  shows "error_occured s \<and> files s' = files s \<and> silent s'"
proof -
  let ?T = "monitor_tpm ef clk bad c"
  have e: "error_occured s"
  proof (rule ccontr)
    assume "\<not> error_occured s"
    then show False using f silent_ask [OF assms(1), of ef clk bad c COMMIT 0]
      by (auto simp: destruct_def commit_def pseq_def pbind_def)
  qed
  obtain h where "free_entries (bmap s) s = Done () (s\<lparr>heap := h\<rparr>)"
    using frees_mem [OF frees_all, of "bmap s" s] f e by (auto simp: destruct_def pseq_def pbind_def)
  then have "destruct ?T bd s = close_connection ?T (s\<lparr>heap := h\<rparr>)"
    using e by (simp add: destruct_def pseq_def pbind_def)
  then show ?thesis using f e silent_bye [OF assms(1), of bad c "files s"] assms(1)
    by (auto simp: close_connection_def monitor_tpm_def silent_def)
qed

subsection \<open>Calling\<close>

lemma bystander_here:
  assumes "attends c N scr0 scr s" "srv s = Up sr" "bystands x ot K (mon sr)"
  shows "with_mon c N (\<lambda>_. bystands x ot K) s"
  using assms by (auto simp: attends_def open_tx_def with_mon_def)

lemma call_ok:
  assumes ok: "world_ok w" and ef: "benign ef" and st: "wstage w c = Working scr0 scr"
    and k: "one_call (monitor_tpm ef clk no_faults c) bad scr (here w c) = Done scr' s'"
  shows "world_ok (put_back w c (Working scr0 scr') s') \<and> files s' = wdisk w"
proof -
  let ?w = "put_back w c (Working scr0 scr') s'"
  have f: "files s' = wdisk w" using one_call_frame [OF k, of s'] by simp
  have e: "\<not> error_occured s'"
    using obeys_returns [OF strict_law.one_step [OF clean.strict_law_axioms, of False] _ k] world_ok_flag [OF ok st]
    by simp
  have "world_ok ?w"
  proof (rule world_okI)
    fix sr' x assume "wmon ?w = Up sr'"
    then have sr': "srv s' = Up sr'" by simp
    obtain sr where sr: "wmon w = Up sr"
      using obeys_returns [OF strict_law.one_step [OF si.strict_law_axioms] _ k] sr'
      by (cases "wmon w") (auto simp: silent_def)
    note W = world_okD [OF ok sr]
    let ?N = "next_tid (mon sr)"
    have at: "attends c ?N scr0 scr' s'" by (rule attends_call [OF W(5) [OF st] k])
    have o: "mon_inv (mon sr')" "next_tid (mon sr') = ?N" using at sr' by (auto simp: attends_def open_tx_def)
    show "mon_inv (mon sr') \<and> files_ok (wdisk ?w) \<and> log_older (next_tid (mon sr')) (wdisk ?w)"
      using o W(2,3) f by simp
    have tables: "bystands y ot K (mon sr')" if "y \<noteq> c" "bystands y ot K (mon sr)" for y ot K
    proof -
      have "with_mon c ?N (\<lambda>_. bystands y ot K) (here w c)"
        by (rule bystander_here [OF W(5) [OF st] _ that(2)]) (simp add: sr)
      from obeys_returns [OF standing.one_call [OF bystanding [OF ef that(1)]] this k]
      show ?thesis using sr' by (simp add: with_mon_def)
    qed
    show "case wstage ?w x of Away \<Rightarrow> mfind (transactions (mon sr')) x = None
           | Working scr0 scr \<Rightarrow> attends x (next_tid (mon sr')) scr0 scr (here ?w x)"
    proof (cases "x = c")
      case True
      then show ?thesis using at o by simp
    next
      case False
      show ?thesis
        by (rule others_kept [OF ok sr _ o(1) _ tables _ _ False]) (use sr' f W(2) in \<open>auto simp: same_block_def\<close>)
    qed
  qed (rule put_back_flag [OF ok], use e in auto)
  then show ?thesis using f by simp
qed

subsection \<open>Leaving\<close>

lemma someone:
  assumes "world_ok w" "wmon w = Up sr"
  shows "\<exists>ot K. bystands x ot K (mon sr)"
proof (cases "wstage w x")
  case Away
  then have "bystands x None None (mon sr)" using world_okD(4) [OF assms] by (simp add: bystands_def)
  then show ?thesis by blast
next
  case (Working scr0 scr)
  have "srv (here w x) = Up sr" using assms(2) by simp
  from attends_bystands [OF world_okD(5) [OF assms Working] this] show ?thesis by blast
qed

lemma gone_sel:
  assumes "mon_bye no_faults c (files s') (srv s') = (d', dm)"
  shows "gone w c s' = put_back w c Away (s'\<lparr>files := d', srv := dm\<rparr>)"
  using assms by (simp add: gone_def)

lemma gone_ok:
  assumes ok: "world_ok w" and sr: "wmon w = Up sr" and st: "wstage w c = Working scr0 scr"
    and leaves: "\<And>x ot K. x \<noteq> c \<Longrightarrow> bystands x ot K (mon sr) \<Longrightarrow>
      with_mon c (next_tid (mon sr)) (\<lambda>_. bystands x ot K) s' \<or> left_by c (next_tid (mon sr)) x ot K (srv s')"
    and bye: "mon_bye no_faults c (files s') (srv s') = (d', dm)"
    and fok: "files_ok d'"
    and log: "\<And>r. r \<in> set (log_f d') \<Longrightarrow>
      r \<in> set (log_f (wdisk w)) \<or> mfind (transactions (mon sr)) c = Some (lr_tid r)"
    and same: "\<And>x N. x \<noteq> c \<Longrightarrow> client_ok (here w x) \<Longrightarrow> in_lock x N (here w x) \<Longrightarrow>
      \<forall>b \<in> dom (locks_of (here w x)). same_block d' (wdisk w) b"
  shows "world_ok (gone w c s') \<and> wdisk (gone w c s') = d'"
proof -
  let ?w = "put_back w c Away (s'\<lparr>files := d', srv := dm\<rparr>)"
  note W = world_okD [OF ok sr]
  have lb: "left_by c (next_tid (mon sr)) x ot K dm" if "x \<noteq> c" "bystands x ot K (mon sr)" for x ot K
    using leaves [OF that] bye_leaves [OF _ that(1) bye] bye_again [OF _ bye] by blast
  have kn: "t < next_tid (mon sr)" if "mfind (transactions (mon sr)) c = Some t" for t
    using W(1) that by (auto simp: mon_inv_def tids_ok_def)
  have "world_ok ?w"
  proof (rule world_okI)
    fix sr' x assume "wmon ?w = Up sr'"
    then have sr': "dm = Up sr'" by simp
    obtain ot K where "bystands (c + 1) ot K (mon sr)" using someone [OF ok sr] by blast
    from lb [OF _ this] sr' have o: "mon_inv (mon sr')" "next_tid (mon sr') = next_tid (mon sr)"
        "mfind (transactions (mon sr')) c = None"
      by (simp_all add: left_by_def)
    show "mon_inv (mon sr') \<and> files_ok (wdisk ?w) \<and> log_older (next_tid (mon sr')) (wdisk ?w)"
      using o fok log_older_kept [OF W(3), of d'] log kn by auto
    have tables: "bystands y ot K (mon sr')" if "y \<noteq> c" "bystands y ot K (mon sr)" for y ot K
      using lb [OF that] sr' by (simp add: left_by_def)
    show "case wstage ?w x of Away \<Rightarrow> mfind (transactions (mon sr')) x = None
           | Working scr0 scr \<Rightarrow> attends x (next_tid (mon sr')) scr0 scr (here ?w x)"
    proof (cases "x = c")
      case True
      then show ?thesis using o by simp
    next
      case False
      show ?thesis
        by (rule others_kept [OF ok sr _ o(1) _ tables _ _ False]) (use sr' fok log same in auto)
    qed
  qed (rule put_back_flag [OF ok], auto)
  then show ?thesis using gone_sel [OF bye] by simp
qed

text \<open>A client that leaves with the files as they are.\<close>

lemma quiet_gone:
  assumes ok: "world_ok w" and st: "wstage w c = Working scr0 scr"
    and leaves: "\<And>sr x ot K. wmon w = Up sr \<Longrightarrow> x \<noteq> c \<Longrightarrow> bystands x ot K (mon sr) \<Longrightarrow>
      with_mon c (next_tid (mon sr)) (\<lambda>_. bystands x ot K) s' \<or> left_by c (next_tid (mon sr)) x ot K (srv s')"
    and f: "files s' = wdisk w"
    and own: "\<And>sr. wmon w = Up sr \<Longrightarrow> open_tx c (next_tid (mon sr)) s' \<or> closed c (next_tid (mon sr)) s'"
    and dead: "silent (here w c) \<Longrightarrow> silent s'"
  shows "world_ok (gone w c s') \<and> wdisk (gone w c s') = wdisk w"
proof -
  obtain d' dm where b: "mon_bye no_faults c (files s') (srv s') = (d', dm)" by fastforce
  show ?thesis
  proof (cases "silent (here w c)")
    case False
    then obtain sr where Up: "wmon w = Up sr" by (auto simp: silent_def)
    have d: "d' = wdisk w" using own [OF Up] bye_open bye_closed b f by (metis fst_conv)
    show ?thesis using gone_ok [OF ok Up st leaves [OF Up] b] world_okD(2) [OF ok Up] d
      by (simp add: same_block_def)
  next
    case True
    then have s: "silent s'" by (rule dead)
    then have e: "dm = srv s'" "d' = wdisk w" using silent_bye [OF s, of no_faults c "files s'"] b f by auto
    have "world_ok (put_back w c Away (s'\<lparr>files := d', srv := dm\<rparr>))"
      by (rule world_okI, erule put_back_flag [OF ok, rotated]) (use s e in \<open>auto simp: silent_def\<close>)
    then show ?thesis unfolding gone_sel [OF b] using e by simp
  qed
qed

lemma call_bystands:
  assumes "world_ok w" "benign ef" "wstage w c = Working scr0 scr" "wmon w = Up sr" "x \<noteq> c"
    and "bystands x ot K (mon sr)" "final (one_call (monitor_tpm ef clk no_faults c) bad scr (here w c)) = Some s1"
  shows "with_mon c (next_tid (mon sr)) (\<lambda>_. bystands x ot K) s1 \<and> open_tx c (next_tid (mon sr)) s1 \<and> mem_ok (heap s1)"
proof -
  note at = world_okD(5) [OF assms(1,4,3)]
  have w: "with_mon c (next_tid (mon sr)) (\<lambda>_. bystands x ot K) (here w c)"
    by (rule bystander_here [OF at _ assms(6)]) (simp add: assms(4))
  have o: "open_tx c (next_tid (mon sr)) (here w c)" "mem_ok (heap (here w c))" using at by (simp_all add: attends_def)
  let ?r = "one_call (monitor_tpm ef clk no_faults c) bad scr (here w c)"
  note l = obeysD [OF standing.one_call [OF bystanding [OF assms(2,5)]] w, of clk no_faults bad scr]
    obeysD [OF strict_law.one_step [OF opn.strict_law_axioms] o(1), of ef clk no_faults bad scr]
    obeysD [OF strict_law.one_step [OF memory.strict_law_axioms] o(2), of "monitor_tpm ef clk no_faults c" bad scr]
  show ?thesis using l assms(7) by (cases ?r) auto
qed

lemma silent_call:
  assumes "silent s" "final (one_call (monitor_tpm ef clk bad c) bd scr s) = Some s1"
  shows "silent s1"
  using obeysD [OF strict_law.one_step [OF si.strict_law_axioms] assms(1), of ef clk bad c bd scr] assms(2)
  by (cases "one_call (monitor_tpm ef clk bad c) bd scr s") auto

lemma fail_ok:
  assumes ok: "world_ok w" and ef: "benign ef" and st: "wstage w c = Working scr0 scr"
    and k: "one_call (monitor_tpm ef clk no_faults c) bad scr (here w c) = Throw e s1"
    and f: "final (destruct (monitor_tpm ef clk' no_faults c) bad' s1) = Some s'"
  shows "world_ok (gone w c s') \<and> wdisk (gone w c s') = wdisk w"
proof -
  have f1: "files s1 = wdisk w" using one_call_frame [OF k, of s1] by simp
  have k1: "final (one_call (monitor_tpm ef clk no_faults c) bad scr (here w c)) = Some s1" using k by simp
  have up: "files s' = files s1 \<and> closed c (next_tid (mon sr)) s'" if sr: "wmon w = Up sr" for sr
  proof -
    have "positive scr" using world_okD(5) [OF ok sr st] by (simp add: attends_def)
    then have "error_occured s1" by (rule one_call_throws [OF k])
    moreover obtain ot K where "bystands (c + 1) ot K (mon sr)" using someone [OF ok sr] by blast
    ultimately show ?thesis
      using destruct_failed [OF _ _ _ f, of "next_tid (mon sr)"] call_bystands [OF ok ef st sr _ _ k1] by force
  qed
  show ?thesis
  proof (rule quiet_gone [OF ok st])
    show "with_mon c (next_tid (mon sr)) (\<lambda>_. bystands x ot K) s' \<or> left_by c (next_tid (mon sr)) x ot K (srv s')"
      if "wmon w = Up sr" "x \<noteq> c" "bystands x ot K (mon sr)" for sr x ot K
      using destruct_leaves [OF _ that(2) ef f] call_bystands [OF ok ef st that k1] by blast
    show "silent s'" if "silent (here w c)"
      using silent_destruct [OF silent_call [OF that k1] f] by blast
    show "files s' = wdisk w"
    proof (cases "silent (here w c)")
      case True
      then show ?thesis using silent_destruct [OF silent_call [OF True k1] f] f1 by simp
    next
      case False
      then show ?thesis using up f1 by (auto simp: silent_def)
    qed
  qed (use up in blast)
qed

lemma exit_ok:
  assumes ok: "world_ok w" and ef: "benign ef" and st: "wstage w c = Working scr0 scr"
    and k: "one_call (monitor_tpm ef clk no_faults c) bad scr (here w c) = Quit s'"
  shows "world_ok (gone w c s') \<and> wdisk (gone w c s') = wdisk w"
proof -
  have k1: "final (one_call (monitor_tpm ef clk no_faults c) bad scr (here w c)) = Some s'" using k by simp
  show ?thesis
  proof (rule quiet_gone [OF ok st])
    show "with_mon c (next_tid (mon sr)) (\<lambda>_. bystands x ot K) s' \<or> left_by c (next_tid (mon sr)) x ot K (srv s')"
      if "wmon w = Up sr" "x \<noteq> c" "bystands x ot K (mon sr)" for sr x ot K
      using call_bystands [OF ok ef st that k1] by blast
    show "open_tx c (next_tid (mon sr)) s' \<or> closed c (next_tid (mon sr)) s'" if sr: "wmon w = Up sr" for sr
    proof -
      obtain ot K where "bystands (c + 1) ot K (mon sr)" using someone [OF ok sr] by blast
      then show ?thesis using call_bystands [OF ok ef st sr _ _ k1] by force
    qed
    show "silent s'" if "silent (here w c)" by (rule silent_call [OF that k1])
    show "files s' = wdisk w" using one_call_frame [OF k, of s'] by simp
  qed
qed

lemma kill_ok:
  assumes ok: "world_ok w" and st: "wstage w c = Working scr0 scr"
  shows "world_ok (gone w c (here w c)) \<and> wdisk (gone w c (here w c)) = wdisk w"
proof (rule quiet_gone [OF ok st])
  show "with_mon c (next_tid (mon sr)) (\<lambda>_. bystands x ot K) (here w c) \<or>
      left_by c (next_tid (mon sr)) x ot K (srv (here w c))"
    if "wmon w = Up sr" "x \<noteq> c" "bystands x ot K (mon sr)" for sr x ot K
    using bystander_here [OF world_okD(5) [OF ok that(1) st] _ that(3)] that(1) by simp
  show "open_tx c (next_tid (mon sr)) (here w c) \<or> closed c (next_tid (mon sr)) (here w c)" if "wmon w = Up sr" for sr
    using world_okD(5) [OF ok that st] by (simp add: attends_def)
qed simp_all

subsection \<open>Committing\<close>

definition log_closed :: "disk \<Rightarrow> bool" where
  "log_closed d \<longleftrightarrow> collect (log_f d) = []"

lemma not_refused:
  assumes "attends c N scr0 scr (here w c)" "wmon w = Up sr" "\<not> with_mon c N doomed (here w c)"
  shows "\<not> refused w c"
  using assms by (auto simp: attends_def open_tx_def with_mon_def doomed_def refused_def)

lemma end_ok:
  assumes ok: "world_ok w" and ef: "benign ef" and st: "wstage w c = Working scr0 Finish"
    and f: "final (destruct (monitor_tpm ef clk no_faults c) bad (here w c)) = Some s'"
  shows "world_ok (gone w c s') \<and> (log_closed (wdisk w) \<longrightarrow> log_closed (wdisk (gone w c s'))) \<and>
    (runs_to scr0 (store_view (wdisk w)) (store_view (wdisk (gone w c s'))) \<or>
     (\<forall>u. destruct (monitor_tpm ef clk no_faults c) bad (here w c) \<noteq> Done u s') \<and>
     store_view (wdisk (gone w c s')) = store_view (wdisk w)) \<and>
    (refused w c \<longrightarrow> (\<forall>u. destruct (monitor_tpm ef clk no_faults c) bad (here w c) \<noteq> Done u s') \<and>
     store_view (wdisk (gone w c s')) = store_view (wdisk w))"
proof -
  let ?T = "monitor_tpm ef clk no_faults c" and ?s = "here w c"
  obtain d' dm where b: "mon_bye no_faults c (files s') (srv s') = (d', dm)" by fastforce
  have e: "\<not> error_occured ?s" by (rule world_ok_flag [OF ok st])
  have "\<not> silent ?s" using silent_destruct [OF _ f] e by blast
  then obtain sr where sr: "wmon w = Up sr" by (auto simp: silent_def)
  note W = world_okD [OF ok sr]
  let ?N = "next_tid (mon sr)"
  have at: "attends c ?N scr0 Finish ?s" by (rule W(5) [OF st])
  have leaves: "with_mon c ?N (\<lambda>_. bystands x ot K) s' \<or> left_by c ?N x ot K (srv s')"
    if "x \<noteq> c" "bystands x ot K (mon sr)" for x ot K
    using destruct_leaves [OF bystander_here [OF at _ that(2)] that(1) ef f] sr by simp
  show ?thesis
  proof (cases "with_mon c ?N doomed ?s")
    case True
    note d = doomed_destruct [OF True e f]
    have "open_tx c ?N s'" using d at by (auto simp: attends_def open_tx_def)
    then have "world_ok (gone w c s') \<and> wdisk (gone w c s') = wdisk w"
      using d sr leaves by (intro quiet_gone [OF ok st]) (auto simp: silent_def)
    then show ?thesis using d by auto
  next
    case False
    then have al: "client_ok ?s" "in_lock c ?N ?s" "lfd ?s = 0" "fresh_tid ?s"
      "partly scr0 (store_view (wdisk w)) (dom (locks_of ?s)) Finish (view ?s)"
      using at by (auto simp: attends_def)
    have sv: "served c ?s" using al(2) by (auto simp: in_lock_def with_mon_def served_def)
    note dc = destruct_commits [OF sv al(1,3) e al(4) f b]
    have "runs_to scr0 (store_view (wdisk w)) (view ?s)"
      by (rule partly_complete [OF al(5) on_finish])
    moreover have v: "(\<forall>x. store_view d' x = view ?s x) \<or> (\<forall>x. store_view d' x = store_view (wdisk w) x)"
      using dc by auto
    have k: "unheld_kept ?s d'" and lc: "log_closed (wdisk w) \<longrightarrow> log_closed d'"
      using dc al(4) by (simp_all add: left_over_def own_growth_def log_closed_def)
    have ti: "mfind (transactions (mon sr)) c = Some (tid ?s)" using at sr by (auto simp: attends_def open_tx_def)
    have "world_ok (gone w c s') \<and> wdisk (gone w c s') = d'"
    proof (rule gone_ok [OF ok sr st leaves b])
      show "files_ok d'" using files_ok_kept [OF k] W(2) by simp
      show "r \<in> set (log_f (wdisk w)) \<or> mfind (transactions (mon sr)) c = Some (lr_tid r)"
        if "r \<in> set (log_f d')" for r using dc that ti by (auto simp: left_over_def own_growth_def)
      show "\<forall>b \<in> dom (locks_of (here w x)). same_block d' (wdisk w) b"
        if "x \<noteq> c" "client_ok (here w x)" "in_lock x N (here w x)" for x N
        using commit_elsewhere [OF k _ al(1,2) that(2,3) _ _ that(1)] v by simp
    qed
    moreover have "\<not> refused w c" using not_refused [OF at sr False] .
    ultimately show ?thesis using dc lc by (auto simp: fun_eq_iff [symmetric])
  qed
qed

section \<open>Serializability\<close>

text \<open>The files keep to the order of the commits, and between two steps no transaction is open in the log.\<close>

lemma step_ok:
  assumes "world_step ef w e w'" "benign ef" "world_ok w" "explains h \<sigma> (store_view (wdisk w))"
  shows "world_ok w' \<and> explains (h @ e) \<sigma> (store_view (wdisk w')) \<and> (log_closed (wdisk w) \<longrightarrow> log_closed (wdisk w'))"
  using assms(1)
proof cases
  case (starts c s sr scr clk bad p u s')
  then show ?thesis using start_ok [OF assms(3,2), of c s sr scr clk bad p u s'] assms(4) by simp
next
  case (calls c scr0 scr clk bad scr' s')
  then show ?thesis using call_ok [OF assms(3,2), of c scr0 scr clk bad scr' s'] assms(4) by simp
next
  case (fails c scr0 scr clk bad ex s1 clk' bad' s')
  then show ?thesis using fail_ok [OF assms(3,2), of c scr0 scr clk bad ex s1 clk' bad' s'] assms(4) by simp
next
  case (exits c scr0 scr clk bad s')
  then show ?thesis using exit_ok [OF assms(3,2), of c scr0 scr clk bad s'] assms(4) by simp
next
  case (killed c scr0 scr)
  then show ?thesis using kill_ok [OF assms(3), of c scr0 scr] assms(4) by simp
next
  case (ends c scr0 clk bad r s')
  note en = end_ok [OF assms(3,2) ends(3), of clk bad s']
  show ?thesis
  proof (cases "refused w c")
    case True
    then show ?thesis using ends en assms(4) by (auto simp: counts_as_def)
  next
    case nr: False
    show ?thesis
    proof (cases "runs_to scr0 (store_view (wdisk w)) (store_view (wdisk w'))")
      case True
      then show ?thesis using ends en nr explains.ran [OF assms(4) True] by (auto simp: counts_as_def)
    next
      case False
      then show ?thesis using ends en nr explains.undone [OF assms(4), of scr0] by (auto simp: counts_as_def)
    qed
  qed
qed

theorem runs_serial:
  assumes "benign ef" "files_ok d" "log_older 1 d" "world_runs ef d h w"
  shows "world_ok w \<and> explains h (store_view d) (store_view (wdisk w)) \<and>
    (log_closed d \<longrightarrow> log_closed (wdisk w))"
  using assms(4)
proof (induction rule: world_runs.induct)
  case (boot l loc)
  have "world_ok \<lparr>wdisk = d, wmon = Up \<lparr>mon = init_monitor, lgr = l\<rparr>, wstage = (\<lambda>_. Away), wlocal = loc\<rparr>"
    using assms(2,3) mon_inv_init by (simp add: world_ok_def) (simp add: init_monitor_def)
  then show ?case by (simp add: explains.nobody)
next
  case (step h w e w')
  then show ?case using step_ok assms(1) by blast
qed

end
