(* ===== verification/Interrupted.thy ===== *)
theory Interrupted
  imports CrashRecovery
begin

text \<open>
  Recovery that is stopped itself. A run of \<open>recover\<close> after a stopped commit, cut off by any failing
  system call, leaves files from which the next run can start again; a run that gets to its end has
  restored the datastore whichever of its calls failed on the way. A failing \<open>read\<close> of the log is
  excluded: the loop of \<open>doRecovery\<close> takes it for the end of the log.
\<close>

section \<open>Undoing with failing calls\<close>

lemma undoable_undo_eff:
  assumes u: "undoable d0 W d" and r: "r \<in> set W"
  shows "undoable d0 W (undo_eff r d)"
proof (cases "effective (lr_action r)")
  case False
  then have "undo_eff r d = d" by (cases "lr_action r") (simp_all add: effective_def undo_eff.simps)
  then show ?thesis using u by simp
next
  case True
  then have t: "touches r (lr_block r)" by (simp add: touches_def)
  have ok: "rec_ok d r" by (rule undoable_rec_ok [OF u r])
  have bv: "block_valid (undo_eff r d) c = block_valid d c" for c using ok by simp
  have iv: "index_valid (index_f (undo_eff r d)) c = index_valid (index_f d) c" for c
    using ok True by (cases "lr_action r") (auto simp: undo_eff.simps rec_ok_def block_valid_def ix.valid_put)
  have bvd: "block_valid d c = block_valid d0 c" for c using u by (simp add: undoable_def)
  have rs: "restores d0 d r" using u r by (simp add: undoable_def)
  show ?thesis
    by (rule undoable_change [OF u r t])
      (use bv iv bvd undo_eff_other [OF ok] undo_eff_same [OF ok t] rs in
        \<open>auto simp: touches_def restores_def Let_def\<close>)
qed

text \<open>A store write that fails while a release is undone is ignored, but it would not change anything.\<close>

lemma undo_one_any:
  assumes u: "undoable d0 W (dsk s)" and r: "r \<in> set W"
  shows "undo_one bad r s = Done () (s\<lparr>dsk := undo_eff r (dsk s)\<rparr>) \<or> undo_one bad r s = Quit s"
proof -
  let ?b = "lr_block r"
  have ok: "rec_ok (dsk s) r" by (rule undoable_rec_ok [OF u r])
  have pos: "effective (lr_action r) \<Longrightarrow> 1 \<le> ?b \<and> offset_ok ?b"
    using ok by (auto simp: rec_ok_def dest: block_valid_pos)
  have same: "store_put ?b (lr_oldval r) (store_f (dsk s)) = store_f (dsk s)"
    if "lr_action r = LRELEASE" "lr_oindex r = CHR ''A''"
  proof -
    have "lr_oldval r = dblock (dsk s) ?b"
      using u r that by (auto simp: undoable_def restores_def Let_def)
    moreover have "store_valid (store_f (dsk s)) ?b"
      using ok that by (simp add: rec_ok_def effective_def block_valid_def)
    ultimately show ?thesis by (simp add: dblock_def sf.put_get)
  qed
  show ?thesis
    using pos same
    by (cases "lr_action r")
      (auto simp: undo_one_def undo_write_index_def undo_eff.simps write_store_def write_index_def effective_def
        pseq_def pbind_def)
qed

lemma undo_idle: "\<not> effective (lr_action r) \<Longrightarrow> undo_one bad r s = Done () s \<and> undo_eff r d = d"
  by (cases "lr_action r") (simp_all add: effective_def undo_one_def undo_eff.simps)

lemma undo_rec_any:
  assumes "undoable d0 W (dsk s)" "\<forall>r \<in> set rs. r \<in> set W \<or> \<not> effective (lr_action r)"
  shows "undo_rec bad rs s = Done () (s\<lparr>dsk := undo_all rs (dsk s)\<rparr>) \<or>
    (\<exists>d. undo_rec bad rs s = Quit (s\<lparr>dsk := d\<rparr>) \<and> undoable d0 W d \<and> log_f d = log_f (dsk s))"
  using assms
proof (induction rs arbitrary: s)
  case Nil
  then show ?case by simp
next
  case (Cons r rs)
  let ?s1 = "s\<lparr>dsk := undo_eff r (dsk s)\<rparr>"
  have u1: "undoable d0 W (undo_eff r (dsk s))"
    using undoable_undo_eff [OF Cons.prems(1)] undo_idle Cons.prems by (metis list.set_intros(1))
  have "undo_one bad r s = Done () ?s1 \<or> undo_one bad r s = Quit s"
  proof (cases "r \<in> set W")
    case True
    then show ?thesis by (rule undo_one_any [OF Cons.prems(1)])
  next
    case False
    then have "\<not> effective (lr_action r)" using Cons.prems(2) by simp
    from undo_idle [OF this] show ?thesis by simp
  qed
  then show ?case
  proof
    assume "undo_one bad r s = Done () ?s1"
    then show ?thesis using Cons.IH [of ?s1] Cons.prems(2) u1 by (auto simp: pseq_def pbind_def)
  next
    assume "undo_one bad r s = Quit s"
    then show ?thesis using Cons.prems(1) by (auto simp: pseq_def pbind_def intro!: exI [of _ "dsk s"])
  qed
qed

lemma undo_all_any:
  assumes "undoable d0 W d" "\<forall>r \<in> set rs. r \<in> set W \<or> \<not> effective (lr_action r)"
  shows "undoable d0 W (undo_all rs d) \<and> log_f (undo_all rs d) = log_f d"
  using assms
proof (induction rs arbitrary: d)
  case (Cons r rs)
  have "undoable d0 W (undo_eff r d)"
    using undoable_undo_eff [OF Cons.prems(1)] undo_idle Cons.prems by (metis list.set_intros(1))
  then show ?case using Cons by simp
qed simp

lemma abort_front_any:
  assumes "l \<noteq> []"
  shows "(\<exists>s'. abort_front bad l s = Done () s' \<and> same_files (dsk s') (dsk s) \<and>
      log_f (dsk s') = log_f (dsk s) @ [abort_record (lr_tid (hd l))]) \<or>
    (\<exists>s'. abort_front bad l s = Quit s' \<and> dsk s' = dsk s)"
  using assms
  by (cases l) (auto simp: abort_front_def front_tid_def write_abort_rec_def write_record_def pseq_def pbind_def
      seek_end_def put_record_def append_alog_def same_files_def abort_record_def)

lemma readable_reads: "\<forall>i. ReadLog i \<notin> bad \<Longrightarrow> readable bad recs = recs"
  by (simp add: readable_def takeWhile_eq_all_conv [THEN iffD2])

text \<open>Undoing the records of a stopped commit and writing the ABORT, cut off anywhere.\<close>

lemma undo_and_abort:
  assumes m: "midway s0 W s" and l: "dsk l = files s"
    and rs: "rs \<noteq> []" "\<forall>r \<in> set rs. lr_tid r = tid s0 \<and> (r \<in> set W \<or> \<not> effective (lr_action r))"
    and all: "undo_all rs (files s) = undo_all W (files s)"
  shows "(\<exists>l'. pseq (undo_rec bad rs) (abort_front bad rs) l = Done () l' \<and>
      log_f (dsk l') = log_f (files s) @ [abort_record (tid s0)] \<and>
      (\<forall>b. store_view (dsk l') b = store_view (files s0) b)) \<or>
    (\<exists>l'. pseq (undo_rec bad rs) (abort_front bad rs) l = Quit l' \<and> stopped s0 (s\<lparr>files := dsk l'\<rparr>))"
proof -
  have u: "undoable (files s0) W (files s)" using m by (simp add: midway_def)
  have again: "stopped s0 (s\<lparr>files := d\<rparr>)" if "undoable (files s0) W d" "log_f d = log_f (files s)" for d
    using m that by (auto simp: stopped_def midway_def)
  have rs': "\<forall>r \<in> set rs. r \<in> set W \<or> \<not> effective (lr_action r)" using rs(2) by blast
  let ?l1 = "l\<lparr>dsk := undo_all rs (files s)\<rparr>"
  note ua = undo_all_any [OF u rs']
  consider (undone) "undo_rec bad rs l = Done () ?l1"
    | (cut) d where "undo_rec bad rs l = Quit (l\<lparr>dsk := d\<rparr>)" "undoable (files s0) W d" "log_f d = log_f (files s)"
    using undo_rec_any [of "files s0" W l rs bad] u rs' l by auto
  then show ?thesis
  proof cases
    case cut
    then show ?thesis using again by (simp add: pseq_def pbind_def)
  next
    case undone
    have hd: "lr_tid (hd rs) = tid s0" using rs by simp
    show ?thesis using abort_front_any [OF rs(1), of bad ?l1]
    proof (elim disjE exE conjE)
      fix l' assume "abort_front bad rs ?l1 = Done () l'" and sf: "same_files (dsk l') (dsk ?l1)"
        and "log_f (dsk l') = log_f (dsk ?l1) @ [abort_record (lr_tid (hd rs))]"
      moreover have "store_view (dsk l') x = store_view (files s0) x" for x
        using same_files_store_view [OF sf, of x] undoable_restores [OF u, of x] all by simp
      ultimately show ?thesis using undone ua hd by (simp add: pseq_def pbind_def)
    next
      fix l' assume "abort_front bad rs ?l1 = Quit l'" "dsk l' = dsk ?l1"
      then show ?thesis using undone ua again by (simp add: pseq_def pbind_def)
    qed
  qed
qed

section \<open>One run\<close>

lemma pseq_finish: "pseq p (\<lambda>s. pseq q (Done ()) s) = pseq p q"
  by (auto simp: pseq_def pbind_def fun_eq_iff split: run.splits)

text \<open>A run of \<open>recover\<close> on the files of a stopped commit.\<close>

lemma recover_any:
  assumes st: "stopped s0 s" and fr: "fresh_tid s0" and cl: "collect (log_f (files s0)) = []"
    and rd: "\<forall>i. ReadLog i \<notin> bad"
  shows "(\<exists>l. recover_main bad (files s) = Done () l \<and> collect (log_f (dsk l)) = [] \<and>
      (\<forall>b. store_view (dsk l) b = store_view (files s0) b)) \<or>
    (\<exists>l. recover_main bad (files s) = Quit l \<and> stopped s0 (s\<lparr>files := dsk l\<rparr>))"
proof -
  let ?t = "tid s0" and ?l0 = "\<lparr>logfd = 0, dsk = files s\<rparr>"
  obtain W where m: "midway s0 W s" using st by (auto simp: stopped_def)
  let ?V = "begin_record ?t # W"
  have fr': "\<forall>r \<in> set (log_f (files s0)). lr_tid r \<noteq> ?t" using fr by (simp add: fresh_tid_def)
  show ?thesis
  proof (cases "OpenStore \<in> bad \<or> OpenIndex \<in> bad \<or> OpenLog \<in> bad \<or> OpenAlog \<in> bad")
    case True
    then have "recover_main bad (files s) = Quit ?l0" by (auto simp: recover_main_def open_logmgr_def)
    then show ?thesis using st by (auto simp: stopped_def)
  next
    case False
    have "recover_main bad (files s) = pseq (undo_rec bad ?V) (pseq (abort_front bad ?V) (Done ())) ?l0"
      using readable_reads [OF rd] stopped_open [OF m fr' cl] False
      by (simp add: recover_main_def open_logmgr_def doRecovery_def del: undo_rec.simps)
    then have k: "recover_main bad (files s) = pseq (undo_rec bad ?V) (abort_front bad ?V) ?l0"
      by (simp add: pseq_finish)
    have V: "\<forall>r \<in> set ?V. lr_tid r = ?t \<and> (r \<in> set W \<or> \<not> effective (lr_action r))"
      using m by (auto simp: midway_def begin_record_def effective_def)
    have "undo_all ?V (files s) = undo_all W (files s)" by (simp add: undo_eff_begin begin_record_def)
    from undo_and_abort [OF m _ _ V this, of ?l0 bad] show ?thesis
      using stopped_aborted [OF st fr' cl] by (auto simp: k)
  qed
qed

text \<open>The monitor itself goes down while it rolls back.\<close>

lemma rollback_cut:
  assumes st: "stopped s0 s" and fr: "fresh_tid s0" and l: "dsk l = files s"
    and rd: "\<forall>i. ReadLog i \<notin> bad" and q: "rollback bad (tid s0) l = Quit l'"
  shows "stopped s0 (s\<lparr>files := dsk l'\<rparr>)"
proof (cases "OpenLog \<in> bad")
  case True
  then show ?thesis using q st l by (auto simp: rollback_def)
next
  case False
  let ?t = "tid s0" and ?L = "log_f (files s)"
  obtain W where m: "midway s0 W s" using st by (auto simp: stopped_def)
  have u: "undoable (files s0) W (files s)" using m by (simp add: midway_def)
  let ?old = "drop (Suc (length W)) (log_f (files s0))" and ?b = "begin_record ?t"
  have log: "?L = [] @ ?b # (W @ ?old)" using m by (simp add: midway_def log_behind_def)
  have old: "\<forall>r \<in> set ?old. lr_tid r \<noteq> ?t" using fr by (auto simp: fresh_tid_def dest: in_set_dropD)
  have own: "own_recs ?t (W @ ?old) = W" using m old by (simp add: own_recs_def midway_def filter_empty_conv)
  have mid: "\<forall>r \<in> set (W @ ?old). \<not> ends_walk ?t r"
    using undoable_actions [OF u] old by (auto simp: ends_walk_def)
  have b: "lr_tid ?b = ?t" "lr_action ?b = LBEGIN" by (simp_all add: begin_record_def)
  let ?V = "rev W @ [?b]"
  have "rollback_scan bad ?L ?t (length ?L) [] = Some (Collected ?V)"
    using walk_begin [OF b mid, of "[]"] scan_walk [of "length ?L" ?L bad ?t "[]"] rd unfolding own by (simp add: log)
  then have k: "rollback bad ?t l = pseq (undo_rec bad ?V) (abort_front bad ?V) l"
    using False l by (simp add: rollback_def)
  have V: "\<forall>r \<in> set ?V. lr_tid r = ?t \<and> (r \<in> set W \<or> \<not> effective (lr_action r))"
    using m b by (auto simp: midway_def effective_def)
  have "undo_all ?V (files s) = undo_all W (files s)"
    using undo_all_rev [of W "files s"] undoable_rec_ok [OF u] u b by (simp add: undo_eff_begin undoable_def)
  from undo_and_abort [OF m l _ V this, of bad] show ?thesis using q by (auto simp: k)
qed

section \<open>Any number of runs\<close>

inductive recoveries :: "disk \<Rightarrow> disk \<Rightarrow> bool" for d where
  none: "recoveries d d"
| another: "recoveries d d1 \<Longrightarrow> \<forall>i. ReadLog i \<notin> bad \<Longrightarrow> final (recover_main bad d1) = Some l \<Longrightarrow>
    recoveries d (dsk l)"

text \<open>Files from which recovery leads to the datastore \<open>V\<close>.\<close>

definition recoverable :: "(block_no \<rightharpoonup> byte list) \<Rightarrow> disk \<Rightarrow> bool" where
  "recoverable V d \<longleftrightarrow> collect (log_f d) = [] \<and> (\<forall>b. store_view d b = V b) \<or>
     (\<exists>s0 s :: daemon cstate. stopped s0 s \<and> files s = d \<and> fresh_tid s0 \<and> collect (log_f (files s0)) = [] \<and>
        (\<forall>b. store_view (files s0) b = V b))"

lemma recover_closed_any:
  assumes "collect (log_f d) = []" "\<forall>i. ReadLog i \<notin> bad"
  shows "recover_main bad d \<in> {Done () \<lparr>logfd = 0, dsk = d\<rparr>, Quit \<lparr>logfd = 0, dsk = d\<rparr>}"
  using assms by (simp add: recover_main_def open_logmgr_def doRecovery_def readable_reads Let_def)

lemma recoverableI:
  "stopped s0 (s :: daemon cstate) \<Longrightarrow> fresh_tid s0 \<Longrightarrow> collect (log_f (files s0)) = [] \<Longrightarrow>
    \<forall>b. store_view (files s0) b = V b \<Longrightarrow> recoverable V (files s)"
  unfolding recoverable_def by blast

lemma recoverable_cases:
  assumes "recoverable V d"
  obtains (closed_log) "collect (log_f d) = []" "\<forall>b. store_view d b = V b"
  | (cut_off) s0 s :: "daemon cstate" where "stopped s0 s" "files s = d" "fresh_tid s0"
      "collect (log_f (files s0)) = []" "\<forall>b. store_view (files s0) b = V b"
  using assms unfolding recoverable_def by blast

lemma recoverable_run:
  assumes "recoverable V d" "\<forall>i. ReadLog i \<notin> bad" "final (recover_main bad d) = Some l"
  shows "recoverable V (dsk l)"
  using assms(1)
proof (cases rule: recoverable_cases)
  case closed_log
  then have "dsk l = d" using recover_closed_any [OF closed_log(1) assms(2)] assms(3) by auto
  then show ?thesis using assms(1) by simp
next
  case (cut_off s0 s)
  from recover_any [OF cut_off(1,3,4) assms(2)] show ?thesis
  proof (elim disjE exE conjE)
    fix l' assume "recover_main bad (files s) = Done () l'" "collect (log_f (dsk l')) = []"
      "\<forall>b. store_view (dsk l') b = store_view (files s0) b"
    then show ?thesis using cut_off(2,5) assms(3) by (simp add: recoverable_def)
  next
    fix l' assume "recover_main bad (files s) = Quit l'" "stopped s0 (s\<lparr>files := dsk l'\<rparr>)"
    then show ?thesis using recoverableI [of s0 "s\<lparr>files := dsk l'\<rparr>" V] cut_off assms(3) by simp
  qed
qed

lemma recoverable_run_ends:
  assumes "recoverable V d" "\<forall>i. ReadLog i \<notin> bad"
  shows "\<exists>l. final (recover_main bad d) = Some l"
  using assms(1)
proof (cases rule: recoverable_cases)
  case closed_log
  then show ?thesis using recover_closed_any [OF closed_log(1) assms(2)] by auto
next
  case (cut_off s0 s)
  then show ?thesis using recover_any [OF cut_off(1,3,4) assms(2)] by auto
qed

lemma recoverable_runs: "recoveries d d' \<Longrightarrow> recoverable V d \<Longrightarrow> recoverable V d'"
  by (induction rule: recoveries.induct) (use recoverable_run in blast)+

text \<open>Whatever has happened before, one run in peace restores the datastore.\<close>

lemma recoveries_end:
  assumes "recoverable V d" "recoveries d d'"
  shows "\<exists>l. recover_main no_faults d' = Done () l \<and> collect (log_f (dsk l)) = [] \<and> (\<forall>b. store_view (dsk l) b = V b)"
  using recoverable_runs [OF assms(2,1)]
proof (cases rule: recoverable_cases)
  case closed_log
  then show ?thesis using recover_closed by auto
next
  case (cut_off s0 s)
  then show ?thesis using recover_stopped [OF cut_off(1,3,4)] by auto
qed

end
