(* ===== verification/PowerCut.thy ===== *)
theory PowerCut
  imports Interleaving Interrupted
begin

text \<open>
  The machine stops while clients are at work: between two steps, at any system call of a commit, or
  while the monitor rolls back a client that died in its commit. Then \<open>recover\<close> runs, itself stopped any
  number of times, until one run gets to its end. The datastore is then what the finished transactions
  make of it, one after the other.
\<close>

inductive power_cut ::
  "(blockholders \<Rightarrow> trid_t) \<Rightarrow> ending list \<Rightarrow> world \<Rightarrow> ending list \<Rightarrow> disk \<Rightarrow> bool" for ef h w where
  between: "power_cut ef h w h (wdisk w)"
| in_commit: "wstage w c = Working scr0 Finish \<Longrightarrow>
    final (commit (monitor_tpm ef clk no_faults c) bad (here w c)) = Some s' \<Longrightarrow>
    power_cut ef h w (h @ counts_as w c scr0 False) (files s')"
| in_rollback: "wstage w c = Working scr0 Finish \<Longrightarrow>
    final (commit (monitor_tpm ef clk no_faults c) bad (here w c)) = Some s' \<Longrightarrow>
    dsk l = files s' \<Longrightarrow> \<forall>i. ReadLog i \<notin> bad' \<Longrightarrow> rollback bad' (tid (here w c)) l = Quit l' \<Longrightarrow>
    power_cut ef h w (h @ counts_as w c scr0 False) (dsk l')"

section \<open>A commit that is cut off\<close>

lemma silent_commit: "silent s \<Longrightarrow> final (commit (monitor_tpm ef clk bad c) bd s) = None"
  using silent_ask [of s ef clk bad c COMMIT 0] by (auto simp: commit_def pbind_def)

lemma scan_no_read_faults:
  assumes "\<forall>i. ReadLog i \<notin> bad"
  shows "rollback_scan bad recs t (length recs) [] = rollback_scan no_faults recs t (length recs) []"
proof (cases "recs = []")
  case True
  then show ?thesis using assms by (simp add: rollback_scan.simps)
next
  case False
  then show ?thesis using scan_walk [of "length recs" recs _ t "[]"] assms by simp
qed

text \<open>A rollback that finds nothing of the transaction, or its END, changes no file.\<close>

lemma rollback_quits:
  assumes q: "rollback bad t l = Quit l'" and rd: "\<forall>i. ReadLog i \<notin> bad"
    and "(\<forall>r \<in> set (log_f (dsk l)). lr_tid r \<noteq> t) \<or>
      (\<exists>pre e mid. log_f (dsk l) = pre @ e # mid \<and> lr_tid e = t \<and> lr_action e = LEND \<and> (\<forall>r \<in> set mid. lr_tid r \<noteq> t))"
  shows "l' = l"
proof -
  let ?L = "log_f (dsk l)"
  have "rollback_scan no_faults ?L t (length ?L) [] \<in> {None, Some ScanUndef, Some EndFound}"
    using assms(3)
  proof (elim disjE exE conjE)
    assume f: "\<forall>r \<in> set ?L. lr_tid r \<noteq> t"
    then have "walk t (rev ?L) [] = None" by (simp add: walk_None ends_walk_def)
    then show ?thesis using scan_whole [of ?L t] by (cases "?L = []") (simp_all add: rollback_scan.simps)
  next
    fix pre e mid assume e: "?L = pre @ e # mid" "lr_tid e = t" "lr_action e = LEND" "\<forall>r \<in> set mid. lr_tid r \<noteq> t"
    have "walk t (rev ?L) [] = Some EndFound"
      unfolding e(1) by (rule walk_end [OF e(2,3)]) (use e(4) in \<open>simp add: ends_walk_def\<close>)
    then show ?thesis using scan_whole [of ?L t] e(1) by simp
  qed
  then show ?thesis using q by (auto simp: rollback_def scan_no_read_faults [OF rd] split: if_splits)
qed

lemma commit_recoverable:
  fixes s0 s :: "daemon cstate"
  assumes ce: "commit_ends s0 s" and fr: "fresh_tid s0" and cl: "log_closed (files s0)"
  shows "recoverable (store_view (files s0)) (files s) \<or> committed s0 s \<and> recoverable (view s0) (files s)"
  using ce unfolding commit_ends_def
proof (elim disjE)
  assume "untouched s0 s"
  then show ?thesis using cl same_files_store_view [of "files s" "files s0"]
    by (auto simp: untouched_def recoverable_def log_closed_def)
next
  assume "stopped s0 s"
  then show ?thesis using recoverableI [OF _ fr] cl by (simp add: log_closed_def)
next
  assume "committed s0 s"
  then show ?thesis using committed_closed [of s0 s] fr cl
    by (auto simp: committed_def recoverable_def log_closed_def fresh_tid_def)
qed

lemma over_log:
  assumes "committed s0 s" "fresh_tid s0"
  shows "\<exists>pre e mid. log_f (files s) = pre @ e # mid \<and> lr_tid e = tid s0 \<and> lr_action e = LEND \<and>
    (\<forall>r \<in> set mid. lr_tid r \<noteq> tid s0)"
proof -
  obtain W where "log_f (files s) = log_behind (begin_record (tid s0) # W @ [end_record (tid s0)]) (log_f (files s0))"
    using assms(1) by (auto simp: committed_def)
  then have "log_f (files s) = (begin_record (tid s0) # W) @ end_record (tid s0) # drop (Suc (Suc (length W))) (log_f (files s0))"
    by (simp add: log_behind_def)
  moreover have "\<forall>r \<in> set (drop n (log_f (files s0))). lr_tid r \<noteq> tid s0" for n
    using assms(2) by (auto simp: fresh_tid_def dest: in_set_dropD)
  moreover have "lr_tid (end_record (tid s0)) = tid s0" "lr_action (end_record (tid s0)) = LEND"
    by (simp_all add: end_record_def)
  ultimately show ?thesis by blast
qed

lemma rollback_recoverable:
  fixes s0 s :: "daemon cstate"
  assumes ce: "commit_ends s0 s" and fr: "fresh_tid s0" and cl: "log_closed (files s0)"
    and l: "dsk l = files s" and rd: "\<forall>i. ReadLog i \<notin> bad" and q: "rollback bad (tid s0) l = Quit l'"
  shows "recoverable (store_view (files s0)) (dsk l') \<or> committed s0 s \<and> recoverable (view s0) (dsk l')"
proof (cases "stopped s0 s")
  case True
  then show ?thesis using recoverableI [OF rollback_cut [OF True fr l rd q] fr] cl by (simp add: log_closed_def)
next
  case False
  then have us: "untouched s0 s \<or> committed s0 s" using ce by (auto simp: commit_ends_def)
  have "l' = l"
    by (rule rollback_quits [OF q rd]) (use us over_log [of s0 s] fr l in \<open>auto simp: untouched_def fresh_tid_def\<close>)
  then show ?thesis using commit_recoverable [OF ce fr cl] l by simp
qed

section \<open>The whole system\<close>

lemma cut_in_commit:
  assumes ok: "world_ok w" and st: "wstage w c = Working scr0 Finish"
    and f: "final (commit (monitor_tpm ef clk no_faults c) bad (here w c)) = Some s'"
  shows "fresh_tid (here w c) \<and> commit_ends (here w c) s' \<and>
    (committed (here w c) s' \<longrightarrow> \<not> refused w c \<and> runs_to scr0 (store_view (wdisk w)) (view (here w c)))"
proof -
  let ?s = "here w c"
  have "\<not> silent ?s" using silent_commit f by fastforce
  then obtain sr where sr: "wmon w = Up sr" by (auto simp: silent_def)
  have at: "attends c (next_tid (mon sr)) scr0 Finish ?s" by (rule world_okD(5) [OF ok sr st])
  have fr: "fresh_tid ?s" using at by (simp add: attends_def)
  show ?thesis
  proof (cases "with_mon c (next_tid (mon sr)) doomed ?s")
    case True
    then have e: "files s' = files ?s" using doomed_commit [OF True] f by auto
    then have "commit_ends ?s s'" by (simp add: commit_ends_def untouched_def)
    moreover have "\<not> committed ?s s'"
    proof
      assume "committed ?s s'"
      from over_log [OF this fr] obtain pre e mid where "log_f (files s') = pre @ e # mid" "lr_tid e = tid ?s"
        by blast
      then show False using e fr by (auto simp: fresh_tid_def)
    qed
    ultimately show ?thesis using fr by blast
  next
    case False
    then have al: "client_ok ?s" "lfd ?s = 0"
      "partly scr0 (store_view (wdisk w)) (dom (locks_of ?s)) Finish (view ?s)"
      using at by (auto simp: attends_def)
    have "post True (\<lambda>_. committed ?s) (\<lambda>_. commit_ends ?s) (commit (monitor_tpm ef clk no_faults c) bad ?s)"
      by (rule quiet_tpm.commit_outcome [OF mq.quiet_tpm_axioms al(1,2)])
    then have "commit_ends ?s s'"
      using f by (cases "commit (monitor_tpm ef clk no_faults c) bad ?s") (auto simp: commit_ends_def)
    then show ?thesis using fr partly_complete [OF al(3) on_finish] not_refused [OF at sr False] by blast
  qed
qed

text \<open>The datastore that recovery will find in the files, with its explanation.\<close>

lemma power_cut_recoverable:
  assumes ok: "world_ok w" and cl: "log_closed (wdisk w)" and ex: "explains h \<sigma> (store_view (wdisk w))"
    and "power_cut ef h w h' d"
  shows "\<exists>V. recoverable V d \<and> explains h' \<sigma> V"
proof -
  have both: "\<exists>V. recoverable V d \<and> explains (h @ counts_as w c scr0 False) \<sigma> V"
    if "recoverable (store_view (wdisk w)) d \<or> committed (here w c) s' \<and> recoverable (view (here w c)) d"
      "committed (here w c) s' \<longrightarrow> \<not> refused w c \<and> runs_to scr0 (store_view (wdisk w)) (view (here w c))" for d c s' scr0
  proof (cases "refused w c")
    case True
    then show ?thesis using that ex by (auto simp: counts_as_def)
  next
    case False
    then show ?thesis using that explains.undone [OF ex, of scr0] explains.ran [OF ex] by (auto simp: counts_as_def)
  qed
  show ?thesis
    using assms(4)
  proof cases
    case between
    then show ?thesis using ex cl by (auto simp: recoverable_def log_closed_def)
  next
    case (in_commit c scr0 clk bad s')
    note ct = cut_in_commit [OF ok in_commit(3,4)]
    show ?thesis using both [of d c s' scr0] commit_recoverable [of "here w c" s'] ct cl in_commit(1,2) by simp
  next
    case (in_rollback c scr0 clk bad s' l bad' l')
    note ct = cut_in_commit [OF ok in_rollback(3,4)]
    show ?thesis
      using both [of d c s' scr0] rollback_recoverable [of "here w c" s' l bad' l'] ct cl in_rollback by simp
  qed
qed

theorem power_cut_serial:
  assumes "benign ef" "files_ok d" "log_older 1 d" "log_closed d" "world_runs ef d h w"
    and cut: "power_cut ef h w h' d1" and rec: "recoveries d1 d2"
  shows "\<exists>l. recover_main no_faults d2 = Done () l \<and> log_closed (dsk l) \<and>
    explains h' (store_view d) (store_view (dsk l))"
proof -
  note run = runs_serial [OF assms(1-3,5)]
  obtain V where V: "recoverable V d1" "explains h' (store_view d) V"
    using power_cut_recoverable [OF _ _ _ cut] run assms(4) by blast
  obtain l where l: "recover_main no_faults d2 = Done () l" "collect (log_f (dsk l)) = []"
      "\<forall>b. store_view (dsk l) b = V b"
    using recoveries_end [OF V(1) rec] by blast
  then have "store_view (dsk l) = V" by (simp add: fun_eq_iff)
  then show ?thesis using l V(2) by (auto simp: log_closed_def)
qed

end
