(* ===== verification/Grants.thy ===== *)
theory Grants
  imports Policy
begin

text \<open>
  What the replies of the monitor promise to the client that gets them: a granted exclusive request
  leaves the client alone on the block, a granted read leaves no writer, a new transaction gets a
  number larger than all live ones.
\<close>

lemma process_dispatch:
  assumes "process_clientrq ef clk rq who m = Ret (m', r)" "rq_reply r \<noteq> DIE"
  shows "dispatch_rq ef clk rq who m = Ret (m', r)"
  using assms by (auto simp: process_clientrq_def split: if_splits)

lemma write_grant:
  assumes w: "write_rq ef clk rq m = Ret (m', swapped_reply rq OK)"
    and ef: "benign ef" and inv: "lock_inv m" and t: "rq_tid rq \<noteq> 0"
  shows "readers (holders m' (rq_block rq)) = [] \<and> writer (holders m' (rq_block rq)) = rq_tid rq \<and>
    (\<forall>x. holds m (rq_block rq) x \<longrightarrow> x \<noteq> rq_tid rq \<longrightarrow> stat_of m' x = Some PREEMPTED)"
  using w
proof (cases rule: write_cases)
  case upgrade
  let ?p = "holders m (rq_block rq)"
  have ok: "holder_ok ?p" using inv by (simp add: lock_inv_def)
  have e: "ef ?p = 0 \<or> ef ?p = writer ?p" using ef by (simp add: benign_def)
  show ?thesis using upgrade(2,3) ok e t
    by (auto simp: holds_def holder_ok_def)
next
  case claim
  from claim_grant [OF claim inv t] show ?thesis by blast
qed

lemma exclusive_granted:
  assumes p: "process_clientrq ef clk rq who m = Ret (m', r)" "rq_reply r = OK"
    and q: "rq_request rq \<in> {ALLOCATE, WRITE, RELEASE}"
    and ef: "benign ef" and inv: "lock_inv m" and t: "rq_tid rq \<noteq> 0"
  shows "readers (holders m' (rq_block rq)) = [] \<and> writer (holders m' (rq_block rq)) = rq_tid rq \<and>
    (\<forall>x. holds m (rq_block rq) x \<longrightarrow> x \<noteq> rq_tid rq \<longrightarrow> stat_of m' x = Some PREEMPTED)"
proof -
  have d: "dispatch_rq ef clk rq who m = Ret (m', r)"
    using process_dispatch [OF p(1)] p(2) by simp
  consider (claim) s where "claim_block s clk rq m = Ret (m', r)"
    | (wr) "write_rq ef clk rq m = Ret (m', r)"
    using d q by (auto simp: dispatch_rq_def allocate_claim release_claim)
  then show ?thesis
  proof cases
    case (claim s)
    then have "r = swapped_reply rq OK" using claim.answer [OF claim] p(2) by auto
    with claim_grant [of s clk rq m m'] claim inv t show ?thesis by blast
  next
    case wr
    then have "r = swapped_reply rq OK" using wt.answer [OF wr] p(2) by auto
    with write_grant [of ef clk rq m m'] wr ef inv t show ?thesis by blast
  qed
qed

lemma read_granted:
  assumes p: "process_clientrq ef clk rq who m = Ret (m', r)" "rq_reply r = OK" "rq_request rq = READ"
    and inv: "lock_inv m" and t: "rq_tid rq \<noteq> writer (holders m (rq_block rq))"
  shows "readers (holders m' (rq_block rq)) = rq_tid rq # readers (holders m (rq_block rq)) \<and>
    writer (holders m' (rq_block rq)) = 0 \<and>
    (writer (holders m (rq_block rq)) \<noteq> 0 \<longrightarrow>
       stat_of m' (writer (holders m (rq_block rq))) = Some PREEMPTED)"
proof -
  have "read_rq clk rq m = Ret (m', r)"
    using process_dispatch [OF p(1)] p(2,3) by (simp add: dispatch_rq_def)
  then show ?thesis
  proof (cases rule: read_cases)
    case refused
    then show ?thesis using p(2) by simp
  next
    case (granted m1)
    have "known m (writer (holders m (rq_block rq)))" if "writer (holders m (rq_block rq)) \<noteq> 0"
      using inv that by (auto simp: lock_inv_def block_live_def holds_def)
    with can_read_granted [OF granted(2)] granted(3) t show ?thesis by auto
  qed
qed

lemma begin_fresh:
  assumes p: "process_clientrq ef clk rq who m = Ret (m', r)" "rq_request rq = BEGIN"
    and inv: "mon_inv m"
  shows "rq_reply r = OK \<and> rq_tid r = next_tid m \<and> rq_pid r = rq_pid rq \<and>
    \<not> known m (rq_tid r) \<and> (\<forall>x. known m x \<longrightarrow> x < rq_tid r) \<and>
    stat_of m' (rq_tid r) = Some BEGUN \<and> mfind (transactions m') who = Some (rq_tid r) \<and>
    (\<forall>b. holders m' b = holders m b)"
proof -
  have "(m', r) = begin_rq clk rq who m"
    using p by (simp add: process_clientrq_def dispatch_rq_def)
  then show ?thesis using inv
    by (auto simp: begin_rq_def Let_def mon_inv_def tids_ok_def stat_of_def holders_def)
qed

text \<open>Every reply but the one to \<open>BEGIN\<close> carries the two numbers of the request in each other's field.\<close>

lemma reply_fields:
  assumes p: "process_clientrq ef clk rq who m = Ret (m', r)" "rq_request rq \<noteq> BEGIN"
  shows "rq_tid r = pid_to_trid (rq_pid rq) \<and> rq_pid r = trid_to_pid (rq_tid rq) \<and>
    rq_request r = rq_request rq \<and> rq_block r = rq_block rq"
proof -
  have "\<exists>a. r = swapped_reply rq a"
  proof (cases "preempted (rq_tid rq) m")
    case True
    then show ?thesis using p by (auto simp: process_clientrq_def)
  next
    case False
    then have d: "dispatch_rq ef clk rq who m = Ret (m', r)" using p by (simp add: process_clientrq_def)
    show ?thesis
    proof (cases "rq_request rq \<in> {ALLOCATE, READ, WRITE, RELEASE}")
      case True
      then show ?thesis using d al.answer rd.answer rl.answer wt.answer
        unfolding dispatch_rq_def by (auto split: request_t.splits) metis+
    next
      case False
      then show ?thesis using d p(2)
        by (auto simp: dispatch_rq_def commit_rq_def abort_rq_def restart_rq_def end_rq_def
            split: request_t.splits option.splits if_splits)
    qed
  qed
  then show ?thesis by (auto simp: swapped_reply_def)
qed

lemma sole_reader_upgrades:
  assumes r: "readers (holders m b) = [t]" and q: "rq_request rq = WRITE" "rq_tid rq = t" "rq_block rq = b"
    and np: "\<not> preempted t m"
  shows "\<exists>m'. process_clientrq ef clk rq who m = Ret (m', swapped_reply rq OK) \<and>
    readers (holders m' b) = [] \<and> writer (holders m' b) = t \<and> (\<forall>x. x \<noteq> t \<longrightarrow> stat_of m' x = stat_of m x)"
proof -
  have "check_sole_reader ef t b m"
    using r by (auto simp: check_sole_reader_iff holders_def split: option.splits)
  then have "write_rq ef clk rq m = Ret (update_status t b WRITING (set_writer b t (remove_reader b t m)),
      swapped_reply rq OK)"
    using q by (simp add: write_rq_unfold)
  then show ?thesis using np q r by (simp add: process_clientrq_def dispatch_rq_def)
qed

section \<open>Committing readers\<close>

lemma reader_blocks_none:
  assumes "\<forall>y \<in> set ys. \<exists>q. mfind st y = Some q \<and> (stat q = COMMITTING \<or> t \<le> y)"
  shows "reader_blocks clk t st ys = Ret False"
  using assms by (induction ys arbitrary: clk) (auto simp: OLDER_def)

text \<open>
  Readers that are committing, or younger than the requester, stop no claim; with the claim all of them
  are marked PREEMPTED.
\<close>

lemma readers_give_way:
  assumes inv: "mon_inv m" and q: "rq_request rq \<in> {ALLOCATE, WRITE, RELEASE}" "\<not> preempted (rq_tid rq) m"
    and x: "x \<in> set (readers (holders m (rq_block rq)))" "x \<noteq> rq_tid rq"
    and ys: "\<forall>y \<in> set (readers (holders m (rq_block rq))). stat_of m y = Some COMMITTING \<or> rq_tid rq \<le> y"
  shows "\<exists>m'. process_clientrq ef clk rq who m = Ret (m', swapped_reply rq OK)"
proof -
  let ?p = "holders m (rq_block rq)"
  have w: "writer ?p = 0" using inv x(1) by (auto simp: mon_inv_def lock_inv_def holder_ok_def)
  have k: "known m y" if "y \<in> set (readers ?p)" for y
    using inv that by (auto simp: mon_inv_def lock_inv_def block_live_def holds_def)
  have "reader_blocks clk (rq_tid rq) (status m) (readers ?p) = Ret False"
    by (rule reader_blocks_none) (use k ys in \<open>auto simp: known_def stat_of_def\<close>)
  then have c: "\<exists>m1. can_write clk (rq_tid rq) (rq_block rq) m = Ret (True, m1)"
    using w x(1) by (auto simp: can_write_unfold)
  then have cl: "\<exists>m'. claim_block st clk rq m = Ret (m', swapped_reply rq OK)" for st
    by (auto simp: claim_block_def)
  have "\<not> check_sole_reader ef (rq_tid rq) (rq_block rq) m"
    using sole_reader_holders [of ef "rq_tid rq" "rq_block rq" m] x by auto
  then show ?thesis using q cl
    by (auto simp: process_clientrq_def dispatch_rq_def allocate_claim release_claim write_rq_unfold)
qed

lemma committing_reader_dies:
  assumes inv: "mon_inv m" and ef: "benign ef" and rq: "library_request m rq who"
    and q: "rq_request rq \<in> {ALLOCATE, WRITE, RELEASE}" "\<not> preempted (rq_tid rq) m"
    and x: "x \<in> set (readers (holders m (rq_block rq)))" "x \<noteq> rq_tid rq"
    and ys: "\<forall>y \<in> set (readers (holders m (rq_block rq))). stat_of m y = Some COMMITTING \<or> rq_tid rq \<le> y"
    and c: "mfind (transactions m) c = Some x"
  shows "\<exists>m'. process_clientrq ef clk rq who m = Ret (m', swapped_reply rq OK) \<and>
    stat_of m' x = Some PREEMPTED \<and>
    (\<forall>clk' rq'. rq_request rq' = END \<longrightarrow> rq_tid rq' = x \<longrightarrow>
       process_clientrq ef clk' rq' c m' = Ret (m', swapped_reply rq' DIE)) \<and>
    client_disconnect bad c \<lparr>mon = m', lgr = l\<rparr> = Done () \<lparr>mon = drop_client c x m', lgr = l\<rparr>"
proof -
  obtain m' where m': "process_clientrq ef clk rq who m = Ret (m', swapped_reply rq OK)"
    using readers_give_way [OF inv q x ys] by blast
  have nb: "rq_request rq \<noteq> BEGIN" using q(1) by auto
  then have "mfind (transactions m) who = Some (rq_tid rq)" using rq by (simp add: library_request_def)
  then have t0: "rq_tid rq \<noteq> 0" using inv by (auto simp: mon_inv_def tids_ok_def)
  have li: "lock_inv m" using inv by (simp add: mon_inv_def)
  have p: "stat_of m' x = Some PREEMPTED"
    using exclusive_granted [OF m' _ q(1) ef li t0] x by (simp add: holds_def)
  have i': "mon_inv m'" by (rule process_inv [OF m' inv rq])
  have "mfind (transactions m') c = Some x" using process_transactions [OF m'] nb c by simp
  then have "client_disconnect bad c \<lparr>mon = m', lgr = l\<rparr> = Done () \<lparr>mon = drop_client c x m', lgr = l\<rparr>"
    using disconnect_quiet [of "\<lparr>mon = m', lgr = l\<rparr>" c x bad] i' p by simp
  moreover have "process_clientrq ef clk' rq' c m' = Ret (m', swapped_reply rq' DIE)"
    if "rq_request rq' = END" "rq_tid rq' = x" for clk' rq'
    using preempted_answer [of rq' m'] that p by (simp add: preempted_stat_of)
  ultimately show ?thesis using m' p by blast
qed

end
