(* ===== verification/Scenarios.thy ===== *)
theory Scenarios
  imports Policy
begin

text \<open>
  Executable runs of the monitor: a list of events, each a request of one client at a given time or
  a client that goes away, played from a session state. Every state that \<open>play\<close> delivers is
  reachable, so concrete schedules give reachable states.
\<close>

datatype event = Ask fd request_t block_no time_t | Gone fd

definition client_rq :: "monitor \<Rightarrow> fd \<Rightarrow> request_t \<Rightarrow> block_no \<Rightarrow> trq" where
  "client_rq m c r b =
     \<lparr>rq_tid = (case mfind (transactions m) c of None \<Rightarrow> 0 | Some t \<Rightarrow> t),
      rq_pid = of_int c, rq_request = r, rq_reply = OK, rq_block = b\<rparr>"

fun play_one ::
  "(blockholders \<Rightarrow> trid_t) \<Rightarrow> event \<Rightarrow> session \<Rightarrow> (session \<times> reply_t option) option" where
  "play_one ef (Ask c r b now) s =
     (let rq = client_rq (sv s) c r b in
      if library_request (sv s) rq c
      then (case process_clientrq ef (\<lambda>_. now) rq c (sv s) of
              Ret (m', rp) \<Rightarrow> Some (answer s c rq m' rp, Some (rq_reply rp))
            | _ \<Rightarrow> None)
      else None)"
| "play_one ef (Gone c) s =
     (case mfind (transactions (sv s)) c of
        None \<Rightarrow> None
      | Some t \<Rightarrow> Some (\<lparr>sv = drop_client c t (sv s), held = (held s)(c := (\<lambda>_. None))\<rparr>, None))"

text \<open>The state after all events, with the replies in order.\<close>

fun play ::
  "(blockholders \<Rightarrow> trid_t) \<Rightarrow> event list \<Rightarrow> session \<Rightarrow> (session \<times> reply_t option list) option" where
  "play ef [] s = Some (s, [])"
| "play ef (e # es) s =
     (case play_one ef e s of
        None \<Rightarrow> None
      | Some (s1, r) \<Rightarrow>
          (case play ef es s1 of None \<Rightarrow> None | Some (s2, rs) \<Rightarrow> Some (s2, r # rs)))"

lemma play_one_step: "play_one ef e s = Some (s', r) \<Longrightarrow> sess_step ef s s'"
  by (cases e) (auto simp: Let_def split: if_splits option.splits outcome.splits
      intro: sess_step.intros)

lemma play_reachable: "reachable ef s \<Longrightarrow> play ef es s = Some (s', rs) \<Longrightarrow> reachable ef s'"
proof (induction es arbitrary: s s' rs)
  case (Cons e es)
  then obtain s1 r rs1 where s1: "play_one ef e s = Some (s1, r)" "play ef es s1 = Some (s', rs1)"
    by (auto split: option.splits)
  then have "reachable ef s1" using Cons.prems(1) play_one_step reachable.step by blast
  then show ?case using Cons.IH s1(2) by blast
qed simp

lemma play_init: "play ef es init_session = Some (s, rs) \<Longrightarrow> reachable ef s"
  by (rule play_reachable [OF reachable.init])

text \<open>What \<open>front()\<close> of an empty list delivers when it reads as zero.\<close>

definition front_zero :: "blockholders \<Rightarrow> trid_t" where
  "front_zero _ = 0"

lemma benign_front_zero: "benign front_zero"
  by (simp add: benign_def front_zero_def)

section \<open>Some schedules\<close>

text \<open>Two clients that read the same block.\<close>

definition two_readers :: "event list" where
  "two_readers = [Ask 5 BEGIN 0 10, Ask 6 BEGIN 0 11, Ask 5 READ 1 11, Ask 6 READ 1 12]"

text \<open>The second of two clients reads block 1 and writes block 2, and is committing.\<close>

definition reader_commits :: "event list" where
  "reader_commits = [Ask 5 BEGIN 0 10, Ask 6 BEGIN 0 11, Ask 6 READ 1 11, Ask 6 WRITE 2 11, Ask 6 COMMIT 0 12]"

definition after :: "(blockholders \<Rightarrow> trid_t) \<Rightarrow> event list \<Rightarrow> session" where
  "after ef es = (case play ef es init_session of Some (s, _) \<Rightarrow> s | None \<Rightarrow> init_session)"

lemma reachable_after: "reachable ef (after ef es)"
  by (auto simp: after_def split: option.splits intro: reachable.init play_init)

end
