(* ===== verification/Examples.thy ===== *)
theory Examples
  imports Serial Grants Scenarios Scripts Restarts AllocateOp
begin

text \<open>
  Concrete states for the witnesses: monitor tables reached by short request sequences, the files
  that \<open>initstore\<close> writes, and a client process that has allocated block 1.
\<close>

section \<open>Monitor tables\<close>

definition one_client :: "event list" where
  "one_client = [Ask 5 BEGIN 0 10]"

definition older_writer :: "event list" where
  "older_writer = [Ask 5 BEGIN 0 10, Ask 6 BEGIN 0 11, Ask 5 WRITE 1 11]"

definition younger_writer :: "event list" where
  "younger_writer = [Ask 5 BEGIN 0 10, Ask 6 BEGIN 0 11, Ask 6 WRITE 1 11]"

definition evicted_writer :: "event list" where
  "evicted_writer = younger_writer @ [Ask 5 WRITE 1 12]"

definition tables :: "event list \<Rightarrow> monitor" where
  "tables es = sv (after front_zero es)"

lemma reached: "reachable front_zero (after front_zero es)"
  by (rule reachable_after)

lemma tables_inv: "mon_inv (tables es)" "lock_inv (tables es)"
  using reachable_inv [OF reached] by (simp_all add: tables_def mon_inv_def)

lemma one_client_tables: "tables one_client = \<lparr>next_tid = 2, transactions = [(5, 1)],
    status = [(1, \<lparr>ts_pid = 5, ts_block = 0, started = 10, stat = BEGUN\<rparr>)], blockmap = []\<rparr>"
  by code_simp

lemma older_writer_tables: "tables older_writer = \<lparr>next_tid = 3, transactions = [(5, 1), (6, 2)],
    status = [(1, \<lparr>ts_pid = 5, ts_block = 1, started = 10, stat = WRITING\<rparr>),
              (2, \<lparr>ts_pid = 6, ts_block = 0, started = 11, stat = BEGUN\<rparr>)],
    blockmap = [(1, \<lparr>readers = [], writer = 1\<rparr>)]\<rparr>"
  by code_simp

lemma younger_writer_tables: "tables younger_writer = \<lparr>next_tid = 3, transactions = [(5, 1), (6, 2)],
    status = [(1, \<lparr>ts_pid = 5, ts_block = 0, started = 10, stat = BEGUN\<rparr>),
              (2, \<lparr>ts_pid = 6, ts_block = 1, started = 11, stat = WRITING\<rparr>)],
    blockmap = [(1, \<lparr>readers = [], writer = 2\<rparr>)]\<rparr>"
  by code_simp

lemma evicted_writer_tables: "tables evicted_writer = \<lparr>next_tid = 3, transactions = [(5, 1), (6, 2)],
    status = [(1, \<lparr>ts_pid = 5, ts_block = 1, started = 10, stat = WRITING\<rparr>),
              (2, \<lparr>ts_pid = 6, ts_block = 1, started = 11, stat = PREEMPTED\<rparr>)],
    blockmap = [(1, \<lparr>readers = [], writer = 1\<rparr>)]\<rparr>"
  by code_simp

text \<open>A request as the library of transaction \<open>t\<close> in process \<open>p\<close> sends it.\<close>

definition rq_of :: "trid_t \<Rightarrow> pid_t \<Rightarrow> request_t \<Rightarrow> block_no \<Rightarrow> trq" where
  "rq_of t p q b = \<lparr>rq_tid = t, rq_pid = p, rq_request = q, rq_reply = OK, rq_block = b\<rparr>"

lemma rq_of_sel [simp]:
  "rq_tid (rq_of t p q b) = t" "rq_pid (rq_of t p q b) = p" "rq_request (rq_of t p q b) = q"
  "rq_block (rq_of t p q b) = b"
  by (simp_all add: rq_of_def)

section \<open>Fresh files\<close>

lemma initstore_index [simp]: "index_valid (index_f initstore) b \<longleftrightarrow> 1 \<le> b \<and> b \<le> NBLOCKS"
  by (auto simp: initstore_def index_valid_def NBLOCKS_def)

lemma initstore_store: "1 \<le> b \<Longrightarrow> b \<le> NBLOCKS \<Longrightarrow> store_valid (store_f initstore) b"
proof -
  assume b: "1 \<le> b" "b \<le> NBLOCKS"
  then have "nat (store_offset b) + BLOCKSIZE = nat b * BLOCKSIZE"
    by (simp add: store_offset_def nat_mult_distrib nat_diff_distrib algebra_simps)
  also have "\<dots> \<le> nat NBLOCKS * BLOCKSIZE" using b by (intro mult_right_mono) auto
  finally show ?thesis using offset_ok_NBLOCKS [OF b] by (simp add: store_valid_def initstore_def)
qed

lemma initstore_ok: "files_ok initstore"
  using initstore_store by (auto simp: files_ok_def) (simp add: initstore_def NBLOCKS_def)

section \<open>A client process\<close>

text \<open>A transaction monitor that grants everything.\<close>

definition calm_tpm :: "unit tpm" where
  "calm_tpm = \<lparr>ask = (\<lambda>rq d m. Ret (rq\<lparr>rq_tid := 1, rq_reply := OK\<rparr>, d, m)), bye = (\<lambda>d m. (d, m))\<rparr>"

interpretation calm: quiet_tpm calm_tpm
  by unfold_locales (simp add: calm_tpm_def)

lemma calm_ask: "ask_tpm calm_tpm q b s =
    Done (True, \<lparr>rq_tid = 1, rq_pid = pid s, rq_request = q, rq_reply = OK, rq_block = b\<rparr>) s"
  by (simp add: ask_tpm_def calm_tpm_def)

text \<open>A process with transaction 1, right after the constructor, and after \<open>allocate()\<close> gave it block 1.\<close>

definition idle_of :: "'m \<Rightarrow> 'm cstate" where
  "idle_of m = (new_process initstore m)\<lparr>tid := 1, pid := 5\<rparr>"

definition writer_of :: "'m \<Rightarrow> 'm cstate" where
  "writer_of m = (idle_of m)\<lparr>heap := snd (new_filled zeros empty_mem),
     bmap := mput 1 \<lparr>lock = A_LOCK, data = Some 0, oldval = Some 0, oldindex = CHR ''U''\<rparr>
       (bmap (idle_of m)), last_free_block := 1\<rparr>"

definition young_server :: server where
  "young_server = \<lparr>mon = tables one_client, lgr = \<lparr>logfd = 0, dsk = initstore\<rparr>\<rparr>"

definition idle_client :: "daemon cstate" where
  "idle_client = idle_of (Up young_server)"

definition writer_client :: "daemon cstate" where
  "writer_client = writer_of (Up young_server)"

lemma zeros_block [simp]: "is_block zeros"
  by (simp add: zeros_def is_block_def)

lemma new_process_ok: "files_ok d \<Longrightarrow> client_ok (new_process d m)"
  by (rule client_okI) (simp_all add: new_process_def)

lemma idle_ok: "client_ok (idle_of m)"
  by (rule client_okI) (simp_all add: idle_of_def new_process_def initstore_ok)

lemma initstore_free: "1 \<le> b \<Longrightarrow> b \<le> NBLOCKS \<Longrightarrow> dindex initstore b = CHR ''U''"
  by (simp add: dindex_def index_get_def initstore_def)

lemma writer_ok: "client_ok (writer_of m)"
proof -
  let ?h = "snd (new_filled zeros empty_mem)"
  have "entry_ok initstore ?h 1 1 \<lparr>lock = A_LOCK, data = Some 0, oldval = Some 0, oldindex = CHR ''U''\<rparr>"
    using initstore_free [of 1] files_ok_valid [OF initstore_ok, of 1] good_buffer_new(1) [OF zeros_block, of empty_mem]
    by (simp add: entry_ok_def NBLOCKS_def new_filled_def empty_mem_def)
  moreover have "extends (heap (idle_of m)) ?h"
    using extends_new [of empty_mem zeros] by (simp add: idle_of_def new_process_def)
  moreover have "client_ok_but 1 (idle_of m)" "mfind (bmap (idle_of m)) 0 = None"
    using idle_ok [of m] by (simp_all add: client_ok_but_weaken client_ok_def)
  ultimately show ?thesis unfolding writer_of_def
    by (intro client_ok_put) (auto simp: buffers_def live_def idle_of_def new_process_def empty_mem_def)
qed

lemma idle_sel [simp]:
  "bmap (idle_of m) = []" "lfd (idle_of m) = 0" "tid (idle_of m) = 1" "files (idle_of m) = initstore"
  "srv (idle_of m) = m" "heap (idle_of m) = empty_mem" "last_free_block (idle_of m) = 0"
  "last_sleep (idle_of m) = 0" "sleeps (idle_of m) = []" "\<not> error_occured (idle_of m)"
  by (simp_all add: idle_of_def new_process_def)

lemma writer_sel [simp]:
  "lfd (writer_of m) = 0" "tid (writer_of m) = 1" "files (writer_of m) = initstore" "srv (writer_of m) = m"
  "bmap (writer_of m) = [(1, \<lparr>lock = A_LOCK, data = Some 0, oldval = Some 0, oldindex = CHR ''U''\<rparr>)]"
  "heap (writer_of m) = snd (new_filled zeros empty_mem)" "\<not> error_occured (writer_of m)"
  by (simp_all add: writer_of_def)

lemma fresh_of: "fresh_tid (idle_of m)" "fresh_tid (writer_of m)"
  by (simp_all add: fresh_tid_def initstore_def)

lemma young_entry:
  "mfind (transactions (mon young_server)) 5 = Some 1" "stat_of (mon young_server) 1 = Some BEGUN"
  by (simp_all add: young_server_def one_client_tables stat_of_def)

lemma clients_ok: "client_ok idle_client" "client_ok writer_client"
  unfolding idle_client_def writer_client_def by (rule idle_ok, rule writer_ok)

lemma clients_served: "served 5 idle_client" "served 5 writer_client"
  using young_entry tables_inv by (simp_all add: served_def idle_client_def writer_client_def young_server_def)

lemma writer_view: "view (writer_of m) 1 = Some zeros"
  by (simp add: view_def bufval_def deref_def new_filled_def empty_mem_def)

section \<open>A first transaction\<close>

text \<open>Process 5 allocates one block of fresh files through a fresh monitor.\<close>

abbreviation mon_tpm :: "daemon tpm" where
  "mon_tpm \<equiv> monitor_tpm front_zero (\<lambda>_. 10) no_faults 5"

definition first_process :: "daemon cstate" where
  "first_process = new_process initstore (Up \<lparr>mon = init_monitor, lgr = \<lparr>logfd = 0, dsk = initstore\<rparr>\<rparr>)"

definition take_one :: script where
  "take_one = Alloc (\<lambda>_. Finish)"

lemma first_construct: "construct mon_tpm no_faults 5 first_process = Done () idle_client"
  by (simp add: construct_def Let_def pbind_def ask_tpm_def monitor_tpm_def mon_ask_def first_process_def
      new_process_def init_monitor_def process_clientrq_def dispatch_rq_def begin_rq_def idle_client_def
      idle_of_def young_server_def one_client_tables)

lemma initstore_head: "index_f initstore = CHR ''U'' # replicate 29 (CHR ''U'')"
  by (simp add: initstore_def NBLOCKS_def numeral_eq_Suc)

definition busy_tables :: monitor where
  "busy_tables = \<lparr>next_tid = 2, transactions = [(5, 1)],
    status = [(1, \<lparr>ts_pid = 5, ts_block = 1, started = 10, stat = ALLOCATED\<rparr>)],
    blockmap = [(1, \<lparr>readers = [], writer = 1\<rparr>)]\<rparr>"

lemma first_grant: "process_clientrq front_zero (\<lambda>_. 10) (rq_of 1 5 ALLOCATE 1) 5 (tables one_client) =
    Ret (busy_tables, swapped_reply (rq_of 1 5 ALLOCATE 1) OK)"
  unfolding one_client_tables busy_tables_def by code_simp

lemma first_block: "allocate mon_tpm no_faults idle_client =
    Done 1 (writer_of (Up (young_server\<lparr>mon := busy_tables\<rparr>)))"
proof -
  let ?s1 = "idle_client\<lparr>last_free_block := 1\<rparr>"
  let ?s2 = "?s1\<lparr>srv := Up (young_server\<lparr>mon := busy_tables\<rparr>)\<rparr>"
  have f: "find_free_block mon_tpm no_faults idle_client = Done 1 ?s1"
    by (simp add: find_free_block_def idle_client_def initstore_head Let_def)
  have "pid ?s1 = 5" "tid ?s1 = 1" "srv ?s1 = Up young_server" "mon young_server = tables one_client"
    by (simp_all add: idle_client_def idle_of_def young_server_def new_process_def)
  then have a: "\<exists>rp. ask_tpm mon_tpm ALLOCATE 1 ?s1 = Done (True, rp) ?s2"
    using first_grant by (simp add: ask_tpm_def monitor_tpm_def mon_ask_def rq_of_def idle_client_def)
  then have "allocate_loop mon_tpm no_faults idle_client = Some (Done 1 ?s2)"
    by (subst allocate_loop.simps) (auto simp: f)
  then show ?thesis
    by (simp add: allocate_def pbind_def pseq_def tx_new_def new_buffer_def tx_fill_def
        fill_def set_entry_def writer_of_def idle_client_def idle_of_def new_process_def new_filled_def empty_mem_def)
qed

lemma first_allocate: "\<exists>s. exec mon_tpm no_faults take_one idle_client = Done () s \<and>
    srv s = Up (young_server\<lparr>mon := busy_tables\<rparr>)"
  by (simp add: take_one_def pbind_def first_block)

lemma first_transaction:
  "\<exists>s'. run_once mon_tpm no_faults 5 (exec mon_tpm no_faults take_one) first_process = Done () s'"
proof -
  obtain s where s: "exec mon_tpm no_faults take_one idle_client = Done () s"
      "srv s = Up (young_server\<lparr>mon := busy_tables\<rparr>)"
    using first_allocate by blast
  have id: "client_ok idle_client" "lfd idle_client = 0" "served 5 idle_client" "\<not> error_occured idle_client"
    using idle_ok clients_served by (simp_all add: idle_client_def idle_of_def new_process_def)
  have "client_ok s" using mq.exec_refines [OF s(1) id(1)] by blast
  moreover have "lfd s = 0" "tid s = 1"
    using mq.exec_defers_writes [of front_zero "\<lambda>_. 10" no_faults 5 no_faults take_one idle_client s] s(1) id(2)
    by (simp_all add: idle_client_def)
  moreover have "served 5 s" using obeys_returns [OF serve.executing id(3) s(1)] .
  moreover have "\<not> error_occured s" using obeys_returns [OF clean.executing _ s(1), of False] id(4) by simp
  moreover have "\<not> preempted 1 busy_tables" by (simp add: preempted_def busy_tables_def)
  ultimately obtain s' where "destruct mon_tpm no_faults s = Done () s'"
    using destruct_succeeds [of s "young_server\<lparr>mon := busy_tables\<rparr>" 5 front_zero "\<lambda>_. 10" no_faults] s(2)
    by (auto simp: served_def)
  then show ?thesis
    using first_construct s(1) by (simp add: run_once_def pseq_def pbind_def)
qed

section \<open>A process that holds a read lock\<close>

definition one_block :: disk where
  "one_block = initstore\<lparr>index_f := index_put 1 (CHR ''A'') (index_f initstore)\<rparr>"

definition reader_process :: "unit cstate" where
  "reader_process = (new_process one_block ())\<lparr>
     heap := snd (new_filled (dblock one_block 1) empty_mem),
     bmap := mput 1 \<lparr>lock = R_LOCK, data = Some 0, oldval = Some 0, oldindex = CHR ''A''\<rparr> [],
     last_free_block := 0\<rparr>"

lemma one_block_ok: "files_ok one_block" "dindex one_block 1 = CHR ''A''" "block_valid one_block 1"
proof -
  have v: "index_valid (index_f initstore) 1" by (simp add: NBLOCKS_def)
  have w: "index_valid (index_f one_block) b = index_valid (index_f initstore) b" for b
    using ix.valid_put [OF v] by (simp add: one_block_def)
  have l: "length (index_f one_block) = length (index_f initstore)"
    using index_put_update [OF v] by (simp add: one_block_def)
  show "files_ok one_block" using initstore_ok w l by (simp add: files_ok_def one_block_def)
  then show "block_valid one_block 1" using files_ok_valid w v by simp
  show "dindex one_block 1 = CHR ''A''" using ix.get_put [OF v] by (simp add: dindex_def one_block_def)
qed

lemma reader_ok: "client_ok reader_process"
proof -
  let ?v = "dblock one_block 1"
  let ?h = "snd (new_filled ?v empty_mem)"
  have g: "is_block ?v" using one_block_ok(3) sf.good_get by (simp add: dblock_def block_valid_def)
  have "entry_ok one_block ?h 0 1 \<lparr>lock = R_LOCK, data = Some 0, oldval = Some 0, oldindex = CHR ''A''\<rparr>"
    using one_block_ok good_buffer_new(1) [OF g, of empty_mem] bufval_new(1) [of ?v empty_mem]
    by (simp add: entry_ok_def new_filled_def empty_mem_def)
  moreover have n: "client_ok (new_process one_block ())" by (rule new_process_ok) (rule one_block_ok)
  moreover have "extends (heap (new_process one_block ())) ?h"
    using extends_new [of empty_mem ?v] by (simp add: new_process_def)
  moreover have "client_ok_but 1 (new_process one_block ())" "mfind (bmap (new_process one_block ())) 0 = None"
    using n by (simp_all add: client_ok_but_weaken client_ok_def)
  ultimately have "client_ok ((new_process one_block ())\<lparr>heap := ?h,
      bmap := mput 1 \<lparr>lock = R_LOCK, data = Some 0, oldval = Some 0, oldindex = CHR ''A''\<rparr>
        (bmap (new_process one_block ())), last_free_block := 0\<rparr>)"
    by (intro client_ok_put) (auto simp: buffers_def live_def new_process_def empty_mem_def)
  then show ?thesis by (simp add: reader_process_def new_process_def)
qed

lemma reader_entry:
  "mfind (bmap reader_process) 1 = Some \<lparr>lock = R_LOCK, data = Some 0, oldval = Some 0, oldindex = CHR ''A''\<rparr>"
  "lock \<lparr>lock = R_LOCK, data = Some 0, oldval = Some 0, oldindex = CHR ''A''\<rparr> = R_LOCK"
  by (simp_all add: reader_process_def)

lemma reader_upgrade_fails: "\<exists>s'. tx_write calm_tpm {ReadIndex 1} 1 zeros reader_process = Throw TE_ABORT s'"
proof -
  have "heap reader_process = snd (new_filled (dblock one_block 1) empty_mem)" by (simp add: reader_process_def)
  then show ?thesis
    by (simp add: tx_write_def reader_entry drop_read_buffer_def write_to_store_def pseq_def pbind_def tx_delete_def
        delete_buffer_def new_filled_def empty_mem_def is_allocated_def read_index_def NBLOCKS_def tx_abort_def)
qed

section \<open>A process that commits while another one has begun to\<close>

definition late_writer :: "daemon cstate" where
  "late_writer = writer_client\<lparr>files := initstore\<lparr>log_f := [begin_record 9]\<rparr>\<rparr>"

lemma client_ok_log: "client_ok s \<Longrightarrow> client_ok (s\<lparr>files := (files s)\<lparr>log_f := L\<rparr>\<rparr>)"
proof -
  assume ok: "client_ok s"
  have "files_ok ((files s)\<lparr>log_f := L\<rparr>) = files_ok (files s)" by (simp add: files_ok_def)
  moreover have "dindex ((files s)\<lparr>log_f := L\<rparr>) b = dindex (files s) b"
    "dblock ((files s)\<lparr>log_f := L\<rparr>) b = dblock (files s) b"
    "block_valid ((files s)\<lparr>log_f := L\<rparr>) b = block_valid (files s) b" for b
    by (simp_all add: dindex_def dblock_def block_valid_def)
  then have "entry_ok ((files s)\<lparr>log_f := L\<rparr>) h l b mb = entry_ok (files s) h l b mb" for h l b mb
    by (cases "lock mb") (simp_all add: entry_ok_def)
  ultimately show ?thesis using ok by (simp add: client_ok_def client_ok_but_def)
qed

lemma late_writer_ok: "client_ok late_writer"
  using client_ok_log [OF writer_ok] by (simp add: late_writer_def writer_client_def)

lemma late_writer_sel [simp]:
  "lfd late_writer = 0" "tid late_writer = 1" "srv late_writer = Up young_server"
  "files late_writer = initstore\<lparr>log_f := [begin_record 9]\<rparr>"
  by (simp_all add: late_writer_def writer_client_def)

end
