(* ===== verification/Backoff.thy ===== *)
theory Backoff
  imports TestPrograms AllocateOp
begin

text \<open>
  Restarts end. Against the monitor no call of the library hangs, so the loop of \<open>Begin(T) ... End(T)\<close>
  comes to an end; and a process that runs one transaction after the other sleeps at most 63 seconds in
  its whole life, because \<open>last_sleep\<close> is never reset.
\<close>

section \<open>No call hangs\<close>

text \<open>Programs that end, started in \<open>J\<close>, and return in \<open>J\<close>.\<close>

definition halts :: "('s \<Rightarrow> bool) \<Rightarrow> ('e, 'a, 's) prog \<Rightarrow> bool" where
  "halts J p \<longleftrightarrow> (\<forall>s. J s \<longrightarrow> p s \<noteq> Loop \<and> (\<forall>x s'. p s = Done x s' \<longrightarrow> J s'))"

named_theorems halts_intros \<open>programs that end\<close>

lemma haltsI: "(\<And>s. J s \<Longrightarrow> p s \<noteq> Loop) \<Longrightarrow> (\<And>s x s'. J s \<Longrightarrow> p s = Done x s' \<Longrightarrow> J s') \<Longrightarrow> halts J p"
  by (simp add: halts_def)

lemma haltsD: "halts J p \<Longrightarrow> J s \<Longrightarrow> p s \<noteq> Loop" "halts J p \<Longrightarrow> J s \<Longrightarrow> p s = Done x s' \<Longrightarrow> J s'"
  unfolding halts_def by blast+

lemma halts_pbind [halts_intros]: "halts J p \<Longrightarrow> (\<And>x. halts J (f x)) \<Longrightarrow> halts J (pbind p f)"
proof (rule haltsI)
  fix s assume p: "halts J p" "\<And>x. halts J (f x)" and s: "J s"
  show "pbind p f s \<noteq> Loop"
    using haltsD [OF p(1) s] haltsD(1) [OF p(2)] by (cases "p s") (auto simp: pbind_def)
next
  fix s y s' assume p: "halts J p" "\<And>x. halts J (f x)" and s: "J s" and d: "pbind p f s = Done y s'"
  then obtain x s1 where "p s = Done x s1" "f x s1 = Done y s'" by (auto simp: pbind_eq_Done)
  then show "J s'" using haltsD(2) [OF p(1) s] haltsD(2) [OF p(2)] by blast
qed

lemma halts_Done [halts_intros]: "halts J (Done x)"
  by (simp add: halts_def)

lemma halts_pseq [halts_intros]: "halts J p \<Longrightarrow> halts J q \<Longrightarrow> halts J (pseq p q)"
  unfolding pseq_def by (rule halts_pbind)

lemma halts_if [halts_intros]:
  "(c \<Longrightarrow> halts J p) \<Longrightarrow> (\<not> c \<Longrightarrow> halts J q) \<Longrightarrow> halts J (if c then p else q)"
  by simp

lemma halts_prod [halts_intros]: "(\<And>a b. halts J (f a b)) \<Longrightarrow> halts J (case r of (a, b) \<Rightarrow> f a b)"
  by (cases r) simp

lemma halts_at: "(\<And>s. J s \<Longrightarrow> \<exists>p. halts J p \<and> q s = p s) \<Longrightarrow> halts J q"
  by (rule haltsI) (metis haltsD)+

text \<open>The states in which a body runs against the monitor.\<close>

definition at_work :: "fd \<Rightarrow> trid_t \<Rightarrow> daemon cstate \<Rightarrow> bool" where
  "at_work who N s \<longleftrightarrow> open_tx who N s \<and> 0 \<le> last_free_block s"

lemma ask_not_loop:
  assumes "srv s = Up sr" "mon_inv (mon sr)"
  shows "ask_tpm (monitor_tpm ef clk bad who) q b s \<noteq> Loop"
proof -
  let ?rq = "\<lparr>rq_tid = tid s, rq_pid = pid s, rq_request = q, rq_reply = OK, rq_block = b\<rparr>"
  obtain m' r where "process_clientrq ef clk ?rq who (mon sr) = Ret (m', r)"
    using process_total [OF assms(2), of ef clk ?rq who] by (auto simp: returns_Ret)
  then show ?thesis
    using assms(1) by (simp add: ask_tpm_def monitor_tpm_def mon_ask_def Let_def tx_abort_def)
qed

lemma at_work_ask:
  assumes "q \<noteq> BEGIN" "q \<noteq> COMMIT"
  shows "halts (at_work who N) (ask_tpm (monitor_tpm ef clk bad who) q b)"
proof (rule haltsI)
  fix s assume "at_work who N s"
  then obtain sr where "srv s = Up sr" "mon_inv (mon sr)" by (auto simp: at_work_def open_tx_def)
  then show "ask_tpm (monitor_tpm ef clk bad who) q b s \<noteq> Loop" by (rule ask_not_loop)
next
  fix s x s' assume s: "at_work who N s" "ask_tpm (monitor_tpm ef clk bad who) q b s = Done x s'"
  have "open_tx who N s'" using obeys_returns [OF open_ask [OF assms] _ s(2)] s(1) by (simp add: at_work_def)
  moreover have "last_free_block s' = last_free_block s"
    using s(2) by (auto simp: ask_tpm_def Let_def tx_abort_def split: outcome.splits if_splits)
  ultimately show "at_work who N s'" using s(1) by (simp add: at_work_def)
qed

lemma at_work_local [halts_intros]:
  "halts (at_work who N) tx_abort" "halts (at_work who N) throw_abort" "halts (at_work who N) (is_allocated bad b)"
  "halts (at_work who N) tx_new" "halts (at_work who N) (tx_fill p v)" "halts (at_work who N) (tx_deref p)"
  "halts (at_work who N) (tx_delete p)" "halts (at_work who N) (set_entry b mb)"
  "halts (at_work who N) (tx_read_store bad b)" "halts (at_work who N) (\<lambda>s. Done x (s\<lparr>bmap := f s\<rparr>))"
  "halts (at_work who N) backoff_sleep" "halts (at_work who N) (\<lambda>s. Throw e (g s))" "halts (at_work who N) (\<lambda>_. Wrong)"
  by (auto simp: halts_def at_work_def open_tx_def tx_abort_def throw_abort_def is_allocated_def tx_new_def
      tx_fill_def tx_deref_def tx_delete_def set_entry_def tx_read_store_def backoff_sleep_def Let_def
      read_index_def read_store_def
      split: outcome.splits option.splits prod.splits if_splits)

lemma at_work_restart [halts_intros]: "halts (at_work who N) (restart (monitor_tpm ef clk bad who))"
  unfolding restart_def by (intro halts_intros at_work_ask) simp_all

lemma scan_free_ends: "scan_free bad cs b \<noteq> Diverge" "scan_free bad cs b = Ret (b', x) \<Longrightarrow> b \<le> b'"
  by (induction bad cs b rule: scan_free.induct) (auto split: if_splits)

lemma at_work_find [halts_intros]: "halts (at_work who N) (find_free_block (monitor_tpm ef clk bad who) bd)"
proof (rule halts_at)
  fix s assume s: "at_work who N s"
  let ?b = "last_free_block s + 1"
  let ?sc = "scan_free bd (drop (nat (?b - 1)) (index_f (files s))) ?b"
  let ?T = "monitor_tpm ef clk bad who"
  have cur: "halts (at_work who N) (\<lambda>s. Done x (s\<lparr>last_free_block := b'\<rparr>))" if "0 \<le> b'" for x b'
    using that by (auto simp: halts_def at_work_def open_tx_def)
  show "\<exists>p. halts (at_work who N) p \<and> find_free_block ?T bd s = p s"
  proof (cases ?sc)
    case (Ret r)
    then obtain b' x where r: "?sc = Ret (b', x)" by (cases r) auto
    then have b': "0 \<le> b'" using scan_free_ends(2) [OF r] s by (simp add: at_work_def)
    let ?p = "pseq (\<lambda>s. Done () (s\<lparr>last_free_block := b'\<rparr>)) (if x then Done b' else restart ?T)"
    have "halts (at_work who N) ?p" by (intro halts_intros cur b')
    moreover have "find_free_block ?T bd s = ?p s"
      using r s by (simp add: find_free_block_def Let_def pseq_def pbind_def at_work_def)
    ultimately show ?thesis by blast
  next
    case Exited
    have "halts (at_work who N) Quit" by (simp add: halts_def)
    moreover have "find_free_block ?T bd s = Quit s"
      using Exited s by (simp add: find_free_block_def Let_def at_work_def)
    ultimately show ?thesis by blast
  next
    case Undef
    then have "find_free_block ?T bd s = Wrong" using s by (simp add: find_free_block_def Let_def at_work_def)
    then show ?thesis using at_work_local(13) by metis
  qed (use scan_free_ends(1) in simp)
qed

lemma at_work_search: "halts (at_work who N) (\<lambda>s. case allocate_loop (monitor_tpm ef clk bad who) bd s of None \<Rightarrow> Loop | Some r \<Rightarrow> r)"
proof -
  let ?T = "monitor_tpm ef clk bad who"
  have "at_work who N s \<Longrightarrow> allocate_loop ?T bd s = Some r \<Longrightarrow> r \<noteq> Loop \<and> (\<forall>b s'. r = Done b s' \<longrightarrow> at_work who N s')" for s r
  proof -
    assume s: "at_work who N s" and r: "allocate_loop ?T bd s = Some r"
    have "?T = ?T \<longrightarrow> at_work who N s \<longrightarrow> r \<noteq> Loop \<and> (\<forall>b s'. r = Done b s' \<longrightarrow> at_work who N s')"
    proof (rule allocate_loop.raw_induct [where P = "\<lambda>T bad s r. T = ?T \<longrightarrow> at_work who N s \<longrightarrow>
        r \<noteq> Loop \<and> (\<forall>b s'. r = Done b s' \<longrightarrow> at_work who N s')", OF _ r], goal_cases)
      case (1 f T bad s r)
      show ?case
      proof (intro impI)
        assume T: "T = ?T" and s: "at_work who N s"
        note ff = haltsD [OF at_work_find s, of ef clk _ bad]
        show "r \<noteq> Loop \<and> (\<forall>b s'. r = Done b s' \<longrightarrow> at_work who N s')"
        proof (cases "find_free_block ?T bad s")
          case s1: (Done b s1)
          have "at_work who N s1" using ff(2) s1 by blast
          note aq = haltsD [OF at_work_ask [where q = ALLOCATE] this, of ef clk _ b]
          show ?thesis using 1 s1 aq T by (cases "ask_tpm ?T ALLOCATE b s1") (auto split: if_splits)
        qed (use 1(2) ff(1) T in auto)
      qed
    qed
    then show ?thesis using s by blast
  qed
  moreover have "at_work who N s \<Longrightarrow> allocate_loop ?T bd s \<noteq> None" for s
    by (rule allocate_loop_returns [where n = "length (index_f (files s))"])
      (auto simp: at_work_def dest: quiet_tpm.quiet [OF mq.quiet_tpm_axioms])
  ultimately show ?thesis by (fastforce simp: halts_def split: option.splits)
qed

lemma at_work_allocate [halts_intros]: "halts (at_work who N) (allocate (monitor_tpm ef clk bad who) bd)"
  unfolding allocate_def by (intro halts_intros at_work_search)

text \<open>The other calls, as in theory LibraryLaws.\<close>

lemma at_work_parts [halts_intros]:
  "halts (at_work who N) (drop_read_buffer b mb)"
  "halts (at_work who N) (read_from_store (monitor_tpm ef clk bad who) bd b)"
  "halts (at_work who N) (write_to_store (monitor_tpm ef clk bad who) bd b v)"
  "halts (at_work who N) (release_in_store (monitor_tpm ef clk bad who) bd b)"
  unfolding drop_read_buffer_def read_from_store_def write_to_store_def release_in_store_def
  by (intro halts_intros at_work_ask; simp)+

lemma at_work_calls [halts_intros]:
  "halts (at_work who N) (tx_read (monitor_tpm ef clk bad who) bd b)"
  "halts (at_work who N) (tx_write (monitor_tpm ef clk bad who) bd b v)"
  "halts (at_work who N) (tx_release (monitor_tpm ef clk bad who) bd b)"
proof -
  let ?T = "monitor_tpm ef clk bad who" and ?J = "at_work who N :: daemon cstate \<Rightarrow> bool"
  have loc: "halts ?J (pbind (tx_deref p) (\<lambda>old. pseq (tx_fill p v) (Done old)))" for p
    by (intro halts_intros)
  have up: "halts ?J (pseq (drop_read_buffer b mb) (write_to_store ?T bd b v))" for mb
    by (intro halts_intros)
  have rel: "halts ?J (pseq (drop_read_buffer b mb) (release_in_store ?T bd b))" for mb
    by (intro halts_intros)
  have mark: "halts ?J (\<lambda>s. Done () (s\<lparr>bmap := mupd b (\<lambda>mb. mb\<lparr>lock := S_LOCK\<rparr>) (bmap s)\<rparr>))"
    by (rule at_work_local(10))
  show "halts ?J (tx_read ?T bd b)"
    by (rule halts_at) (use tx_read_at [of b ?T bd] at_work_local(1,2) at_work_parts(2) halts_Done in metis)
  show "halts ?J (tx_write ?T bd b v)"
    by (rule halts_at) (use tx_write_at [of b ?T bd v] at_work_local(1,2) at_work_parts(3) loc up in metis)
  show "halts ?J (tx_release ?T bd b)"
  proof (rule halts_at)
    fix s
    show "\<exists>p. halts ?J p \<and> tx_release ?T bd b s = p s"
      using tx_release_at [of b ?T bd s]
    proof (elim disjE exE conjE)
      assume "tx_release ?T bd b s = Done () (s\<lparr>bmap := mupd b (\<lambda>mb. mb\<lparr>lock := S_LOCK\<rparr>) (bmap s)\<rparr>)"
      then show ?thesis using mark by (intro exI conjI)
    qed (use at_work_local(2) at_work_parts(4) rel in blast)+
  qed
qed

lemma at_work_exec: "halts (at_work who N) (exec (monitor_tpm ef clk bad who) bd scr)"
  by (induction scr) (auto intro!: halts_intros)

section \<open>Commit and destructor\<close>

lemma served_asks:
  assumes "q \<noteq> BEGIN"
  shows "halts (served who) (ask_tpm (monitor_tpm ef clk bad who) q b)"
proof (rule haltsI)
  fix s assume "served who s"
  then obtain sr where "srv s = Up sr" "mon_inv (mon sr)" by (auto simp: served_def)
  then show "ask_tpm (monitor_tpm ef clk bad who) q b s \<noteq> Loop" by (rule ask_not_loop)
next
  fix s x s' assume "served who s" "ask_tpm (monitor_tpm ef clk bad who) q b s = Done x s'"
  then show "served who s'" using obeys_returns [OF served_ask [OF assms]] by blast
qed

lemma served_log [halts_intros]: "halts (served who) (tx_log bd a b oi ov)"
proof (rule haltsI)
  fix s :: "daemon cstate"
  show "tx_log bd a b oi ov s \<noteq> Loop" using tx_log_run [of bd a b oi ov s] by (auto split: if_splits)
  show "served who s'" if "served who s" "tx_log bd a b oi ov s = Done x s'" for x s'
    using tx_log_run [of bd a b oi ov s] that by (auto simp: served_def split: if_splits)
qed

lemma served_local [halts_intros]:
  "halts (served who) tx_abort" "halts (served who) throw_abort" "halts (served who) (tx_deref p)"
  "halts (served who) (put_index bd b c)" "halts (served who) (put_store bd b v)"
  by (auto simp: halts_def served_def tx_abort_def throw_abort_def tx_deref_def put_index_def put_store_def
      write_index_def write_store_def split: outcome.splits if_splits)

lemma served_entries [halts_intros]: "halts (served who) (commit_entries bd es)"
proof (induction es)
  case (Cons e es)
  obtain b mb where e: "e = (b, mb)" by fastforce
  have ov: "halts (served who) (oldval_arg p)" for p unfolding oldval_arg_def by (intro halts_intros)
  have "halts (served who) (commit_entry bd b mb)"
    unfolding commit_entry_def by (cases "lock mb") (auto intro!: halts_intros ov)
  then show ?case using Cons by (auto simp: e intro!: halts_intros)
qed (simp add: halts_intros)

lemma served_commit: "halts (served who) (commit (monitor_tpm ef clk bad who) bd)"
proof -
  have "halts (served who) (\<lambda>s. commit_entries bd (bmap s) s)"
    by (rule halts_at) (use served_entries in blast)
  then show ?thesis unfolding commit_def by (intro halts_intros served_asks) simp_all
qed

lemma destruct_ends:
  assumes "served who s"
  shows "destruct (monitor_tpm ef clk bad who) bd s \<noteq> Loop"
proof -
  let ?T = "monitor_tpm ef clk bad who"
  have "pseq (\<lambda>s. free_entries (bmap s) s) (close_connection ?T) s1 \<noteq> Loop" for s1
    using frees_mem [OF frees_all, of "bmap s1" s1]
    by (auto simp: pseq_def pbind_def close_connection_def split: prod.splits)
  moreover have "commit ?T bd s \<noteq> Loop" using haltsD(1) [OF served_commit assms] .
  ultimately show ?thesis by (cases "commit ?T bd s") (auto simp: destruct_def pseq_def pbind_def)
qed

section \<open>The loop of Begin and End\<close>

lemma attempt_ends:
  assumes st: "attempt_start who N d s" "N \<noteq> -1"
  shows "run_once (monitor_tpm ef clk bad who) bd p (exec (monitor_tpm ef clk bad who) bd scr) s \<noteq> Loop"
proof -
  let ?T = "monitor_tpm ef clk bad who"
  from construct_ends [OF st, of ef clk bad bd p] show ?thesis
  proof (elim disjE exE conjE)
    fix s1 assume c: "construct ?T bd p s = Done () s1" and o1: "open_tx who (N + 1) s1" and ok: "client_ok s1"
    have a1: "at_work who (N + 1) s1" using o1 client_okD [OF ok] by (simp add: at_work_def)
    have sv: "served who s2" if "open_tx who (N + 1) s2" for s2 using that by (auto simp: open_tx_def served_def)
    have op: "post True (\<lambda>_. open_tx who (N + 1)) (\<lambda>_. open_tx who (N + 1)) (exec ?T bd scr s1)"
      by (rule obeysD [OF opn.executing o1])
    note x = haltsD(1) [OF at_work_exec a1, of ef clk bad bd scr]
    show ?thesis
    proof (cases "exec ?T bd scr s1")
      case (Done u s2)
      then show ?thesis using c op destruct_ends [OF sv, of s2 ef clk bad bd]
        by (simp add: run_once_def pseq_def pbind_def)
    next
      case (Throw e s2)
      then show ?thesis using c op destruct_ends [OF sv, of s2 ef clk bad bd]
        by (auto simp: run_once_def pseq_def pbind_def split: run.split)
    qed (use c x in \<open>simp_all add: run_once_def pseq_def pbind_def\<close>)
  qed (simp add: run_once_def pseq_def pbind_def)
qed

lemma loop_ends:
  fixes scr bd p ef clk who
  defines "T \<equiv> monitor_tpm ef clk no_faults who"
  assumes "attempt_start who N d s" "tries_left N s" "positive scr"
    and "transaction_loop T bd p (exec T bd scr) s = Some r"
  shows "r \<noteq> Loop"
  using assms(2,3,5)
proof (induction "6 - unat (last_sleep s)" arbitrary: s N rule: less_induct)
  case less
  have N: "N \<noteq> -1" by (rule tries_left_number [OF less.prems(2)])
  let ?r = "run_once T bd p (exec T bd scr) s"
  note nl = attempt_ends [OF less.prems(1) N, of ef clk no_faults bd p scr, folded T_def]
  note unf = less.prems(3) [unfolded transaction_loop.simps [of T bd p "exec T bd scr" s]]
  show ?case
  proof (cases "\<exists>s1. ?r = Throw TE_RESTART s1")
    case True
    then obtain s1 where s1: "?r = Throw TE_RESTART s1" by blast
    then have "transaction_loop T bd p (exec T bd scr) s1 = Some r" using unf by simp
    then show ?thesis
      using less.hyps [of s1 "N + 1"] next_attempt [OF less.prems(1,2) assms(4), of ef clk bd p s1, folded T_def] s1
      by simp
  next
    case False
    then show ?thesis using unf nl by (auto split: run.splits TransactionException.splits)
  qed
qed

section \<open>The life of a process\<close>

text \<open>Transactions one after the other in one process, like the two rounds of \<open>st2\<close>.\<close>

fun run_all :: "'m tpm \<Rightarrow> env \<Rightarrow> pid_t \<Rightarrow> script list \<Rightarrow> 'm cstate \<Rightarrow> (TransactionException, unit, 'm cstate) run option" where
  "run_all T bad p [] s = Some (Done () s)"
| "run_all T bad p (scr # scrs) s =
     (case transaction_loop T bad p (exec T bad scr) s of
        Some (Done u s1) \<Rightarrow> run_all T bad p scrs s1
      | r \<Rightarrow> r)"

lemma st2_main_run_all: "st2_main T bad p s = run_all T bad p [st2, st2] s"
  by (auto simp: st2_main_def split: option.split run.split)

definition powers :: "nat \<Rightarrow> 32 word list" where
  "powers k = map (\<lambda>i. sleeptime (of_nat i)) [0..<k]"

text \<open>\<open>last_sleep\<close> counts the restarts so far.\<close>

definition counted :: "'m cstate \<Rightarrow> bool" where
  "counted s \<longleftrightarrow> (\<exists>k \<le> 6. last_sleep s = of_nat k \<and> sleeps s = powers k)"

definition slept :: "'m cstate \<Rightarrow> bool" where
  "slept s \<longleftrightarrow> (\<exists>k \<le> 7. last_sleep s = of_nat k \<and> sleeps s = powers (min 6 k))"

lemma powers_Suc: "powers (Suc k) = powers k @ [sleeptime (of_nat k)]"
  by (simp add: powers_def)

lemma commit_never_fails: "obeys (\<lambda>_. True) (\<lambda>e _. e \<noteq> Some TE_FAIL) (destruct T bad)"
proof -
  have "obeys (\<lambda>_. True) (\<lambda>e _. e \<noteq> Some TE_FAIL) (free_entries es)" for es :: "(block_no \<times> mblock) list"
    by (induction es rule: free_entries.induct) (auto simp: free_entry_def intro!: obeys_intros nf.pieces)
  moreover have "obeys (\<lambda>_. True) (\<lambda>e _. e \<noteq> Some TE_FAIL) (close_connection T)"
    by (rule obeysI) (auto simp: close_connection_def split: prod.split)
  ultimately show ?thesis unfolding destruct_def
    by (intro obeys_intros obeysI) (auto intro: obeysD [OF commit_throws] obeysD)
qed

lemma run_once_never_fails: "run_once T bad p (exec T bad scr) s \<noteq> Throw TE_FAIL s'"
proof
  assume r: "run_once T bad p (exec T bad scr) s = Throw TE_FAIL s'"
  have c: "obeys (\<lambda>_. True) (\<lambda>e _. e \<noteq> Some TE_FAIL) (construct T bad p)"
    by (rule obeysI) (auto simp: construct_def Let_def pbind_def ask_tpm_def tx_abort_def split: outcome.split)
  obtain s1 where s1: "construct T bad p s = Done () s1"
    using r obeysD [OF c TrueI, of s]
    by (cases "construct T bad p s") (auto simp: run_once_def pseq_def pbind_def)
  have x: "post True (\<lambda>_ _. True) (\<lambda>e _. e \<noteq> Some TE_FAIL) (exec T bad scr s1)"
    by (rule obeysD [OF nf.executing TrueI])
  have d: "post True (\<lambda>_ _. True) (\<lambda>e _. e \<noteq> Some TE_FAIL) (destruct T bad s2)" for s2
    by (rule obeysD [OF commit_never_fails TrueI])
  show False
  proof (cases "exec T bad scr s1")
    case (Done u s2)
    then show False using r s1 d [of s2] by (simp add: run_once_def pseq_def pbind_def)
  next
    case (Throw e s2)
    then show False using r s1 x by (cases "destruct T bad s2") (auto simp: run_once_def pseq_def pbind_def)
  qed (use r s1 in \<open>simp_all add: run_once_def pseq_def pbind_def\<close>)
qed

lemma slept_after:
  assumes "k \<le> 6" "awake (of_nat k) (powers k) s \<or> k < 6 \<and> slp (of_nat k + 1) (powers k @ [sleeptime (of_nat k)]) s"
  shows "slept s"
proof -
  have "unat (of_nat k :: 32 word) = k" using assms(1) by (simp add: unat_of_nat)
  then consider "last_sleep s = of_nat k" "sleeps s = powers k"
    | "k = 6" "last_sleep s = of_nat (Suc k)" "sleeps s = powers k"
    | "k < 6" "last_sleep s = of_nat (Suc k)" "sleeps s = powers (Suc k)"
    using assms by (auto simp: awake_def slp_def powers_Suc add.commute)
  then show ?thesis
  proof cases
    case 1
    then show ?thesis using assms(1) unfolding slept_def by (intro exI [of _ k]) (simp add: min_def)
  next
    case 2
    then show ?thesis unfolding slept_def by (intro exI [of _ "Suc k"]) simp
  next
    case 3
    have "min 6 (Suc k) = Suc k" using 3(1) by simp
    then show ?thesis using 3 unfolding slept_def by (intro exI [of _ "Suc k"]) (simp del: min_Suc_Suc)
  qed
qed

lemma counted_slept:
  assumes "counted s"
  shows "slept s"
proof -
  obtain k where k: "k \<le> 6" "last_sleep s = of_nat k" "sleeps s = powers k"
    using assms by (auto simp: counted_def)
  show ?thesis by (rule slept_after [OF k(1)]) (simp add: awake_def k)
qed

lemma loop_counted:
  assumes "counted s" "transaction_loop T bad p (exec T bad scr) s = Some r"
  shows "(\<forall>u s'. r = Done u s' \<longrightarrow> counted s') \<and> (\<forall>s'. final r = Some s' \<longrightarrow> slept s')"
  using assms
proof (induction "6 - unat (last_sleep s)" arbitrary: s rule: less_induct)
  case less
  let ?r = "run_once T bad p (exec T bad scr) s"
  obtain k where k: "k \<le> 6" "last_sleep s = of_nat k" "sleeps s = powers k"
    using less.prems(1) by (auto simp: counted_def)
  have u: "unat (last_sleep s) = k" using k(1,2) by (simp add: unat_of_nat)
  note ro = run_once_pace [OF paced_exec, of "of_nat k" "powers k" s T bad p T bad scr]
  have s0: "slp (of_nat k) (powers k) s" using k by (simp add: slp_def)
  note unf = less.prems(2) [unfolded transaction_loop.simps [of T bad p "exec T bad scr" s]]
  have sl: "slept s'" if "awake (of_nat k) (powers k) s' \<or> k < 6 \<and> slp (of_nat k + 1) (powers k @ [sleeptime (of_nat k)]) s'"
    for s' :: "'a cstate"
    by (rule slept_after [OF k(1) that])
  show ?case
  proof (cases ?r)
    case (Throw e s1)
    show ?thesis
    proof (cases e)
      case TE_RESTART
      then have p: "k < 6" "last_sleep s1 = of_nat k + 1" "sleeps s1 = powers (Suc k)"
        using ro [OF s0] Throw u k(2) powers_Suc [of k] by (auto simp: slp_def)
      then have "counted s1" unfolding counted_def by (intro exI [of _ "Suc k"]) (simp add: add.commute)
      moreover have "unat (last_sleep s1) = Suc k"
        using unat_Suc_small [of "of_nat k"] p u k(2) by simp
      then have "6 - unat (last_sleep s1) < 6 - unat (last_sleep s)" using u p(1) by simp
      ultimately show ?thesis using less.hyps [of s1] unf Throw TE_RESTART by simp
    next
      case TE_ABORT
      then show ?thesis using ro [OF s0] unf Throw u k(2) sl by auto
    next
      case TE_FAIL
      then have False using run_once_never_fails [of T bad p scr s s1] Throw by simp
      then show ?thesis ..
    qed
  next
    case (Done x s1)
    have c: "counted s1" using ro [OF s0] Done k(1) by (auto simp: slp_def counted_def)
    moreover have "slept s1" using c by (rule counted_slept)
    ultimately show ?thesis using unf Done by auto
  next
    case (Quit s1)
    have "slept s1" by (rule sl) (use ro [OF s0] Quit u k(2) in auto)
    moreover have "r = Quit s1" using unf Quit by simp
    ultimately show ?thesis by simp
  qed (use unf in auto)
qed

lemma life_counted:
  assumes "counted s" "run_all T bad p scrs s = Some r" "final r = Some s'"
  shows "slept s'"
  using assms
proof (induction scrs arbitrary: s)
  case Nil
  then show ?case using counted_slept by auto
next
  case (Cons scr scrs)
  then obtain r1 where r1: "transaction_loop T bad p (exec T bad scr) s = Some r1"
    by (auto split: option.splits)
  note lc = loop_counted [OF Cons.prems(1) r1]
  show ?case using Cons lc r1 by (cases r1) auto
qed

lemma powers_six: "map unat (powers 6) = [1, 2, 4, 8, 16, 32]"
proof -
  have "[0..<6] = [0 :: nat, 1, 2, 3, 4, 5]" by code_simp
  then show ?thesis by (simp add: powers_def sleeptime_def)
qed

lemma powers_sum: "k \<le> 6 \<Longrightarrow> map unat (powers k) = map (\<lambda>i. 2 ^ i) [0..<k] \<and> sum_list (map unat (powers k)) < 64"
proof -
  assume k: "k \<le> 6"
  have "unat (sleeptime (of_nat i)) = 2 ^ i" if "i < k" for i
    using sleeptime_bound(2) [of "of_nat i"] that k by (simp add: unat_of_nat)
  then have p: "map unat (powers k) = map (\<lambda>i. 2 ^ i) [0..<k]" by (simp add: powers_def)
  have "sum_list (map (\<lambda>i. 2 ^ i :: nat) [0..<k]) = 2 ^ k - 1"
    by (induction k) simp_all
  moreover have "(2::nat) ^ k \<le> 2 ^ 6" by (rule power_increasing [OF k]) simp
  ultimately show ?thesis using p by simp
qed

end
