(* ===== verification/Transport.thy ===== *)
theory Transport
  imports Trq
begin

unbundle bit_operations_syntax

text \<open>
  \<open>Transport.cc\<close> and the bytes of a \<open>trq\<close> on the socket. \<open>writeSocket\<close> sends the memory of the structure
  and \<open>readSocket\<close> receives into it, so the wire format is the layout of the structure on the
  machine the program was written for: little endian, 8 bytes for \<open>unsigned long\<close> and 4 for \<open>pid_t\<close>,
  the enums and \<open>int\<close>. The socket calls and the resolver are the record \<open>sockets\<close>, a parameter of every
  function; the state is the operating system's \<open>os\<close> and the object's own fields \<open>tcp\<close>.
\<close>

section \<open>Words as bytes\<close>

definition le_bytes :: "nat \<Rightarrow> 'a::len word \<Rightarrow> byte list" where
  "le_bytes n w = map (\<lambda>i. ucast (drop_bit (8 * i) w)) [0..<n]"

fun of_le :: "byte list \<Rightarrow> 'a::len word" where
  "of_le [] = 0"
| "of_le (b # bs) = ucast b OR push_bit 8 (of_le bs)"

lemma length_le_bytes [simp]: "length (le_bytes n w) = n"
  by (simp add: le_bytes_def)

lemma bit_le_bytes: "i < n \<Longrightarrow> bit (le_bytes n w ! i) k \<longleftrightarrow> k < 8 \<and> bit w (8 * i + k)"
  for w :: "'a::len word"
  by (auto simp: le_bytes_def bit_ucast_iff bit_drop_bit_eq add.commute)

lemma bit_of_le:
  "bit (of_le bs :: 'a::len word) k \<longleftrightarrow>
     k < LENGTH('a) \<and> k < 8 * length bs \<and> bit (bs ! (k div 8)) (k mod 8)"
proof (induction bs arbitrary: k)
  case (Cons b bs)
  show ?case
  proof (cases "k < 8")
    case True
    then show ?thesis by (auto simp: bit_simps)
  next
    case False
    then have "k div 8 = Suc ((k - 8) div 8)" "k mod 8 = (k - 8) mod 8"
      by (simp_all add: div_if mod_if)
    moreover have "\<not> bit b k" using False bit_imp_le_length [of b k] by auto
    ultimately show ?thesis using False Cons.IH [of "k - 8"] by (auto simp: bit_simps)
  qed
qed simp

lemma of_le_bytes:
  assumes "LENGTH('a) = 8 * n"
  shows "(of_le (le_bytes n w) :: 'a::len word) = w"
proof (rule bit_word_eqI)
  fix k assume k: "k < LENGTH('a)"
  then have "k div 8 < n" using assms by (simp add: less_mult_imp_div_less mult.commute)
  moreover have "8 * (k div 8) + k mod 8 = k" by simp
  ultimately show "bit (of_le (le_bytes n w) :: 'a word) k = bit w k"
    using k assms by (simp add: bit_of_le bit_le_bytes)
qed

lemma le_bytes_of_le:
  assumes "LENGTH('a) = 8 * n" "length bs = n"
  shows "le_bytes n (of_le bs :: 'a::len word) = bs"
proof (rule nth_equalityI)
  fix i assume "i < length (le_bytes n (of_le bs :: 'a word))"
  then have i: "i < n" by simp
  show "le_bytes n (of_le bs :: 'a word) ! i = bs ! i"
  proof (rule bit_word_eqI)
    fix k assume "k < LENGTH(8)"
    then have k: "k < 8" by simp
    then have "(8 * i + k) div 8 = i" "(8 * i + k) mod 8 = k" "8 * i + k < 8 * n" using i by auto
    then show "bit (le_bytes n (of_le bs :: 'a word) ! i) k = bit (bs ! i) k"
      using i k assms by (simp add: bit_le_bytes bit_of_le)
  qed
qed (use assms in simp)

section \<open>The structure in memory\<close>

record wire =
  w_tid :: "64 word"
  w_pid :: "32 word"
  w_request :: "32 word"
  w_reply :: "32 word"
  w_block :: "32 word"

definition TRQ_SIZE :: nat where "TRQ_SIZE = 24"

definition encode_wire :: "wire \<Rightarrow> byte list" where
  "encode_wire w = le_bytes 8 (w_tid w) @ le_bytes 4 (w_pid w) @ le_bytes 4 (w_request w) @
     le_bytes 4 (w_reply w) @ le_bytes 4 (w_block w)"

definition decode_wire :: "byte list \<Rightarrow> wire" where
  "decode_wire bs =
     \<lparr>w_tid = of_le (take 8 bs), w_pid = of_le (take 4 (drop 8 bs)),
      w_request = of_le (take 4 (drop 12 bs)), w_reply = of_le (take 4 (drop 16 bs)),
      w_block = of_le (take 4 (drop 20 bs))\<rparr>"

lemma length_encode [simp]: "length (encode_wire w) = TRQ_SIZE"
  by (simp add: encode_wire_def TRQ_SIZE_def)

lemma decode_encode [simp]: "decode_wire (encode_wire w) = w"
  by (simp add: decode_wire_def encode_wire_def of_le_bytes)

lemma encode_decode: "length bs = TRQ_SIZE \<Longrightarrow> encode_wire (decode_wire bs) = bs"
proof -
  assume l: "length bs = TRQ_SIZE"
  have piece: "take n (drop m bs) @ drop (n + m) bs = drop m bs" for n m
    by (metis append_take_drop_id drop_drop)
  have "take 4 (drop 20 bs) = drop 20 bs" using l by (simp add: TRQ_SIZE_def)
  then have "take 8 bs @ take 4 (drop 8 bs) @ take 4 (drop 12 bs) @ take 4 (drop 16 bs) @
      take 4 (drop 20 bs) = bs"
    using piece [of 4 16] piece [of 4 12] piece [of 4 8] piece [of 8 0] by simp
  with l show ?thesis
    by (simp add: decode_wire_def encode_wire_def le_bytes_of_le TRQ_SIZE_def)
qed

text \<open>The enumerators are numbered in the order of their declaration.\<close>

definition request_values :: "request_t list" where
  "request_values = [BEGIN, COMMIT, END, READ, WRITE, ABORT, ALLOCATE, RELEASE, RESTART]"

definition reply_values :: "reply_t list" where
  "reply_values = [OK, NOT_OK, DIE]"

fun request_code :: "request_t \<Rightarrow> nat" where
  "request_code BEGIN = 0" | "request_code COMMIT = 1" | "request_code END = 2"
| "request_code READ = 3" | "request_code WRITE = 4" | "request_code ABORT = 5"
| "request_code ALLOCATE = 6" | "request_code RELEASE = 7" | "request_code RESTART = 8"

fun reply_code :: "reply_t \<Rightarrow> nat" where
  "reply_code OK = 0" | "reply_code NOT_OK = 1" | "reply_code DIE = 2"

lemma request_values_code [simp]: "request_code q < length request_values" "request_values ! request_code q = q"
  by (cases q; simp add: request_values_def)+

lemma reply_values_code [simp]: "reply_code r < length reply_values" "reply_values ! reply_code r = r"
  by (cases r; simp add: reply_values_def)+

definition to_wire :: "trq \<Rightarrow> wire" where
  "to_wire q = \<lparr>w_tid = rq_tid q, w_pid = rq_pid q, w_request = of_nat (request_code (rq_request q)),
     w_reply = of_nat (reply_code (rq_reply q)), w_block = of_int (rq_block q)\<rparr>"

text \<open>A number outside an enum is no value of the model's datatypes.\<close>

definition of_wire :: "wire \<Rightarrow> trq option" where
  "of_wire w =
     (if unat (w_request w) < length request_values \<and> unat (w_reply w) < length reply_values
      then Some \<lparr>rq_tid = w_tid w, rq_pid = w_pid w, rq_request = request_values ! unat (w_request w),
             rq_reply = reply_values ! unat (w_reply w), rq_block = sint (w_block w)\<rparr>
      else None)"

definition int32 :: "int \<Rightarrow> bool" where
  "int32 i \<longleftrightarrow> - (2 ^ 31) \<le> i \<and> i < 2 ^ 31"

lemma unat_code [simp]:
  "unat (of_nat (request_code q) :: 32 word) = request_code q"
  "unat (of_nat (reply_code r) :: 32 word) = reply_code r"
  by (cases q; simp)+ (cases r; simp)+

lemma sint_of_int32: "int32 i \<Longrightarrow> sint (of_int i :: 32 word) = i"
  by (simp add: int32_def sint_sbintrunc' signed_take_bit_int_eq_self signed_take_bit_int_eq_self_iff)

lemma of_to_wire [simp]: "int32 (rq_block q) \<Longrightarrow> of_wire (to_wire q) = Some q"
  by (simp add: of_wire_def to_wire_def sint_of_int32)


section \<open>The socket calls\<close>

record sockaddr_in =
  sin_family :: "16 word"
  sin_port :: "16 word"
  sin_addr :: "32 word"

text \<open>
  What the operating system and the resolver supply. \<open>None\<close> and negative numbers are failures;
  \<open>Diverge\<close> is a call that blocks, \<open>Exited\<close> a signal that ends the process (SIGPIPE). \<open>sys_gethost\<close>
  returns \<open>h_addr_list[0]\<close> and the value of \<open>h_errno\<close> after the call, which a successful lookup does
  not reset; \<open>sys_pton\<close> returns the result of \<open>inet_pton\<close> and the address it stores on success.
\<close>

record 'o sockets =
  sys_socket :: "'o \<Rightarrow> fd \<times> 'o"
  sys_bind :: "fd \<Rightarrow> sockaddr_in \<Rightarrow> 'o \<Rightarrow> int \<times> 'o"
  sys_listen :: "fd \<Rightarrow> int \<Rightarrow> 'o \<Rightarrow> int \<times> 'o"
  sys_accept :: "fd \<Rightarrow> 'o \<Rightarrow> (fd \<times> sockaddr_in \<times> 'o) outcome"
  sys_connect :: "fd \<Rightarrow> sockaddr_in \<Rightarrow> 'o \<Rightarrow> int \<times> 'o"
  sys_recv :: "fd \<Rightarrow> nat \<Rightarrow> 'o \<Rightarrow> (byte list option \<times> 'o) outcome"
  sys_send :: "fd \<Rightarrow> byte list \<Rightarrow> 'o \<Rightarrow> (bool \<times> 'o) outcome"
  sys_close :: "fd \<Rightarrow> 'o \<Rightarrow> 'o"
  sys_select :: "fd \<Rightarrow> fd set \<Rightarrow> 'o \<Rightarrow> ((fd set \<times> int) option \<times> 'o) outcome"
  sys_gethost :: "string \<Rightarrow> 'o \<Rightarrow> byte list option \<times> int \<times> 'o"
  sys_pton :: "byte list \<Rightarrow> int \<times> 32 word"

record transport =
  tl_sockfd :: fd
  serveraddr :: sockaddr_in
  clientaddr :: sockaddr_in

record 'o endpoint =
  os :: 'o
  tcp :: transport

type_synonym ('a, 'o) netprog = "(TransactionException, 'a, 'o endpoint) prog"

definition no_address :: sockaddr_in where
  "no_address = \<lparr>sin_family = 0, sin_port = 0, sin_addr = 0\<rparr>"

definition new_transport :: transport where
  "new_transport = \<lparr>tl_sockfd = -1, serveraddr = no_address, clientaddr = no_address\<rparr>"

text \<open>\<open>AF_INET\<close>, and \<open>htons\<close> on a little-endian machine; its argument is cut to 16 bits.\<close>

definition AF_INET :: "16 word" where "AF_INET = 2"

definition htons :: "32 word \<Rightarrow> 16 word" where
  "htons p = of_le (rev (le_bytes 2 (ucast p :: 16 word)))"

definition createSocket :: "'o sockets \<Rightarrow> (fd, 'o) netprog" where
  "createSocket S s =
     (let (fd, o') = sys_socket S (os s);
          s1 = s\<lparr>os := o', tcp := (tcp s)\<lparr>tl_sockfd := fd\<rparr>\<rparr>
      in if fd = -1 then Quit s1 else Done fd s1)"

definition bindSocket :: "'o sockets \<Rightarrow> fd \<Rightarrow> 32 word \<Rightarrow> (unit, 'o) netprog" where
  "bindSocket S sock port s =
     (let a = \<lparr>sin_family = AF_INET, sin_port = htons port, sin_addr = 0\<rparr>;
          (rc, o') = sys_bind S sock a (os s);
          s1 = s\<lparr>os := o', tcp := (tcp s)\<lparr>serveraddr := a\<rparr>\<rparr>
      in if rc = -1 then Quit s1 else Done () s1)"

definition listenSocket :: "'o sockets \<Rightarrow> fd \<Rightarrow> int \<Rightarrow> (unit, 'o) netprog" where
  "listenSocket S sock qlen s =
     (let (rc, o') = sys_listen S sock qlen (os s); s1 = s\<lparr>os := o'\<rparr>
      in if rc = -1 then Quit s1 else Done () s1)"

definition acceptSocket :: "'o sockets \<Rightarrow> fd \<Rightarrow> (fd, 'o) netprog" where
  "acceptSocket S sock s =
     (case sys_accept S sock (os s) of
        Ret (fd, a, o') \<Rightarrow>
          let s1 = s\<lparr>os := o', tcp := (tcp s)\<lparr>clientaddr := a\<rparr>\<rparr> in
          if fd = -1 then Quit s1 else Done fd s1
      | Exited \<Rightarrow> Quit s | Undef \<Rightarrow> Wrong | Diverge \<Rightarrow> Loop)"

definition closeSocket :: "'o sockets \<Rightarrow> fd \<Rightarrow> (unit, 'o) netprog" where
  "closeSocket S sock s = Done () (s\<lparr>os := sys_close S sock (os s)\<rparr>)"

text \<open>
  \<open>recv\<close> overwrites the front of the caller's structure with the bytes it got, at most \<open>sizeof(trq)\<close>;
  the result is their number, 0 when the other side closed the connection.
\<close>

definition overwrite :: "byte list \<Rightarrow> byte list \<Rightarrow> byte list" where
  "overwrite bs buf = bs @ drop (length bs) buf"

definition readSocket :: "'o sockets \<Rightarrow> fd \<Rightarrow> byte list \<Rightarrow> (nat \<times> byte list, 'o) netprog" where
  "readSocket S sock buf s =
     (case sys_recv S sock TRQ_SIZE (os s) of
        Ret (r, o') \<Rightarrow>
          let s1 = s\<lparr>os := o'\<rparr> in
          (case r of None \<Rightarrow> Quit s1 | Some bs \<Rightarrow> Done (length bs, overwrite bs buf) s1)
      | Exited \<Rightarrow> Quit s | Undef \<Rightarrow> Wrong | Diverge \<Rightarrow> Loop)"

definition writeSocket :: "'o sockets \<Rightarrow> fd \<Rightarrow> wire \<Rightarrow> (unit, 'o) netprog" where
  "writeSocket S sock w s =
     (case sys_send S sock (encode_wire w) (os s) of
        Ret (okay, o') \<Rightarrow> (if okay then Done () (s\<lparr>os := o'\<rparr>) else Quit (s\<lparr>os := o'\<rparr>))
      | Exited \<Rightarrow> Quit s | Undef \<Rightarrow> Wrong | Diverge \<Rightarrow> Loop)"

text \<open>
  \<open>connectSocket\<close> hands the 4 bytes of a binary address to \<open>inet_pton\<close>, which reads a C string: the
  bytes up to the first zero, or beyond the array when there is none.
\<close>

definition c_string :: "byte list \<Rightarrow> byte list option" where
  "c_string bs = (if 0 \<in> set bs then Some (takeWhile (\<lambda>b. b \<noteq> 0) bs) else None)"

definition connectSocket :: "'o sockets \<Rightarrow> fd \<Rightarrow> string \<Rightarrow> 32 word \<Rightarrow> (unit, 'o) netprog" where
  "connectSocket S sock host port s =
     (let a0 = (clientaddr (tcp s))\<lparr>sin_family := AF_INET, sin_port := htons port\<rparr>;
          (h, herr, o1) = sys_gethost S host (os s);
          s1 = s\<lparr>os := o1, tcp := (tcp s)\<lparr>clientaddr := a0\<rparr>\<rparr>
      in if herr \<noteq> 0 then Quit s1
         else case h of
             None \<Rightarrow> Wrong
           | Some addr \<Rightarrow>
               (case c_string addr of
                  None \<Rightarrow> Wrong
                | Some str \<Rightarrow>
                    let (rc, a) = sys_pton S str;
                        a1 = (if rc = 1 then a0\<lparr>sin_addr := a\<rparr> else a0);
                        s2 = s1\<lparr>tcp := (tcp s1)\<lparr>clientaddr := a1\<rparr>\<rparr>
                    in if rc < 0 then Quit s2
                       else let (rc', o2) = sys_connect S sock a1 (os s2); s3 = s2\<lparr>os := o2\<rparr>
                            in if rc' < 0 then Quit s3 else Done () s3))"

section \<open>What the calls do\<close>

lemma overwrite_all [simp]: "length buf \<le> length bs \<Longrightarrow> overwrite bs buf = bs"
  by (simp add: overwrite_def)

lemma length_overwrite [simp]: "length bs \<le> length buf \<Longrightarrow> length (overwrite bs buf) = length buf"
  by (simp add: overwrite_def)

lemma readSocket_Done:
  "readSocket S sock buf s = Done (n, buf') s' \<longleftrightarrow>
     (\<exists>bs o'. sys_recv S sock TRQ_SIZE (os s) = Ret (Some bs, o') \<and> n = length bs \<and>
        buf' = overwrite bs buf \<and> s' = s\<lparr>os := o'\<rparr>)"
  by (auto simp: readSocket_def Let_def split: outcome.splits option.splits)

lemma readSocket_buffer:
  "readSocket S sock buf s = Done (n, buf') s' \<Longrightarrow> n \<le> length buf \<Longrightarrow> length buf' = length buf"
  by (auto simp: readSocket_Done)

text \<open>\<open>inet_pton\<close> as documented: text shorter than \<open>0.0.0.0\<close> is no address; the result is then 0.\<close>

definition pton_doc :: "(byte list \<Rightarrow> int \<times> 32 word) \<Rightarrow> bool" where
  "pton_doc f \<longleftrightarrow> (\<forall>bs. length bs < 7 \<longrightarrow> fst (f bs) = 0)"

lemma connect_ignores_host:
  assumes "pton_doc (sys_pton S)" "connectSocket S sock host port s = Done () s'"
    and "\<And>bs herr o'. sys_gethost S host (os s) = (Some bs, herr, o') \<Longrightarrow> length bs = 4"
  shows "clientaddr (tcp s') = \<lparr>sin_family = AF_INET, sin_port = htons port,
      sin_addr = sin_addr (clientaddr (tcp s))\<rparr> \<and>
    (\<exists>rc o1. sys_connect S sock (clientaddr (tcp s')) o1 = (rc, os s') \<and> 0 \<le> rc)"
proof -
  obtain bs o' str where h: "sys_gethost S host (os s) = (Some bs, 0, o')" "c_string bs = Some str"
    using assms(2) by (auto simp: connectSocket_def Let_def split: prod.splits if_splits option.splits)
  have "0 \<in> set bs" "str = takeWhile (\<lambda>b. b \<noteq> 0) bs"
    using h(2) by (auto simp: c_string_def split: if_splits)
  then have "length str \<le> length bs" by (simp add: length_takeWhile_le)
  then have "fst (sys_pton S str) = 0" using assms(1,3) h(1) by (fastforce simp: pton_doc_def)
  then show ?thesis using assms(2) h
    by (auto simp: connectSocket_def Let_def not_less split: prod.splits if_splits) blast
qed

end
