(* ===== verification/EventLoop.thy ===== *)
theory EventLoop
  imports Sessions Transport
begin

text \<open>
  The daemon: the constructor of \<open>TransactionMonitor\<close>, \<open>start\<close> with its \<open>select\<close> loop, and the bytes in
  and out of \<open>process_clientrq\<close>. One \<open>monitor_round\<close> is one pass of the \<open>while (true)\<close>; the socket
  calls are the parameter \<open>S\<close> of theory Transport. \<open>clk k\<close> is the clock while the \<open>k\<close>-th message is
  handled. Between two rounds, and while \<open>select\<close> waits, clients may change sockets and files.
\<close>

section \<open>State\<close>

record 'o loop =
  net :: "'o endpoint"
  lsrv :: server
  lport :: "32 word"
  msock :: fd
  clients :: "fd list"
  everyone :: "fd set"
  maxfd :: fd
  scratch :: "byte list"
  ticks :: nat

type_synonym ('a, 'o) loopprog = "(TransactionException, 'a, 'o loop) prog"

text \<open>An exception that no one catches ends the daemon.\<close>

definition on_net :: "('a, 'o) netprog \<Rightarrow> ('a, 'o) loopprog" where
  "on_net p s =
     (case p (net s) of Done x n \<Rightarrow> Done x (s\<lparr>net := n\<rparr>) | Throw e n \<Rightarrow> Quit (s\<lparr>net := n\<rparr>)
      | Quit n \<Rightarrow> Quit (s\<lparr>net := n\<rparr>) | Wrong \<Rightarrow> Wrong | Loop \<Rightarrow> Loop)"

definition on_server :: "(TransactionException, 'a, server) prog \<Rightarrow> ('a, 'o) loopprog" where
  "on_server p s =
     (case p (lsrv s) of Done x v \<Rightarrow> Done x (s\<lparr>lsrv := v\<rparr>) | Throw e v \<Rightarrow> Quit (s\<lparr>lsrv := v\<rparr>)
      | Quit v \<Rightarrow> Quit (s\<lparr>lsrv := v\<rparr>) | Wrong \<Rightarrow> Wrong | Loop \<Rightarrow> Loop)"

text \<open>\<open>FD_SET\<close> writes outside the bit array for a descriptor that is not below \<open>FD_SETSIZE\<close>.\<close>

definition FD_SETSIZE :: fd where "FD_SETSIZE = 1024"

definition fd_set :: "fd \<Rightarrow> fd set \<Rightarrow> fd set outcome" where
  "fd_set f E = (if 0 \<le> f \<and> f < FD_SETSIZE then Ret (insert f E) else Undef)"

definition TPM_PORT :: "32 word" where "TPM_PORT = 2983"

definition new_loop :: "'o \<Rightarrow> logmgr \<Rightarrow> byte list \<Rightarrow> 'o loop" where
  "new_loop x l junk =
     \<lparr>net = \<lparr>os = x, tcp = new_transport\<rparr>, lsrv = \<lparr>mon = init_monitor, lgr = l\<rparr>, lport = TPM_PORT,
      msock = -1, clients = [], everyone = {}, maxfd = -1, scratch = junk, ticks = 0\<rparr>"

text \<open>\<open>scratch_trq\<close> is not initialised: it starts with arbitrary bytes \<open>junk\<close>.\<close>

definition construct_monitor ::
  "'o sockets \<Rightarrow> env \<Rightarrow> disk \<Rightarrow> byte list \<Rightarrow> 'o \<Rightarrow> (TransactionException, unit, 'o loop) run" where
  "construct_monitor S bad d junk x =
     (case open_logmgr bad d of
        Done _ l \<Rightarrow> pbind (on_net (createSocket S)) (\<lambda>fd s. Done () (s\<lparr>msock := fd\<rparr>)) (new_loop x l junk)
      | Throw e l \<Rightarrow> Quit (new_loop x l junk) | Quit l \<Rightarrow> Quit (new_loop x l junk) | Wrong \<Rightarrow> Wrong
      | Loop \<Rightarrow> Loop)"

definition setPort :: "32 word \<Rightarrow> (unit, 'o) loopprog" where
  "setPort p s = Done () (s\<lparr>lport := p\<rparr>)"

definition start_setup :: "'o sockets \<Rightarrow> (unit, 'o) loopprog" where
  "start_setup S s =
     pseq (on_net (bindSocket S (msock s) (lport s)))
       (pseq (on_net (listenSocket S (msock s) 10))
         (\<lambda>s1. case fd_set (msock s) {} of
            Ret E \<Rightarrow> Done () (s1\<lparr>everyone := E, maxfd := msock s\<rparr>)
          | _ \<Rightarrow> Wrong)) s"

section \<open>One message\<close>

text \<open>
  \<open>process_clientrq\<close> never reads the reply field of a request. A request number outside the enum falls
  through to the empty \<open>default\<close> of the switch, after the check for preemption.
\<close>

definition received :: "wire \<Rightarrow> trq option" where
  "received w = of_wire (w\<lparr>w_reply := 0\<rparr>)"

definition die_wire :: "wire \<Rightarrow> wire" where
  "die_wire w = \<lparr>w_tid = pid_to_trid (w_pid w), w_pid = trid_to_pid (w_tid w),
     w_request = w_request w, w_reply = of_nat (reply_code DIE), w_block = w_block w\<rparr>"

definition reply :: "'o sockets \<Rightarrow> wire \<Rightarrow> fd \<Rightarrow> (unit, 'o) loopprog" where
  "reply S t towho = on_net (writeSocket S towho t)"

definition serve_message ::
  "'o sockets \<Rightarrow> (blockholders \<Rightarrow> trid_t) \<Rightarrow> (nat \<Rightarrow> nat \<Rightarrow> time_t) \<Rightarrow> fd \<Rightarrow> (unit, 'o) loopprog" where
  "serve_message S ef clk who s =
     (let w = decode_wire (scratch s); m = mon (lsrv s); s1 = s\<lparr>ticks := Suc (ticks s)\<rparr> in
      case received w of
        Some rq \<Rightarrow>
          (case process_clientrq ef (clk (ticks s)) rq who m of
             Ret (m', r) \<Rightarrow> reply S (to_wire r) who (s1\<lparr>lsrv := (lsrv s)\<lparr>mon := m'\<rparr>\<rparr>)
           | Exited \<Rightarrow> Quit s1 | Undef \<Rightarrow> Wrong | Diverge \<Rightarrow> Loop)
      | None \<Rightarrow>
          if preempted (w_tid w) m then reply S (die_wire w) who s1 else Done () s1)"

definition read_message :: "'o sockets \<Rightarrow> fd \<Rightarrow> (nat, 'o) loopprog" where
  "read_message S c s =
     pbind (on_net (readSocket S c (scratch s))) (\<lambda>(n, buf) s1. Done n (s1\<lparr>scratch := buf\<rparr>)) s"

definition hang_up :: "'o sockets \<Rightarrow> env \<Rightarrow> fd \<Rightarrow> (unit, 'o) loopprog" where
  "hang_up S bad c =
     pseq (on_server (client_disconnect bad c))
       (pseq (on_net (closeSocket S c)) (\<lambda>s. Done () (s\<lparr>everyone := everyone s - {c}\<rparr>)))"

definition serve_client ::
  "'o sockets \<Rightarrow> (blockholders \<Rightarrow> trid_t) \<Rightarrow> (nat \<Rightarrow> nat \<Rightarrow> time_t) \<Rightarrow> env \<Rightarrow> fd \<Rightarrow> (unit, 'o) loopprog" where
  "serve_client S ef clk bad c =
     pbind (read_message S c) (\<lambda>n. if n = 0 then hang_up S bad c else serve_message S ef clk c)"

section \<open>One round\<close>

fun serve_clients ::
  "(fd \<Rightarrow> (unit, 'o) loopprog) \<Rightarrow> fd set \<Rightarrow> int \<Rightarrow> fd list \<Rightarrow> (unit, 'o) loopprog" where
  "serve_clients serve rd ready [] = Done ()"
| "serve_clients serve rd ready (c # cs) =
     (if c \<in> rd
      then pseq (serve c)
             (if ready - 1 \<le> 0 then Done () else serve_clients serve rd (ready - 1) cs)
      else serve_clients serve rd ready cs)"

definition accept_client :: "'o sockets \<Rightarrow> (unit, 'o) loopprog" where
  "accept_client S s =
     pbind (on_net (acceptSocket S (msock s)))
       (\<lambda>c s1. case fd_set c (everyone s1) of
          Ret E \<Rightarrow> Done () (s1\<lparr>everyone := E, clients := c # clients s1,
                            maxfd := (if c > maxfd s1 then c else maxfd s1)\<rparr>)
        | _ \<Rightarrow> Wrong) s"

definition after_select ::
  "'o sockets \<Rightarrow> (fd \<Rightarrow> (unit, 'o) loopprog) \<Rightarrow> fd set \<Rightarrow> int \<Rightarrow> (unit, 'o) loopprog" where
  "after_select S serve rd ready s =
     (if msock s \<in> rd
      then pseq (accept_client S)
             (if ready - 1 \<le> 0 then Done ()
              else (\<lambda>s1. serve_clients serve rd (ready - 1) (clients s1) s1)) s
      else serve_clients serve rd ready (clients s) s)"

definition monitor_round ::
  "'o sockets \<Rightarrow> (blockholders \<Rightarrow> trid_t) \<Rightarrow> (nat \<Rightarrow> nat \<Rightarrow> time_t) \<Rightarrow> env \<Rightarrow> (unit, 'o) loopprog" where
  "monitor_round S ef clk bad s =
     (case sys_select S (maxfd s + 1) (everyone s) (os (net s)) of
        Ret (r, o') \<Rightarrow>
          let s1 = s\<lparr>net := (net s)\<lparr>os := o'\<rparr>\<rparr> in
          (case r of
             None \<Rightarrow> Quit s1
           | Some (rd, ready) \<Rightarrow> after_select S (serve_client S ef clk bad) rd ready s1)
      | Exited \<Rightarrow> Quit s | Undef \<Rightarrow> Wrong | Diverge \<Rightarrow> Loop)"

section \<open>start, tpmd and the destructor\<close>

text \<open>
  The first \<open>n\<close> rounds of \<open>start\<close>, whose loop has no exit, and the program \<open>tpmd\<close> up to then. What
  clients do between two rounds is in theory Daemon.
\<close>

fun monitor_rounds ::
  "'o sockets \<Rightarrow> (blockholders \<Rightarrow> trid_t) \<Rightarrow> (nat \<Rightarrow> nat \<Rightarrow> time_t) \<Rightarrow> env \<Rightarrow> nat \<Rightarrow> (unit, 'o) loopprog" where
  "monitor_rounds S ef clk bad 0 = Done ()"
| "monitor_rounds S ef clk bad (Suc n) = pseq (monitor_round S ef clk bad) (monitor_rounds S ef clk bad n)"

definition start ::
  "'o sockets \<Rightarrow> (blockholders \<Rightarrow> trid_t) \<Rightarrow> (nat \<Rightarrow> nat \<Rightarrow> time_t) \<Rightarrow> env \<Rightarrow> nat \<Rightarrow> (unit, 'o) loopprog" where
  "start S ef clk bad n = pseq (start_setup S) (monitor_rounds S ef clk bad n)"

definition tpmd_main ::
  "'o sockets \<Rightarrow> (blockholders \<Rightarrow> trid_t) \<Rightarrow> (nat \<Rightarrow> nat \<Rightarrow> time_t) \<Rightarrow> env \<Rightarrow> nat \<Rightarrow> disk \<Rightarrow> byte list \<Rightarrow> 'o \<Rightarrow>
   (TransactionException, unit, 'o loop) run" where
  "tpmd_main S ef clk bad n d junk x =
     (case construct_monitor S bad d junk x of
        Done _ s \<Rightarrow> start S ef clk bad n s
      | r \<Rightarrow> r)"

definition destroy_monitor :: "'o sockets \<Rightarrow> (unit, 'o) loopprog" where
  "destroy_monitor S s = on_net (closeSocket S (msock s)) s"

end
