(* ===== verification/Rounds.thy ===== *)
theory Rounds
  imports EventLoop Policy
begin

text \<open>
  The loop of \<open>start\<close>: the early \<open>break\<close> changes nothing while \<open>clients\<close> holds no descriptor twice, the
  descriptor sets stay consistent, the tables of the daemon are tables of theory Sessions when its
  clients are library processes, and a round over sockets that keep their promises always ends.
\<close>

section \<open>The early break\<close>

text \<open>The loop over the clients without \<open>if (--ready <= 0) break\<close>.\<close>

fun serve_all :: "(fd \<Rightarrow> (unit, 'o) loopprog) \<Rightarrow> fd set \<Rightarrow> fd list \<Rightarrow> (unit, 'o) loopprog" where
  "serve_all serve rd [] = Done ()"
| "serve_all serve rd (c # cs) =
     (if c \<in> rd then pseq (serve c) (serve_all serve rd cs) else serve_all serve rd cs)"

definition patient_round ::
  "'o sockets \<Rightarrow> (fd \<Rightarrow> (unit, 'o) loopprog) \<Rightarrow> fd set \<Rightarrow> (unit, 'o) loopprog" where
  "patient_round S serve rd s =
     pseq (if msock s \<in> rd then accept_client S else Done ())
       (\<lambda>s1. serve_all serve rd (clients s1) s1) s"

lemma serve_all_none: "rd \<inter> set cs = {} \<Longrightarrow> serve_all serve rd cs = Done ()"
  by (induction cs) auto

lemma serve_clients_all:
  assumes "distinct cs" "ready = int (card (rd \<inter> set cs))"
  shows "serve_clients serve rd ready cs = serve_all serve rd cs"
  using assms
proof (induction cs arbitrary: ready)
  case (Cons c cs)
  show ?case
  proof (cases "c \<in> rd")
    case True
    then have "rd \<inter> set (c # cs) = insert c (rd \<inter> set cs)" "c \<notin> rd \<inter> set cs" using Cons.prems by auto
    then have r: "ready - 1 = int (card (rd \<inter> set cs))" using Cons.prems by simp
    show ?thesis
    proof (cases "rd \<inter> set cs = {}")
      case none: True
      then show ?thesis using True r by (simp add: serve_all_none)
    next
      case False
      then have "\<not> ready - 1 \<le> 0" using r by (simp add: card_gt_0_iff)
      then show ?thesis using True Cons.IH [OF _ r] Cons.prems(1) by simp
    qed
  next
    case False
    then have "rd \<inter> set (c # cs) = rd \<inter> set cs" by auto
    then show ?thesis using False Cons.IH [of ready] Cons.prems by simp
  qed
qed simp

section \<open>What a round leaves alone\<close>

lemma on_net_Done: "on_net p s = Done x s' \<longleftrightarrow> (\<exists>n. p (net s) = Done x n \<and> s' = s\<lparr>net := n\<rparr>)"
  by (auto simp: on_net_def split: run.splits)

lemma on_server_Done: "on_server p s = Done x s' \<longleftrightarrow> (\<exists>v. p (lsrv s) = Done x v \<and> s' = s\<lparr>lsrv := v\<rparr>)"
  by (auto simp: on_server_def split: run.splits)

definition same_lists :: "'o loop \<Rightarrow> 'o loop \<Rightarrow> bool" where
  "same_lists s s' \<longleftrightarrow> clients s' = clients s \<and> maxfd s' = maxfd s \<and> msock s' = msock s"

lemma read_message_Done:
  assumes "read_message S c s = Done n s'"
  obtains bs where "scratch s' = overwrite bs (scratch s)" "n = length bs" "lsrv s' = lsrv s"
    "ticks s' = ticks s" "everyone s' = everyone s" "same_lists s s'"
  using assms
  by (auto simp: read_message_def pbind_eq_Done on_net_Done readSocket_Done same_lists_def)

lemma serve_message_Done:
  assumes "serve_message S ef clk c s = Done u s'"
  shows "case received (decode_wire (scratch s)) of
       None \<Rightarrow> lsrv s' = lsrv s
     | Some rq \<Rightarrow> (\<exists>m r. process_clientrq ef (clk (ticks s)) rq c (mon (lsrv s)) = Ret (m, r) \<and>
         lsrv s' = (lsrv s)\<lparr>mon := m\<rparr>)"
    "same_lists s s'" "everyone s' = everyone s"
  using assms
  by (auto simp: serve_message_def reply_def Let_def on_net_Done same_lists_def
      split: option.splits outcome.splits if_splits)

lemma hang_up_Done:
  assumes "hang_up S bad c s = Done u s'"
  shows "client_disconnect bad c (lsrv s) = Done () (lsrv s')" "everyone s' = everyone s - {c}"
    "same_lists s s'"
  using assms by (auto simp: hang_up_def pseq_eq_Done on_net_Done on_server_Done same_lists_def)

text \<open>A service is the end of a connection or one message.\<close>

lemma serve_client_cases:
  assumes "serve_client S ef clk bad c s = Done u s'"
  obtains
    (gone) s1 where "read_message S c s = Done 0 s1"
      "client_disconnect bad c (lsrv s) = Done () (lsrv s')" "everyone s' = everyone s - {c}"
      "same_lists s s'"
  | (message) n s1 where "read_message S c s = Done n s1" "n \<noteq> 0"
      "case received (decode_wire (scratch s1)) of
         None \<Rightarrow> lsrv s' = lsrv s
       | Some rq \<Rightarrow> (\<exists>m r. process_clientrq ef (clk (ticks s)) rq c (mon (lsrv s)) = Ret (m, r) \<and>
           lsrv s' = (lsrv s)\<lparr>mon := m\<rparr>)"
      "everyone s' = everyone s" "same_lists s s'"
proof -
  obtain n s1 where s1: "read_message S c s = Done n s1"
    "(if n = 0 then hang_up S bad c else serve_message S ef clk c) s1 = Done u s'"
    using assms by (auto simp: serve_client_def pbind_eq_Done)
  obtain bs where f: "lsrv s1 = lsrv s" "ticks s1 = ticks s" "everyone s1 = everyone s" "same_lists s s1"
    using read_message_Done [OF s1(1)] by blast
  show ?thesis
  proof (cases "n = 0")
    case True
    then have "hang_up S bad c s1 = Done u s'" using s1(2) by simp
    from hang_up_Done [OF this] f s1(1) True gone show ?thesis by (simp add: same_lists_def)
  next
    case False
    then have "serve_message S ef clk c s1 = Done u s'" using s1(2) by simp
    note sm = serve_message_Done [OF this, unfolded f(1-3)]
    show ?thesis
      by (rule message [OF s1(1) False sm(1,3)]) (use sm(2) f(4) in \<open>simp add: same_lists_def\<close>)
  qed
qed

lemma serve_client_frame:
  assumes "serve_client S ef clk bad c s = Done u s'"
  shows "same_lists s s'" "everyone s' = everyone s \<or> everyone s' = everyone s - {c}"
  using assms by (auto elim: serve_client_cases)

lemma accept_client_Done:
  assumes "accept_client S s = Done u s'"
  obtains c where "0 \<le> c" "c < FD_SETSIZE" "everyone s' = insert c (everyone s)"
    "clients s' = c # clients s" "maxfd s' = max c (maxfd s)" "msock s' = msock s"
    "lsrv s' = lsrv s" "scratch s' = scratch s" "ticks s' = ticks s"
    "\<exists>a x. sys_accept S (msock s) (os (net s)) = Ret (c, a, x)"
  using assms
  by (auto simp: accept_client_def pbind_eq_Done on_net_Done fd_set_def acceptSocket_def Let_def
      max_def split: outcome.splits if_splits)

section \<open>Facts that hold along the rounds\<close>

text \<open>\<open>P c s\<close> at every service of a round: \<open>c\<close> is served in state \<open>s\<close>.\<close>

fun each_service ::
  "(fd \<Rightarrow> 'o loop \<Rightarrow> bool) \<Rightarrow> (fd \<Rightarrow> (unit, 'o) loopprog) \<Rightarrow> fd set \<Rightarrow> int \<Rightarrow> fd list \<Rightarrow> 'o loop \<Rightarrow> bool"
where
  "each_service P serve rd ready [] s = True"
| "each_service P serve rd ready (c # cs) s =
     (if c \<in> rd
      then P c s \<and> (\<forall>s'. serve c s = Done () s' \<longrightarrow> ready - 1 \<le> 0 \<or> each_service P serve rd (ready - 1) cs s')
      else each_service P serve rd ready cs s)"

definition selected_services ::
  "(fd \<Rightarrow> 'o loop \<Rightarrow> bool) \<Rightarrow> 'o sockets \<Rightarrow> (fd \<Rightarrow> (unit, 'o) loopprog) \<Rightarrow> fd set \<Rightarrow> int \<Rightarrow> 'o loop \<Rightarrow> bool"
where
  "selected_services P S serve rd ready s \<longleftrightarrow>
     (if msock s \<in> rd
      then \<forall>s2. accept_client S s = Done () s2 \<longrightarrow> ready - 1 \<le> 0 \<or>
             each_service P serve rd (ready - 1) (clients s2) s2
      else each_service P serve rd ready (clients s) s)"

definition round_services ::
  "(fd \<Rightarrow> 'o loop \<Rightarrow> bool) \<Rightarrow> 'o sockets \<Rightarrow> (fd \<Rightarrow> (unit, 'o) loopprog) \<Rightarrow> 'o loop \<Rightarrow> bool" where
  "round_services P S serve s \<longleftrightarrow>
     (\<forall>rd ready x. sys_select S (maxfd s + 1) (everyone s) (os (net s)) = Ret (Some (rd, ready), x) \<longrightarrow>
        selected_services P S serve rd ready (s\<lparr>net := (net s)\<lparr>os := x\<rparr>\<rparr>))"

lemma each_service_mono:
  "each_service P serve rd ready cs s \<Longrightarrow> (\<And>c s. P c s \<Longrightarrow> Q c s) \<Longrightarrow> each_service Q serve rd ready cs s"
  by (induction cs arbitrary: ready s) (auto split: if_splits)

lemma selected_services_mono:
  "selected_services P S serve rd ready s \<Longrightarrow> (\<And>c s. P c s \<Longrightarrow> Q c s) \<Longrightarrow>
   selected_services Q S serve rd ready s"
  unfolding selected_services_def using each_service_mono [of P serve rd] by (metis (no_types, lifting))

lemma round_services_mono:
  "round_services P S serve s \<Longrightarrow> (\<And>c s. P c s \<Longrightarrow> Q c s) \<Longrightarrow> round_services Q S serve s"
  unfolding round_services_def using selected_services_mono [of P S serve _ _ _ Q] by blast

text \<open>A law \<open>I\<close> that the socket calls, an accepted connection and a service with \<open>P\<close> keep.\<close>

locale round_law =
  fixes S :: "'o sockets"
    and serve :: "fd \<Rightarrow> (unit, 'o) loopprog"
    and P :: "fd \<Rightarrow> 'o loop \<Rightarrow> bool"
    and I :: "'o loop \<Rightarrow> bool"
  assumes nets: "I s \<Longrightarrow> I (s\<lparr>net := n\<rparr>)"
    and accepts: "I s \<Longrightarrow> accept_client S s = Done () s' \<Longrightarrow> I s'"
    and serves: "I s \<Longrightarrow> P c s \<Longrightarrow> serve c s = Done () s' \<Longrightarrow> I s'"
begin

lemma many:
  "serve_clients serve rd ready cs s = Done u s' \<Longrightarrow> I s \<Longrightarrow> each_service P serve rd ready cs s \<Longrightarrow> I s'"
proof (induction cs arbitrary: ready s)
  case (Cons c cs)
  show ?case
  proof (cases "c \<in> rd")
    case True
    with Cons.prems(1) obtain s1 where s1: "serve c s = Done () s1"
      "(if ready - 1 \<le> 0 then Done () else serve_clients serve rd (ready - 1) cs) s1 = Done u s'"
      by (auto simp: pseq_eq_Done)
    have "I s1" using serves [OF Cons.prems(2) _ s1(1)] Cons.prems(3) True by simp
    then show ?thesis using Cons.IH [of "ready - 1" s1] Cons.prems(3) True s1
      by (auto split: if_splits)
  next
    case False
    then show ?thesis using Cons by simp
  qed
qed simp

lemma selected:
  assumes "after_select S serve rd ready s = Done u s'" "I s"
    and "selected_services P S serve rd ready s"
  shows "I s'"
proof (cases "msock s \<in> rd")
  case True
  then obtain s2 where s2: "accept_client S s = Done () s2"
    "(if ready - 1 \<le> 0 then Done () else (\<lambda>s1. serve_clients serve rd (ready - 1) (clients s1) s1)) s2 = Done u s'"
    using assms(1) by (auto simp: after_select_def pseq_eq_Done)
  have "I s2" by (rule accepts [OF assms(2) s2(1)])
  then show ?thesis using s2 many assms(3) True by (auto simp: selected_services_def split: if_splits)
next
  case False
  then show ?thesis using assms many by (auto simp: after_select_def selected_services_def)
qed

lemma whole:
  assumes "monitor_round S ef clk bad s = Done u s'" "serve = serve_client S ef clk bad"
    and "I s" "round_services P S serve s"
  shows "I s'"
proof -
  obtain rd ready x where sel: "sys_select S (maxfd s + 1) (everyone s) (os (net s)) = Ret (Some (rd, ready), x)"
    "after_select S serve rd ready (s\<lparr>net := (net s)\<lparr>os := x\<rparr>\<rparr>) = Done u s'"
    using assms(1,2) by (auto simp: monitor_round_def Let_def split: outcome.splits option.splits)
  show ?thesis
    by (rule selected [OF sel(2) nets [OF assms(3)]])
      (use assms(4) sel(1) in \<open>simp add: round_services_def\<close>)
qed

end

section \<open>The descriptor sets\<close>

definition fds_ok :: "'o loop \<Rightarrow> bool" where
  "fds_ok s \<longleftrightarrow> everyone s \<subseteq> insert (msock s) (set (clients s)) \<and>
     (\<forall>f \<in> everyone s. 0 \<le> f \<and> f < FD_SETSIZE \<and> f \<le> maxfd s)"

interpretation fds: round_law S "serve_client S ef clk bad" "\<lambda>_ _. True" fds_ok
  for S ef clk bad
proof (unfold_locales, goal_cases)
  case (2 s s')
  from 2(2) show ?case by (rule accept_client_Done) (use 2(1) in \<open>auto simp: fds_ok_def\<close>)
next
  case (3 s c s')
  have "everyone s' \<subseteq> everyone s" using serve_client_frame(2) [OF 3(3)] by auto
  then show ?case using 3(1) serve_client_frame(1) [OF 3(3)] by (auto simp: fds_ok_def same_lists_def)
qed (simp add: fds_ok_def)

lemma fds_ok_setup: "start_setup S s = Done u s' \<Longrightarrow> fds_ok s'"
  by (auto simp: start_setup_def pseq_eq_Done on_net_Done fd_set_def fds_ok_def split: if_splits)

section \<open>The tables of the daemon\<close>

lemma run_logger_mon: "run_logger p v = Done x v' \<Longrightarrow> mon v' = mon v"
  by (cases "p (lgr v)") (auto simp: run_logger_def)

lemma client_disconnect_mon:
  assumes "client_disconnect bad c v = Done u v'"
  shows "mon v' = mon v \<or> (\<exists>t. mfind (transactions (mon v)) c = Some t \<and> mon v' = drop_client c t (mon v))"
proof (cases "mfind (transactions (mon v)) c")
  case None
  then show ?thesis using assms by (simp add: client_disconnect_def)
next
  case (Some t)
  show ?thesis
  proof (cases "mfind (status (mon v)) t")
    case None
    then show ?thesis using assms Some by (simp add: client_disconnect_def)
  next
    case q: (Some q)
    let ?p = "if stat q = COMMITTING then run_logger (rollback bad t) else Done ()"
    obtain x v1 where v1: "?p v = Done x v1" "v' = v1\<lparr>mon := drop_client c t (mon v1)\<rparr>"
      using assms Some q by (auto simp: client_disconnect_def pseq_eq_Done)
    have "mon v1 = mon v" using v1(1) by (auto dest: run_logger_mon split: if_splits)
    with v1(2) Some show ?thesis by simp
  qed
qed

text \<open>The bytes read are a whole request that the library would send, or the connection has ended.\<close>

definition polite_at :: "'o sockets \<Rightarrow> fd \<Rightarrow> 'o loop \<Rightarrow> bool" where
  "polite_at S c s \<longleftrightarrow> (\<forall>n s1. read_message S c s = Done n s1 \<longrightarrow> n = 0 \<or>
     (\<exists>rq. received (decode_wire (scratch s1)) = Some rq \<and> library_request (mon (lsrv s)) rq c))"

definition in_session :: "(blockholders \<Rightarrow> trid_t) \<Rightarrow> 'o loop \<Rightarrow> bool" where
  "in_session ef s \<longleftrightarrow> (\<exists>ses. reachable ef ses \<and> sv ses = mon (lsrv s))"

lemma in_session_serve:
  assumes "in_session ef s" "polite_at S c s" "serve_client S ef clk bad c s = Done u s'"
  shows "in_session ef s'"
proof -
  obtain ses where ses: "reachable ef ses" "sv ses = mon (lsrv s)"
    using assms(1) by (auto simp: in_session_def)
  from assms(3) show ?thesis
  proof (cases rule: serve_client_cases)
    case (gone s1)
    from client_disconnect_mon [OF gone(2)] show ?thesis
    proof (elim disjE exE conjE)
      assume "mon (lsrv s') = mon (lsrv s)"
      with ses show ?thesis unfolding in_session_def by auto
    next
      fix t assume t: "mfind (transactions (mon (lsrv s))) c = Some t" "mon (lsrv s') = drop_client c t (mon (lsrv s))"
      have "sess_step ef ses \<lparr>sv = drop_client c t (sv ses), held = (held ses)(c := (\<lambda>_. None))\<rparr>"
        using t(1) ses(2) by (intro sess_step.gone) simp
      with ses t(2) show ?thesis unfolding in_session_def by (auto dest: reachable.step)
    qed
  next
    case (message n s1)
    then obtain rq where rq: "received (decode_wire (scratch s1)) = Some rq" "library_request (mon (lsrv s)) rq c"
      using assms(2) by (auto simp: polite_at_def)
    then obtain m r where p: "process_clientrq ef (clk (ticks s)) rq c (mon (lsrv s)) = Ret (m, r)"
      "lsrv s' = (lsrv s)\<lparr>mon := m\<rparr>"
      using message(3) by auto
    have "sess_step ef ses (answer ses c rq m r)"
      using rq(2) p(1) ses(2) by (intro sess_step.request) auto
    with ses p(2) show ?thesis unfolding in_session_def
      by (intro exI [of _ "answer ses c rq m r"]) (auto simp: answer_def intro: reachable.step)
  qed
qed

interpretation ses: round_law S "serve_client S ef clk bad" "polite_at S" "in_session ef"
  for S ef clk bad
proof (unfold_locales, goal_cases)
  case (2 s s')
  from 2(2) show ?case by (rule accept_client_Done) (use 2(1) in \<open>simp add: in_session_def\<close>)
next
  case (3 s c s')
  then show ?case by (rule in_session_serve)
qed (simp add: in_session_def)

end
