(* ===== verification/Daemon.thy ===== *)
theory Daemon
  imports Rounds
begin

text \<open>
  The daemon as a running system: the states it reaches when its clients are library processes, the
  interface \<open>reliable_sockets\<close> of sockets that work, and the effect of whole messages, short reads and
  reused descriptors.
\<close>

section \<open>Reachable states\<close>

text \<open>
  Between two rounds the rest of the system may change what the sockets deliver and what the files
  contain; \<open>P\<close> is what is known of every message when it is read.
\<close>

inductive daemon_reaches ::
  "(fd \<Rightarrow> 'o loop \<Rightarrow> bool) \<Rightarrow> 'o sockets \<Rightarrow> (blockholders \<Rightarrow> trid_t) \<Rightarrow> (nat \<Rightarrow> nat \<Rightarrow> time_t) \<Rightarrow> 'o loop \<Rightarrow> bool"
  for P S ef clk where
  boot: "construct_monitor S bad d junk x = Done () s \<Longrightarrow> start_setup S s = Done () s' \<Longrightarrow>
     daemon_reaches P S ef clk s'"
| outside: "daemon_reaches P S ef clk s \<Longrightarrow>
     daemon_reaches P S ef clk (s\<lparr>net := (net s)\<lparr>os := x\<rparr>, lsrv := (lsrv s)\<lparr>lgr := l\<rparr>\<rparr>)"
| round: "daemon_reaches P S ef clk s \<Longrightarrow> round_services P S (serve_client S ef clk bad) s \<Longrightarrow>
     monitor_round S ef clk bad s = Done () s' \<Longrightarrow> daemon_reaches P S ef clk s'"

lemma constructed:
  assumes "construct_monitor S bad d junk x = Done () s"
  shows "mon (lsrv s) = init_monitor" "clients s = []"
  using assms unfolding construct_monitor_def new_loop_def
  by (auto simp: pbind_eq_Done on_net_Done split: run.splits)

lemma start_setup_frame:
  assumes "start_setup S s = Done () s'"
  shows "lsrv s' = lsrv s" "clients s' = clients s" "msock s' = msock s"
  using assms unfolding start_setup_def
  by (auto simp: pseq_eq_Done on_net_Done fd_set_def split: if_splits)

lemma in_session_boot:
  assumes "construct_monitor S bad d junk x = Done () s" "start_setup S s = Done () s'"
  shows "in_session ef s'"
proof -
  have "mon (lsrv s') = init_monitor"
    using constructed(1) [OF assms(1)] start_setup_frame(1) [OF assms(2)] by simp
  then show ?thesis unfolding in_session_def
    by (intro exI [of _ init_session] conjI reachable.init) (simp add: init_session_def)
qed

text \<open>What \<open>tpmd\<close> computes without outside events is reached, when nothing is assumed of the messages.\<close>

lemma each_service_any: "each_service (\<lambda>_ _. True) serve rd ready cs s"
  by (induction cs arbitrary: ready s) simp_all

lemma round_services_any: "round_services (\<lambda>_ _. True) S serve s"
  by (simp add: round_services_def selected_services_def each_service_any)

lemma tpmd_reaches:
  assumes "tpmd_main S ef clk bad n d junk x = Done u s"
  shows "daemon_reaches (\<lambda>_ _. True) S ef clk s"
proof -
  have rounds: "daemon_reaches (\<lambda>_ _. True) S ef clk s1 \<Longrightarrow> monitor_rounds S ef clk bad n s1 = Done u s \<Longrightarrow>
      daemon_reaches (\<lambda>_ _. True) S ef clk s" for s1
    by (induction n arbitrary: s1) (auto simp: pseq_eq_Done intro: daemon_reaches.round round_services_any)
  obtain s0 s1 where s: "construct_monitor S bad d junk x = Done () s0" "start_setup S s0 = Done () s1"
    "monitor_rounds S ef clk bad n s1 = Done u s"
    using assms by (auto simp: tpmd_main_def start_def pseq_eq_Done split: run.splits)
  show ?thesis by (rule rounds [OF daemon_reaches.boot [OF s(1,2)] s(3)])
qed

lemma daemon_reaches_laws:
  assumes "daemon_reaches P S ef clk s" "\<And>c s. P c s \<Longrightarrow> polite_at S c s"
  shows "in_session ef s \<and> fds_ok s"
  using assms(1)
proof (induction rule: daemon_reaches.induct)
  case (boot bad d junk x s s')
  show ?case using in_session_boot [OF boot] fds_ok_setup [OF boot(2)] by (rule conjI)
next
  case (outside s x l)
  then show ?case by (simp add: in_session_def fds_ok_def)
next
  case (round s bad s')
  have pol: "round_services (polite_at S) S (serve_client S ef clk bad) s"
    by (rule round_services_mono [OF round.hyps(2)]) (rule assms(2))
  have all: "round_services (\<lambda>_ _. True) S (serve_client S ef clk bad) s"
    by (rule round_services_mono [OF round.hyps(2)]) simp
  show ?case
    using ses.whole [OF round.hyps(3) refl _ pol] fds.whole [OF round.hyps(3) refl _ all] round.IH by simp
qed

section \<open>The early break is an optimisation\<close>

lemma pseq_cong: "(\<And>x s'. p s = Done x s' \<Longrightarrow> q s' = q' s') \<Longrightarrow> pseq p q s = pseq p q' s"
  by (cases "p s") (auto simp: pseq_def pbind_def)

lemma after_select_patient:
  assumes "finite rd" "rd \<subseteq> insert (msock s) (set (clients s))" "distinct (clients s)"
    and "msock s \<notin> set (clients s)"
    and "\<And>c a x. sys_accept S (msock s) (os (net s)) = Ret (c, a, x) \<Longrightarrow> c \<notin> insert (msock s) (set (clients s))"
  shows "after_select S serve rd (int (card rd)) s = patient_round S serve rd s"
proof (cases "msock s \<in> rd")
  case False
  then have "rd \<inter> set (clients s) = rd" using assms(2) by auto
  then have "serve_clients serve rd (int (card rd)) (clients s) = serve_all serve rd (clients s)"
    using assms(3) by (intro serve_clients_all) simp_all
  with False show ?thesis by (simp add: after_select_def patient_round_def pseq_Done)
next
  case True
  have "pseq (accept_client S) (if int (card rd) - 1 \<le> 0 then Done ()
        else (\<lambda>s1. serve_clients serve rd (int (card rd) - 1) (clients s1) s1)) s =
      pseq (accept_client S) (\<lambda>s1. serve_all serve rd (clients s1) s1) s"
  proof (rule pseq_cong)
    fix u s2 assume "accept_client S s = Done u s2"
    then obtain c where c: "clients s2 = c # clients s"
      "\<exists>a x. sys_accept S (msock s) (os (net s)) = Ret (c, a, x)"
      by (rule accept_client_Done)
    then have new: "c \<notin> insert (msock s) (set (clients s))" using assms(5) by blast
    then have rd: "rd \<inter> set (clients s2) = rd - {msock s}" using c(1) assms(2,4) by auto
    then have card: "int (card (rd \<inter> set (clients s2))) = int (card rd) - 1"
      using card.remove [OF assms(1) True] by simp
    have "serve_clients serve rd (int (card rd) - 1) (clients s2) = serve_all serve rd (clients s2)"
      using new c(1) assms(3) card by (intro serve_clients_all) simp_all
    moreover have "serve_all serve rd (clients s2) = Done ()" if "int (card rd) - 1 \<le> 0"
    proof -
      have "card (rd \<inter> set (clients s2)) = 0" using card that by linarith
      then have "rd \<inter> set (clients s2) = {}" using assms(1) by (metis card_0_eq finite_Int)
      then show ?thesis by (rule serve_all_none)
    qed
    ultimately show "(if int (card rd) - 1 \<le> 0 then Done ()
          else (\<lambda>s1. serve_clients serve rd (int (card rd) - 1) (clients s1) s1)) s2 =
        serve_all serve rd (clients s2) s2" by simp
  qed
  with True show ?thesis by (simp add: after_select_def patient_round_def)
qed

section \<open>Sockets that work\<close>

text \<open>
  What the loop needs of the sockets: \<open>select\<close> returns the descriptors with something to read, with
  their number, as long as \<open>nfds\<close> is above them; reading from such a connection and accepting from the
  listening socket \<open>l\<close> succeed; a connection that has just delivered bytes is still connected (\<open>conn\<close>),
  and sending on a connected descriptor succeeds; no call takes input away from another descriptor.
\<close>

definition ready_in :: "('o \<Rightarrow> fd \<Rightarrow> bool) \<Rightarrow> 'o loop \<Rightarrow> fd \<Rightarrow> bool" where
  "ready_in avail s c = avail (os (net s)) c"

locale reliable_sockets =
  fixes S :: "'o sockets"
    and avail :: "'o \<Rightarrow> fd \<Rightarrow> bool"
    and conn :: "'o \<Rightarrow> fd \<Rightarrow> bool"
    and l :: fd
  assumes selects: "E \<subseteq> {0..<n} \<Longrightarrow> c \<in> E \<Longrightarrow> avail x c \<Longrightarrow>
      \<exists>y. sys_select S n E x = Ret (Some ({d \<in> E. avail x d}, int (card {d \<in> E. avail x d})), y) \<and>
        avail y = avail x"
    and recvs: "avail x c \<Longrightarrow> c \<noteq> l \<Longrightarrow>
      \<exists>bs y. sys_recv S c TRQ_SIZE x = Ret (Some bs, y) \<and> length bs \<le> TRQ_SIZE \<and>
        (bs \<noteq> [] \<longrightarrow> conn y c) \<and> (\<forall>d. d \<noteq> c \<longrightarrow> avail x d \<longrightarrow> avail y d)"
    and sends: "conn x c \<Longrightarrow> \<exists>y. sys_send S c bs x = Ret (True, y) \<and> avail y = avail x"
    and closes: "d \<noteq> c \<Longrightarrow> avail x d \<Longrightarrow> avail (sys_close S c x) d"
    and accepts: "avail x l \<Longrightarrow>
      \<exists>c a y. sys_accept S l x = Ret (c, a, y) \<and> 0 \<le> c \<and> c < FD_SETSIZE \<and> c \<noteq> l \<and>
        (\<forall>d. d \<noteq> l \<longrightarrow> avail x d \<longrightarrow> avail y d)"
begin

abbreviation ready_at :: "'o loop \<Rightarrow> fd \<Rightarrow> bool" where
  "ready_at \<equiv> ready_in avail"

lemma reads:
  assumes "ready_at s c" "c \<noteq> l"
  shows "\<exists>n s1. read_message S c s = Done n s1 \<and> lsrv s1 = lsrv s \<and> (n \<noteq> 0 \<longrightarrow> conn (os (net s1)) c) \<and>
    (\<forall>d. d \<noteq> c \<longrightarrow> ready_at s d \<longrightarrow> ready_at s1 d)"
  using recvs [of "os (net s)" c] assms
  by (auto simp: ready_in_def read_message_def pbind_def on_net_def readSocket_def)

lemma writes:
  "conn (os (net s)) c \<Longrightarrow> \<exists>s1. on_net (writeSocket S c w) s = Done () s1 \<and> lsrv s1 = lsrv s \<and> ready_at s1 = ready_at s"
  using sends [of "os (net s)" c "encode_wire w"]
  by (auto simp: ready_in_def on_net_def writeSocket_def fun_eq_iff)

lemma answers:
  assumes "mon_inv (mon (lsrv s))" "conn (os (net s)) c"
  shows "\<exists>s1. serve_message S ef clk c s = Done () s1 \<and> ready_at s1 = ready_at s"
proof (cases "received (decode_wire (scratch s))")
  case None
  let ?s = "s\<lparr>ticks := Suc (ticks s)\<rparr>"
  have "ready_at ?s = ready_at s" by (simp add: ready_in_def fun_eq_iff)
  then show ?thesis using writes [of ?s c] assms(2) None by (auto simp: serve_message_def reply_def Let_def)
next
  case (Some rq)
  obtain m r where p: "process_clientrq ef (clk (ticks s)) rq c (mon (lsrv s)) = Ret (m, r)"
    using process_total [OF assms(1), of ef "clk (ticks s)" rq c] by (auto simp: returns_Ret)
  let ?s = "s\<lparr>ticks := Suc (ticks s), lsrv := (lsrv s)\<lparr>mon := m\<rparr>\<rparr>"
  have "ready_at ?s = ready_at s" by (simp add: ready_in_def fun_eq_iff)
  then show ?thesis using writes [of ?s c "to_wire r"] assms(2) Some p by (auto simp: serve_message_def reply_def Let_def)
qed

end

text \<open>A connection that ends does not belong to a committing transaction.\<close>

definition calm_at :: "fd \<Rightarrow> 'o loop \<Rightarrow> bool" where
  "calm_at c s \<longleftrightarrow> (\<forall>t. mfind (transactions (mon (lsrv s))) c = Some t \<longrightarrow>
     stat_of (mon (lsrv s)) t \<noteq> Some COMMITTING)"

context reliable_sockets
begin

lemma hangs_up:
  assumes "mon_inv (mon (lsrv s))" "calm_at c s"
  shows "\<exists>s1. hang_up S bad c s = Done () s1 \<and> (\<forall>d. d \<noteq> c \<longrightarrow> ready_at s d \<longrightarrow> ready_at s1 d)"
proof -
  have "\<exists>v. client_disconnect bad c (lsrv s) = Done () v"
  proof (cases "mfind (transactions (mon (lsrv s))) c")
    case None
    then show ?thesis by (simp add: client_disconnect_def)
  next
    case (Some t)
    then show ?thesis using disconnect_quiet [OF assms(1) Some] assms(2) by (auto simp: calm_at_def)
  qed
  then show ?thesis using closes
    by (auto simp: hang_up_def pseq_def pbind_def on_server_def on_net_def closeSocket_def ready_in_def)
qed

lemma serves:
  assumes "ready_at s c" "c \<noteq> l" "mon_inv (mon (lsrv s))" "calm_at c s"
  shows "\<exists>s1. serve_client S ef clk bad c s = Done () s1 \<and> (\<forall>d. d \<noteq> c \<longrightarrow> ready_at s d \<longrightarrow> ready_at s1 d)"
proof -
  obtain n s1 where s1: "read_message S c s = Done n s1" "lsrv s1 = lsrv s" "n \<noteq> 0 \<longrightarrow> conn (os (net s1)) c"
    "\<forall>d. d \<noteq> c \<longrightarrow> ready_at s d \<longrightarrow> ready_at s1 d"
    using reads [OF assms(1,2)] by blast
  show ?thesis
  proof (cases "n = 0")
    case True
    have "calm_at c s1" using assms(4) s1(2) by (simp add: calm_at_def)
    with s1 True assms(3) show ?thesis
      using hangs_up [of s1 c bad] by (fastforce simp: serve_client_def pbind_Done)
  next
    case False
    with s1 assms(3) show ?thesis
      using answers [of s1 c ef clk] by (fastforce simp: serve_client_def pbind_Done)
  qed
qed

lemma serves_all:
  assumes "distinct cs" "\<forall>c \<in> set cs \<inter> rd. ready_at s c" "l \<notin> set cs" "in_session ef s"
    and "each_service (\<lambda>c s. polite_at S c s \<and> calm_at c s) (serve_client S ef clk bad) rd ready cs s"
  shows "\<exists>s'. serve_clients (serve_client S ef clk bad) rd ready cs s = Done () s'"
  using assms
proof (induction cs arbitrary: ready s)
  case (Cons c cs)
  show ?case
  proof (cases "c \<in> rd")
    case False
    then show ?thesis using Cons by simp
  next
    case True
    have pc: "polite_at S c s" "calm_at c s" using Cons.prems(5) True by simp_all
    have inv: "mon_inv (mon (lsrv s))" using Cons.prems(4) reachable_inv by (fastforce simp: in_session_def)
    obtain s1 where s1: "serve_client S ef clk bad c s = Done () s1"
      "\<forall>d. d \<noteq> c \<longrightarrow> ready_at s d \<longrightarrow> ready_at s1 d"
      using serves [OF _ _ inv pc(2), of ef clk bad] Cons.prems(2,3) True by auto
    have "in_session ef s1" by (rule in_session_serve [OF Cons.prems(4) pc(1) s1(1)])
    moreover have "\<forall>x \<in> set cs \<inter> rd. ready_at s1 x"
    proof
      fix x assume "x \<in> set cs \<inter> rd"
      then have "x \<noteq> c" "ready_at s x" using Cons.prems(1,2) by auto
      then show "ready_at s1 x" using s1(2) by blast
    qed
    ultimately have "ready - 1 \<le> 0 \<or> (\<exists>s'. serve_clients (serve_client S ef clk bad) rd (ready - 1) cs s1 = Done () s')"
      using Cons.IH [of s1 "ready - 1"] Cons.prems(1,3,5) s1(1) True by auto
    then show ?thesis using True s1(1) by (auto simp: pseq_Done)
  qed
qed simp

lemma accepting:
  assumes "ready_at s l" "msock s = l"
  shows "\<exists>s1. accept_client S s = Done () s1 \<and> (\<forall>d. d \<noteq> l \<longrightarrow> ready_at s d \<longrightarrow> ready_at s1 d)"
  using accepts [of "os (net s)"] assms
  by (auto simp: accept_client_def pbind_def on_net_def acceptSocket_def fd_set_def ready_in_def)

text \<open>A whole round.\<close>

lemma round_ends:
  assumes "in_session ef s" "fds_ok s" "distinct (clients s)" "msock s = l" "l \<notin> set (clients s)"
    and "c \<in> everyone s" "ready_at s c"
    and "\<And>r y c a x. sys_select S (maxfd s + 1) (everyone s) (os (net s)) = Ret (r, y) \<Longrightarrow>
      sys_accept S l y = Ret (c, a, x) \<Longrightarrow> c \<notin> insert l (set (clients s))"
    and "round_services (\<lambda>c s. polite_at S c s \<and> calm_at c s) S (serve_client S ef clk bad) s"
  shows "\<exists>x s'. monitor_round S ef clk bad s = Done () s' \<and>
    patient_round S (serve_client S ef clk bad) {d \<in> everyone s. ready_at s d}
      (s\<lparr>net := (net s)\<lparr>os := x\<rparr>\<rparr>) = Done () s'"
proof -
  let ?serve = "serve_client S ef clk bad" and ?rd = "{d \<in> everyone s. ready_at s d}"
  let ?Q = "\<lambda>c s. polite_at S c s \<and> calm_at c s"
  have E: "everyone s \<subseteq> {0..<maxfd s + 1}" using assms(2) by (auto simp: fds_ok_def)
  have fin: "finite ?rd" using E finite_subset [of "everyone s" "{0..<maxfd s + 1}"] by simp
  have rd: "?rd \<subseteq> insert l (set (clients s))" using assms(2,4) by (auto simp: fds_ok_def)
  obtain x where x: "sys_select S (maxfd s + 1) (everyone s) (os (net s)) = Ret (Some (?rd, int (card ?rd)), x)"
      "avail x = avail (os (net s))"
    using selects [OF E assms(6)] assms(7) by (auto simp: ready_in_def)
  let ?s = "s\<lparr>net := (net s)\<lparr>os := x\<rparr>\<rparr>"
  have same: "ready_at ?s d = ready_at s d" for d using x(2) by (simp add: ready_in_def)
  have ses: "in_session ef ?s" using assms(1) by (simp add: in_session_def)
  have sel: "selected_services ?Q S ?serve ?rd (int (card ?rd)) ?s"
    using assms(9) x(1) by (simp add: round_services_def)
  have "\<exists>s'. after_select S ?serve ?rd (int (card ?rd)) ?s = Done () s'"
  proof (cases "l \<in> ?rd")
    case False
    then show ?thesis using serves_all [OF _ _ _ ses, of "clients s" ?rd clk bad "int (card ?rd)"] sel same assms(3-5)
      by (auto simp: after_select_def selected_services_def)
  next
    case True
    then obtain s2 where s2: "accept_client S ?s = Done () s2"
      "\<forall>d. d \<noteq> l \<longrightarrow> ready_at ?s d \<longrightarrow> ready_at s2 d"
      using accepting [of ?s] same assms(4) by auto
    obtain c where c0: "clients s2 = c # clients ?s"
      "\<exists>a y. sys_accept S (msock ?s) (os (net ?s)) = Ret (c, a, y)"
      by (rule accept_client_Done [OF s2(1)])
    obtain a y where "sys_accept S l x = Ret (c, a, y)" using c0(2) assms(4) by auto
    then have c: "clients s2 = c # clients s" "c \<notin> insert l (set (clients s))"
      using c0(1) assms(8) [OF x(1)] by simp_all
    have "in_session ef s2" by (rule ses.accepts [OF ses s2(1)])
    moreover have "\<forall>d \<in> set (clients s2) \<inter> ?rd. ready_at s2 d"
    proof
      fix d assume d: "d \<in> set (clients s2) \<inter> ?rd"
      then have "d \<noteq> l" using c(1,2) assms(5) by auto
      then show "ready_at s2 d" using d s2(2) same by blast
    qed
    moreover have "distinct (clients s2)" "l \<notin> set (clients s2)" using c assms(3,5) by auto
    moreover have "int (card ?rd) - 1 \<le> 0 \<or> each_service ?Q ?serve ?rd (int (card ?rd) - 1) (clients s2) s2"
    proof -
      have "\<forall>s2. accept_client S ?s = Done () s2 \<longrightarrow> int (card ?rd) - 1 \<le> 0 \<or>
          each_service ?Q ?serve ?rd (int (card ?rd) - 1) (clients s2) s2"
        using sel True assms(4) unfolding selected_services_def by simp
      with s2(1) show ?thesis by blast
    qed
    ultimately have "int (card ?rd) - 1 \<le> 0 \<or>
        (\<exists>s'. serve_clients ?serve ?rd (int (card ?rd) - 1) (clients s2) s2 = Done () s')"
      using serves_all [of "clients s2" ?rd s2 ef clk bad "int (card ?rd) - 1"] by metis
    then show ?thesis using True s2(1) assms(4) by (auto simp: after_select_def pseq_Done)
  qed
  moreover have "after_select S ?serve ?rd (int (card ?rd)) ?s = patient_round S ?serve ?rd ?s"
    by (rule after_select_patient) (use fin rd assms(3-5) assms(8) [OF x(1)] in auto)
  ultimately show ?thesis using x(1) by (auto simp: monitor_round_def Let_def)
qed

end

end
