(* ===== verification/Wire.thy ===== *)
theory Wire
  imports Daemon System Grants
begin

text \<open>
  What single reads do to the daemon. A whole request is the exchange \<open>mon_ask\<close> that the theorems about
  the client library use; a short read runs a request made of two messages; a descriptor that
  \<open>clients\<close> lists twice ends the daemon. The last section is a concrete socket layer in which input
  waits in queues; it satisfies \<open>reliable_sockets\<close>.
\<close>

section \<open>A whole request\<close>

lemma received_to_wire:
  assumes "int32 (rq_block rq)" "rq_reply rq = OK"
  shows "received (to_wire rq) = Some rq"
proof -
  have "(to_wire rq)\<lparr>w_reply := 0\<rparr> = to_wire rq" using assms(2) by (simp add: to_wire_def)
  then show ?thesis using assms(1) by (simp add: received_def)
qed

lemma reply_int32:
  assumes "process_clientrq ef clk rq who m = Ret (m', r)" "int32 (rq_block rq)"
  shows "int32 (rq_block r)"
proof (cases "rq_request rq = BEGIN")
  case True
  then have "rq_block r = 0"
    using assms(1) by (auto simp: process_clientrq_def dispatch_rq_def begin_rq_def Let_def)
  then show ?thesis by (simp add: int32_def)
next
  case False
  then show ?thesis using reply_fields [OF assms(1)] assms(2) by simp
qed

lemma whole_request:
  assumes "sys_recv S c TRQ_SIZE (os (net s)) = Ret (Some (encode_wire (to_wire rq)), x)"
    and "int32 (rq_block rq)" "rq_reply rq = OK" "length (scratch s) = TRQ_SIZE"
    and "mon_ask ef (clk (ticks s)) c rq d (Up (lsrv s)) = Ret (r, d', Up v)"
    and "sys_send S c (encode_wire (to_wire r)) x = Ret (True, y)"
  shows "serve_client S ef clk bad c s =
      Done () (s\<lparr>net := (net s)\<lparr>os := y\<rparr>, lsrv := v, scratch := encode_wire (to_wire rq), ticks := Suc (ticks s)\<rparr>)"
    "of_wire (decode_wire (encode_wire (to_wire r))) = Some r" "d' = d"
proof -
  obtain m where p: "process_clientrq ef (clk (ticks s)) rq c (mon (lsrv s)) = Ret (m, r)"
    "v = (lsrv s)\<lparr>mon := m\<rparr>" "d' = d"
    using assms(5) by (auto simp: mon_ask_def split: outcome.splits)
  then show "of_wire (decode_wire (encode_wire (to_wire r))) = Some r" "d' = d"
    using reply_int32 [OF p(1) assms(2)] by simp_all
  have "TRQ_SIZE \<noteq> 0" by (simp add: TRQ_SIZE_def)
  then show "serve_client S ef clk bad c s =
      Done () (s\<lparr>net := (net s)\<lparr>os := y\<rparr>, lsrv := v, scratch := encode_wire (to_wire rq), ticks := Suc (ticks s)\<rparr>)"
    using assms(1,4,6) p(1,2) received_to_wire [OF assms(2,3)]
    by (simp add: serve_client_def read_message_def pbind_def on_net_def readSocket_def serve_message_def reply_def
        writeSocket_def Let_def)
qed

section \<open>A short read\<close>

lemma short_read:
  assumes "sys_recv S c TRQ_SIZE (os (net s)) = Ret (Some (take 8 (encode_wire a)), x)"
    and "scratch s = encode_wire b"
  shows "serve_client S ef clk bad c s =
    serve_message S ef clk c (s\<lparr>net := (net s)\<lparr>os := x\<rparr>, scratch := encode_wire (b\<lparr>w_tid := w_tid a\<rparr>)\<rparr>)"
proof -
  have "overwrite (take 8 (encode_wire a)) (encode_wire b) = encode_wire (b\<lparr>w_tid := w_tid a\<rparr>)"
    by (simp add: overwrite_def encode_wire_def)
  moreover have "length (take 8 (encode_wire a)) = 8" by (simp add: TRQ_SIZE_def)
  ultimately show ?thesis using assms
    by (simp add: serve_client_def read_message_def pbind_def on_net_def readSocket_def)
qed

section \<open>A descriptor that is listed twice\<close>

lemma serve_clients_skip: "rd \<inter> set ds = {} \<Longrightarrow> serve_clients serve rd ready (ds @ cs) = serve_clients serve rd ready cs"
  by (induction ds) auto

lemma twice_served:
  assumes cl: "clients s = c # ds @ c # cs" and rd: "c \<in> rd" "msock s \<notin> rd" "rd \<inter> set ds = {}" "2 \<le> ready"
    and "sys_recv S c TRQ_SIZE (os (net s)) = Ret (Some [], x)"
    and "client_disconnect bad c (lsrv s) = Done () v"
    and "\<And>y. \<exists>z. sys_recv S c TRQ_SIZE (sys_close S c y) = Ret (None, z)"
  shows "\<exists>s'. after_select S (serve_client S ef clk bad) rd ready s = Quit s'"
proof -
  let ?s1 = "s\<lparr>net := (net s)\<lparr>os := sys_close S c x\<rparr>, lsrv := v, everyone := everyone s - {c}\<rparr>"
  have first: "serve_client S ef clk bad c s = Done () ?s1"
    using assms(6,7)
    by (simp add: serve_client_def read_message_def pbind_def pseq_def on_net_def on_server_def readSocket_def
        hang_up_def closeSocket_def overwrite_def)
  obtain z where "sys_recv S c TRQ_SIZE (sys_close S c x) = Ret (None, z)" using assms(8) by blast
  then have "\<exists>s'. serve_client S ef clk bad c ?s1 = Quit s'"
    by (simp add: serve_client_def read_message_def pbind_def on_net_def readSocket_def)
  then show ?thesis using first cl rd
    by (auto simp: after_select_def pseq_def pbind_def serve_clients_skip)
qed

text \<open>How it comes about: hanging up leaves the entry, and the next connection gets the number again.\<close>

lemma reused_descriptor:
  assumes left: "hang_up S bad0 c s0 = Done () s1" "c \<in> set (clients s0)" "same_lists s1 s2"
    and again: "sys_accept S (msock s2) (os (net s2)) = Ret (c, a, y)" "accept_client S s2 = Done () s3"
      "same_lists s3 s"
    and rd: "c \<in> rd" "msock s \<notin> rd" "rd \<inter> set (takeWhile (\<lambda>d. d \<noteq> c) (clients s0)) = {}" "2 \<le> ready"
    and "sys_recv S c TRQ_SIZE (os (net s)) = Ret (Some [], x)"
    and "client_disconnect bad c (lsrv s) = Done () v"
    and "\<And>y. \<exists>z. sys_recv S c TRQ_SIZE (sys_close S c y) = Ret (None, z)"
  shows "clients s = c # clients s0 \<and>
    (\<exists>s'. after_select S (serve_client S ef clk bad) rd ready s = Quit s')"
proof -
  have "clients s2 = clients s0" using hang_up_Done(3) [OF left(1)] left(3) by (simp add: same_lists_def)
  moreover obtain c' where "clients s3 = c' # clients s2"
    "\<exists>a y. sys_accept S (msock s2) (os (net s2)) = Ret (c', a, y)"
    by (rule accept_client_Done [OF again(2)])
  ultimately have cl: "clients s = c # clients s0" using again(1,3) by (simp add: same_lists_def)
  let ?ds = "takeWhile (\<lambda>d. d \<noteq> c) (clients s0)"
  have "dropWhile (\<lambda>d. d \<noteq> c) (clients s0) \<noteq> []" using left(2) by (simp add: dropWhile_eq_Nil_conv)
  then obtain e cs where d: "dropWhile (\<lambda>d. d \<noteq> c) (clients s0) = e # cs" by (cases "dropWhile (\<lambda>d. d \<noteq> c) (clients s0)") auto
  then have "e = c" using hd_dropWhile [of "\<lambda>d. d \<noteq> c" "clients s0"] by simp
  with d have "clients s = c # ?ds @ c # cs" using cl takeWhile_dropWhile_id [of "\<lambda>d. d \<noteq> c" "clients s0"] by simp
  then show ?thesis using cl twice_served [OF _ rd(1,2) _ rd(4) assms(11-13)] rd(3) by blast
qed

section \<open>Queues of input\<close>

record host =
  backlog :: "fd list"
  inbox :: "fd \<Rightarrow> byte list list"
  opened :: "fd set"
  sent :: "(fd \<times> byte list) list"

text \<open>An empty chunk is the end of the stream and stays; 3 is the listening socket.\<close>

definition waiting :: "host \<Rightarrow> fd list" where
  "waiting h = filter (\<lambda>c. 3 < c \<and> c < FD_SETSIZE \<and> c \<notin> opened h) (backlog h)"

definition host_avail :: "host \<Rightarrow> fd \<Rightarrow> bool" where
  "host_avail h c = (if c = 3 then waiting h \<noteq> [] else c \<in> opened h \<and> inbox h c \<noteq> [])"

definition host_recv :: "fd \<Rightarrow> nat \<Rightarrow> host \<Rightarrow> (byte list option \<times> host) outcome" where
  "host_recv c n h =
     (if c \<notin> opened h then Ret (None, h)
      else case inbox h c of
          [] \<Rightarrow> Diverge
        | bs # rest \<Rightarrow>
            if bs = [] then Ret (Some [], h)
            else Ret (Some (take n bs),
                   h\<lparr>inbox := (inbox h)(c := (if length bs \<le> n then rest else drop n bs # rest))\<rparr>))"

definition host_accept :: "fd \<Rightarrow> host \<Rightarrow> (fd \<times> sockaddr_in \<times> host) outcome" where
  "host_accept l h =
     (case waiting h of
        [] \<Rightarrow> Diverge
      | c # cs \<Rightarrow> Ret (c, no_address, h\<lparr>backlog := cs, opened := insert c (opened h)\<rparr>))"

definition host_select :: "fd \<Rightarrow> fd set \<Rightarrow> host \<Rightarrow> ((fd set \<times> int) option \<times> host) outcome" where
  "host_select n E h =
     (let R = {c \<in> E. c < n \<and> host_avail h c} in
      if R = {} then Diverge else Ret (Some (R, int (card R)), h))"

definition host_send :: "fd \<Rightarrow> byte list \<Rightarrow> host \<Rightarrow> (bool \<times> host) outcome" where
  "host_send c bs h =
     (if c \<in> opened h then Ret (True, h\<lparr>sent := sent h @ [(c, bs)]\<rparr>) else Ret (False, h))"

definition queue_sockets :: "host sockets" where
  "queue_sockets = \<lparr>sys_socket = (\<lambda>h. (3, h)), sys_bind = (\<lambda>_ _ h. (0, h)), sys_listen = (\<lambda>_ _ h. (0, h)),
     sys_accept = host_accept, sys_connect = (\<lambda>_ _ h. (0, h)), sys_recv = host_recv,
     sys_send = host_send,
     sys_close = (\<lambda>c h. h\<lparr>opened := opened h - {c}\<rparr>), sys_select = host_select,
     sys_gethost = (\<lambda>_ h. (Some [127, 0, 0, 1], 0, h)), sys_pton = (\<lambda>_. (0, 0))\<rparr>"

interpretation hq: reliable_sockets queue_sockets host_avail "\<lambda>h c. c \<in> opened h" 3
proof (unfold_locales, goal_cases)
  case (1 E n c x)
  then have "{d \<in> E. d < n \<and> host_avail x d} = {d \<in> E. host_avail x d}" by auto
  then show ?case using 1(2,3) by (auto simp: queue_sockets_def host_select_def Let_def)
next
  case (2 x c)
  then obtain bs rest where "c \<in> opened x" "inbox x c = bs # rest"
    by (auto simp: host_avail_def neq_Nil_conv)
  then show ?case by (auto simp: queue_sockets_def host_recv_def host_avail_def waiting_def)
next
  case (3 x c bs)
  then show ?case by (simp add: host_send_def queue_sockets_def host_avail_def waiting_def fun_eq_iff)
next
  case (4 d c x)
  then show ?case by (auto simp: queue_sockets_def host_avail_def waiting_def filter_empty_conv)
next
  case (5 x)
  then obtain c cs where w: "waiting x = c # cs" by (auto simp: host_avail_def neq_Nil_conv)
  then have "c \<in> set (waiting x)" by simp
  then have "3 < c" "c < FD_SETSIZE" by (simp_all add: waiting_def)
  with w show ?case by (auto simp: queue_sockets_def host_accept_def host_avail_def)
qed

section \<open>A request and its reply over a stream\<close>

text \<open>
  A connected pair of sockets: \<open>peer c\<close> is the other end of \<open>c\<close>, \<open>pend x c\<close> the bytes that wait at \<open>c\<close>. What is
  sent arrives at the other end behind what waits there; \<open>recv\<close> takes as much of it as fits into the buffer.
\<close>

locale stream_sockets =
  fixes S :: "'o sockets"
    and peer :: "fd \<Rightarrow> fd"
    and linked :: "'o \<Rightarrow> fd \<Rightarrow> bool"
    and pend :: "'o \<Rightarrow> fd \<Rightarrow> byte list"
  assumes links: "linked x c \<Longrightarrow> linked x (peer c) \<and> peer (peer c) = c \<and> peer c \<noteq> c"
    and sends: "linked x c \<Longrightarrow> \<exists>y. sys_send S c bs x = Ret (True, y) \<and> linked y = linked x \<and>
      pend y = (pend x)(peer c := pend x (peer c) @ bs)"
    and recvs: "linked x c \<Longrightarrow> pend x c \<noteq> [] \<Longrightarrow> \<exists>y. sys_recv S c n x = Ret (Some (take n (pend x c)), y) \<and>
      linked y = linked x \<and> pend y = (pend x)(c := drop n (pend x c))"
begin

lemma sent_message:
  assumes "linked x c"
  shows "\<exists>y. writeSocket S c w \<lparr>os = x, tcp = k\<rparr> = Done () \<lparr>os = y, tcp = k\<rparr> \<and>
    sys_send S c (encode_wire w) x = Ret (True, y) \<and> linked y = linked x \<and>
    pend y = (pend x)(peer c := pend x (peer c) @ encode_wire w)"
  using sends [OF assms, of "encode_wire w"] by (auto simp: writeSocket_def)

lemma received_message:
  assumes "linked x c" "pend x c = encode_wire w" "length buf = TRQ_SIZE"
  shows "\<exists>y. readSocket S c buf \<lparr>os = x, tcp = k\<rparr> = Done (TRQ_SIZE, encode_wire w) \<lparr>os = y, tcp = k\<rparr> \<and>
    sys_recv S c TRQ_SIZE x = Ret (Some (encode_wire w), y) \<and> linked y = linked x \<and> pend y = (pend x)(c := [])"
proof -
  have "length (encode_wire w) = TRQ_SIZE" by simp
  then have "encode_wire w \<noteq> []" by (auto simp: TRQ_SIZE_def simp del: length_encode)
  then show ?thesis using recvs [OF assms(1), of TRQ_SIZE] assms(2,3)
    by (auto simp: readSocket_def overwrite_def)
qed

lemma exchange:
  assumes x: "linked x c" "pend x c = []" "pend x (peer c) = []"
    and rq: "int32 (rq_block rq)" "rq_reply rq = OK" and l: "length (scratch s) = TRQ_SIZE" "length buf = TRQ_SIZE"
    and ask: "mon_ask ef (clk (ticks s)) (peer c) rq d (Up (lsrv s)) = Ret (r, d', Up v)"
  shows "\<exists>y s' buf' z. writeSocket S c (to_wire rq) \<lparr>os = x, tcp = k\<rparr> = Done () \<lparr>os = y, tcp = k\<rparr> \<and>
    serve_client S ef clk bad (peer c) (s\<lparr>net := (net s)\<lparr>os := y\<rparr>\<rparr>) = Done () s' \<and> lsrv s' = v \<and>
    readSocket S c buf \<lparr>os = os (net s'), tcp = k\<rparr> = Done (TRQ_SIZE, buf') \<lparr>os = z, tcp = k\<rparr> \<and>
    of_wire (decode_wire buf') = Some r \<and> linked z = linked x \<and> pend z = pend x"
proof -
  note pr = links [OF x(1)]
  obtain y where y: "writeSocket S c (to_wire rq) \<lparr>os = x, tcp = k\<rparr> = Done () \<lparr>os = y, tcp = k\<rparr>"
    "linked y = linked x" "pend y = (pend x)(peer c := encode_wire (to_wire rq))"
    using sent_message [OF x(1), of "to_wire rq"] x(3) by auto
  obtain y1 where y1: "sys_recv S (peer c) TRQ_SIZE y = Ret (Some (encode_wire (to_wire rq)), y1)"
    "linked y1 = linked x" "pend y1 = (pend x)(peer c := [])"
    using received_message [of y "peer c" "to_wire rq" buf] y(2,3) pr l(2) by auto
  obtain y2 where y2: "sys_send S (peer c) (encode_wire (to_wire r)) y1 = Ret (True, y2)"
    "linked y2 = linked x" "pend y2 = (pend x)(peer c := [], c := encode_wire (to_wire r))"
    using sent_message [of y1 "peer c" "to_wire r"] y1(2,3) pr x(2) by auto
  let ?s = "s\<lparr>net := (net s)\<lparr>os := y\<rparr>\<rparr>"
  have sv: "serve_client S ef clk bad (peer c) ?s =
      Done () (?s\<lparr>net := (net ?s)\<lparr>os := y2\<rparr>, lsrv := v, scratch := encode_wire (to_wire rq), ticks := Suc (ticks ?s)\<rparr>)"
    "of_wire (decode_wire (encode_wire (to_wire r))) = Some r"
    using whole_request(1) [OF _ rq _ _ y2(1), where s = ?s and clk = clk and ef = ef and bad = bad]
      whole_request(2) [OF _ rq _ _ y2(1), where s = ?s and clk = clk and ef = ef] y1(1) l(1) ask by simp_all
  obtain z where z: "readSocket S c buf \<lparr>os = y2, tcp = k\<rparr> = Done (TRQ_SIZE, encode_wire (to_wire r)) \<lparr>os = z, tcp = k\<rparr>"
    "linked z = linked x" "pend z = (pend x)(peer c := [], c := [])"
    using received_message [of y2 c "to_wire r" buf] y2(2,3) x(1) l(2) by fastforce
  have "pend z = pend x" using z(3) x(2,3) by (simp add: fun_eq_iff)
  then show ?thesis using y(1) sv z(1,2)
    by (intro exI [of _ y] exI [of _ "?s\<lparr>net := (net ?s)\<lparr>os := y2\<rparr>, lsrv := v, scratch := encode_wire (to_wire rq),
        ticks := Suc (ticks ?s)\<rparr>"] exI [of _ "encode_wire (to_wire r)"] exI [of _ z]) simp
qed

end

text \<open>Descriptors 4 and 5 of one machine, connected to each other.\<close>

definition other_end :: "fd \<Rightarrow> fd" where
  "other_end c = (if c = 4 then 5 else 4)"

definition pipe_sockets :: "(fd \<Rightarrow> byte list) sockets" where
  "pipe_sockets = \<lparr>sys_socket = (\<lambda>h. (3, h)), sys_bind = (\<lambda>_ _ h. (0, h)), sys_listen = (\<lambda>_ _ h. (0, h)),
     sys_accept = (\<lambda>_ _. Diverge), sys_connect = (\<lambda>_ _ h. (0, h)),
     sys_recv = (\<lambda>c n h. if h c = [] then Diverge else Ret (Some (take n (h c)), h(c := drop n (h c)))),
     sys_send = (\<lambda>c bs h. Ret (True, h(other_end c := h (other_end c) @ bs))),
     sys_close = (\<lambda>_ h. h), sys_select = (\<lambda>_ _ _. Diverge),
     sys_gethost = (\<lambda>_ h. (Some [127, 0, 0, 1], 0, h)), sys_pton = (\<lambda>_. (0, 0))\<rparr>"

interpretation pipe: stream_sockets pipe_sockets other_end "\<lambda>_ c. c \<in> {4, 5}" "\<lambda>h. h"
  by unfold_locales (auto simp: pipe_sockets_def other_end_def)

end
