(* ===== verification/Runs.thy ===== *)
theory Runs
  imports Examples Backoff Wire
begin

text \<open>
  Concrete runs for the witnesses of the later properties: the first transaction of a store with its
  loop, test programs that abort on an empty store, and daemons over queues of input.
\<close>

section \<open>Loops\<close>

lemma first_start: "attempt_start 5 1 initstore first_process"
  by (simp add: attempt_start_def closed_def first_process_def new_process_def mon_inv_init initstore_ok
      log_older_def) (simp add: init_monitor_def initstore_def)

lemma first_loop:
  "\<exists>s'. transaction_loop mon_tpm no_faults 5 (exec mon_tpm no_faults take_one) first_process = Some (Done () s')"
  using first_transaction by (subst transaction_loop.simps) auto

lemma first_abort:
  assumes "exec mon_tpm no_faults scr idle_client = Throw TE_ABORT (idle_client\<lparr>error_occured := True\<rparr>)"
  shows "\<exists>s'. transaction_loop mon_tpm no_faults 5 (exec mon_tpm no_faults scr) first_process = Some (Quit s')"
proof -
  let ?s = "idle_client\<lparr>error_occured := True\<rparr>"
  have o: "open_tx 5 2 ?s"
  proof -
    have "mon young_server = tables one_client" by (simp add: young_server_def)
    moreover have "next_tid (tables one_client) = 2" by (simp add: one_client_tables)
    ultimately show ?thesis
      using young_entry tables_inv(1) [of one_client] by (simp add: open_tx_def idle_client_def)
  qed
  have m: "mem_ok (heap ?s)" by (simp add: idle_client_def)
  have "destruct mon_tpm no_faults ?s \<noteq> Wrong"
    by (cases "bye mon_tpm initstore (Up young_server)")
      (simp add: destruct_def pseq_def pbind_def close_connection_def idle_client_def)
  then obtain s' where "destruct mon_tpm no_faults ?s = Done () s'"
    using destruct_aborted [OF refl _ o m, of front_zero "\<lambda>_. 10" no_faults no_faults] by auto
  then have "run_once mon_tpm no_faults 5 (exec mon_tpm no_faults scr) first_process = Throw TE_ABORT s'"
    using first_construct assms by (simp add: run_once_def pseq_def pbind_def)
  then show ?thesis by (subst transaction_loop.simps) simp
qed

lemma empty_store:
  "1 \<le> b \<Longrightarrow> b \<le> NBLOCKS \<Longrightarrow> is_allocated no_faults b idle_client = Done False idle_client"
proof -
  assume b: "1 \<le> b" "b \<le> NBLOCKS"
  then have "read_index no_faults b initstore = Ret (Some (CHR ''U''))"
    using initstore_free [OF b] by (simp add: read_index_def dindex_def)
  with b show ?thesis by (simp add: is_allocated_def idle_client_def)
qed

lemma aborting_programs:
  "exec mon_tpm no_faults st5 idle_client = Throw TE_ABORT (idle_client\<lparr>error_occured := True\<rparr>)"
  "exec mon_tpm no_faults st3 idle_client = Throw TE_ABORT (idle_client\<lparr>error_occured := True\<rparr>)"
proof -
  have b: "bmap idle_client = []" by (simp add: idle_client_def)
  show "exec mon_tpm no_faults st5 idle_client = Throw TE_ABORT (idle_client\<lparr>error_occured := True\<rparr>)"
    using b empty_store [of 2]
    by (simp add: st5_def tx_read_def read_from_store_def pbind_def NBLOCKS_def tx_abort_def)
  show "exec mon_tpm no_faults st3 idle_client = Throw TE_ABORT (idle_client\<lparr>error_occured := True\<rparr>)"
    using b empty_store [of 1]
    by (simp add: st3_def tx_write_def write_to_store_def pbind_def pseq_def NBLOCKS_def tx_abort_def)
qed

text \<open>A monitor that refuses every lock, and a program that wants one: six restarts, then \<open>exit\<close>.\<close>

definition refusing_tpm :: "unit tpm" where
  "refusing_tpm = \<lparr>ask = (\<lambda>rq d m. Ret (rq\<lparr>rq_reply := if rq_request rq \<in> {BEGIN, RESTART} then OK else NOT_OK\<rparr>, d, m)),
     bye = (\<lambda>d m. (d, m))\<rparr>"

definition read_one :: script where
  "read_one = ReadB 1 (\<lambda>_. Finish)"

lemma one_block_allocated: "files s = one_block \<Longrightarrow> is_allocated no_faults 1 s = Done True s"
  using one_block_ok by (simp add: is_allocated_def read_index_def NBLOCKS_def dindex_def block_valid_def)

lemma refused_attempt:
  assumes "files s = one_block" "unat (last_sleep s) < 32"
  shows "\<exists>s1. run_once refusing_tpm no_faults 5 (exec refusing_tpm no_faults read_one) s =
      Throw (if unat (last_sleep s) < 6 then TE_RESTART else TE_ABORT) s1 \<and>
    files s1 = one_block \<and> last_sleep s1 = last_sleep s + 1 \<and>
    sleeps s1 = (if unat (last_sleep s) < 6 then sleeps s @ [sleeptime (last_sleep s)] else sleeps s)"
proof -
  have "MAXTIMEOUT < sleeptime (last_sleep s) \<longleftrightarrow> \<not> unat (last_sleep s) < 6"
    using sleeptime_bound(1) [OF assms(2)] by (simp add: not_le [symmetric])
  then show ?thesis using assms
    by (simp add: run_once_def construct_def Let_def pseq_def pbind_def ask_tpm_def refusing_tpm_def read_one_def
        tx_read_def read_from_store_def one_block_allocated restart_def backoff_sleep_def tx_abort_def destruct_def
        close_connection_def)
qed

lemma refused_loop:
  assumes "k \<le> 6" "files s = one_block" "last_sleep s = of_nat k" "sleeps s = powers k"
  shows "\<exists>s'. transaction_loop refusing_tpm no_faults 5 (exec refusing_tpm no_faults read_one) s = Some (Quit s') \<and>
    sleeps s' = powers 6"
  using assms
proof (induction "6 - k" arbitrary: k s)
  case 0
  then have k: "k = 6" by simp
  then show ?case using refused_attempt [of s] 0 by (subst transaction_loop.simps) auto
next
  case (Suc n)
  then have u: "unat (last_sleep s) = k" "k < 6" by (simp_all add: unat_of_nat)
  then obtain s1 where s1: "run_once refusing_tpm no_faults 5 (exec refusing_tpm no_faults read_one) s = Throw TE_RESTART s1"
    "files s1 = one_block" "last_sleep s1 = of_nat (Suc k)" "sleeps s1 = powers (Suc k)"
    using refused_attempt [of s] Suc.prems powers_Suc [of k] by (auto simp: add.commute)
  have "\<exists>s'. transaction_loop refusing_tpm no_faults 5 (exec refusing_tpm no_faults read_one) s1 = Some (Quit s') \<and>
      sleeps s' = powers 6"
    by (rule Suc.hyps(1) [of "Suc k"]) (use Suc.hyps(2) u s1 in auto)
  then show ?case using s1(1) by (subst transaction_loop.simps) simp
qed

text \<open>The same against the monitor, where another client holds block 1: the first attempt.\<close>

definition held_tables :: monitor where
  "held_tables = \<lparr>next_tid = 2, transactions = [(6, 1)],
    status = [(1, \<lparr>ts_pid = 6, ts_block = 1, started = 10, stat = WRITING\<rparr>)],
    blockmap = [(1, \<lparr>readers = [], writer = 1\<rparr>)]\<rparr>"

lemma held_played: "tables [Ask 6 BEGIN 0 10, Ask 6 WRITE 1 10] = held_tables"
  unfolding held_tables_def by code_simp

definition waiting_process :: "daemon cstate" where
  "waiting_process = new_process one_block (Up \<lparr>mon = held_tables, lgr = \<lparr>logfd = 0, dsk = one_block\<rparr>\<rparr>)"

lemma waiting_start: "attempt_start 5 2 one_block waiting_process"
proof -
  have "mon_inv held_tables" using tables_inv(1) [of "[Ask 6 BEGIN 0 10, Ask 6 WRITE 1 10]"] by (simp add: held_played)
  then show ?thesis using one_block_ok
    by (simp add: attempt_start_def closed_def waiting_process_def new_process_def log_older_def)
      (simp add: held_tables_def one_block_def initstore_def)
qed

definition asked_tables :: "status_t \<Rightarrow> monitor" where
  "asked_tables st = \<lparr>next_tid = 3, transactions = [(5, 2), (6, 1)],
    status = [(1, \<lparr>ts_pid = 6, ts_block = 1, started = 10, stat = WRITING\<rparr>),
              (2, \<lparr>ts_pid = 5, ts_block = 0, started = 10, stat = st\<rparr>)],
    blockmap = [(1, \<lparr>readers = [], writer = 1\<rparr>)]\<rparr>"

lemma waiting_answers:
  "process_clientrq front_zero (\<lambda>_. 10) (rq_of 0 5 BEGIN 0) 5 held_tables = Ret (asked_tables BEGUN, rq_of 2 5 BEGIN 0)"
  "process_clientrq front_zero (\<lambda>_. 10) (rq_of 2 5 READ 1) 5 (asked_tables BEGUN) =
     Ret (asked_tables BEGUN, swapped_reply (rq_of 2 5 READ 1) NOT_OK)"
  "process_clientrq front_zero (\<lambda>_. 10) (rq_of 2 5 RESTART 0) 5 (asked_tables BEGUN) =
     Ret (asked_tables RESTARTING, swapped_reply (rq_of 2 5 RESTART 0) OK)"
  unfolding held_tables_def asked_tables_def by code_simp+

lemma waiting_restarts:
  "\<exists>s1. run_once mon_tpm no_faults 5 (exec mon_tpm no_faults read_one) waiting_process = Throw TE_RESTART s1 \<and>
    sleeps s1 = [1]"
proof -
  let ?up = "\<lambda>m. Up \<lparr>mon = m, lgr = \<lparr>logfd = 0, dsk = one_block\<rparr>\<rparr>"
  let ?s = "\<lambda>m. (new_process one_block (?up m))\<lparr>tid := 2, pid := 5\<rparr>"
  have c: "construct mon_tpm no_faults 5 waiting_process = Done () (?s (asked_tables BEGUN))"
    using waiting_answers(1)
    by (simp add: construct_def Let_def pbind_def ask_tpm_def monitor_tpm_def mon_ask_def waiting_process_def
        new_process_def rq_of_def)
  have "sleeptime 0 = 1" by (simp add: sleeptime_def)
  moreover have "MAXTIMEOUT \<noteq> 0" by (simp add: MAXTIMEOUT_def)
  ultimately have x: "exec mon_tpm no_faults read_one (?s (asked_tables BEGUN)) =
      Throw TE_RESTART ((?s (asked_tables RESTARTING))\<lparr>last_sleep := 1, sleeps := [1], error_occured := True\<rparr>)"
    using waiting_answers(2,3) one_block_allocated [of "?s (asked_tables BEGUN)"]
    by (simp add: read_one_def tx_read_def read_from_store_def pbind_def pseq_def ask_tpm_def monitor_tpm_def mon_ask_def
        new_process_def rq_of_def restart_def backoff_sleep_def Let_def swapped_reply_def)
  show ?thesis using c x
    by (simp add: run_once_def pseq_def pbind_def destruct_def close_connection_def new_process_def split: prod.split)
qed

section \<open>Daemons\<close>

definition quiet_host :: host where
  "quiet_host = \<lparr>backlog = [], inbox = (\<lambda>_. []), opened = {}, sent = []\<rparr>"

definition daemon_at :: "host \<Rightarrow> fd list \<Rightarrow> host loop" where
  "daemon_at h cs = \<lparr>net = \<lparr>os = h, tcp = \<lparr>tl_sockfd = 3,
       serveraddr = \<lparr>sin_family = AF_INET, sin_port = htons TPM_PORT, sin_addr = 0\<rparr>, clientaddr = no_address\<rparr>\<rparr>,
     lsrv = \<lparr>mon = init_monitor, lgr = \<lparr>logfd = 0, dsk = initstore\<rparr>\<rparr>, lport = TPM_PORT, msock = 3,
     clients = cs, everyone = insert 3 (set cs), maxfd = fold max cs 3, scratch = replicate TRQ_SIZE 0, ticks = 0\<rparr>"

lemma daemon_boots: "daemon_reaches P queue_sockets ef clk (daemon_at quiet_host [])"
proof -
  obtain s where s: "construct_monitor queue_sockets no_faults initstore (replicate TRQ_SIZE 0) quiet_host = Done () s"
    "start_setup queue_sockets s = Done () (daemon_at quiet_host [])"
    by (simp add: construct_monitor_def open_logmgr_def Let_def pbind_def on_net_def createSocket_def queue_sockets_def
        new_loop_def start_setup_def pseq_def bindSocket_def listenSocket_def fd_set_def FD_SETSIZE_def daemon_at_def
        new_transport_def)
  then show ?thesis by (rule daemon_reaches.boot)
qed

text \<open>The same daemon with a client at the other end of a pipe.\<close>

definition piped_daemon :: "(fd \<Rightarrow> byte list) loop" where
  "piped_daemon = \<lparr>net = \<lparr>os = (\<lambda>_. []), tcp = new_transport\<rparr>,
     lsrv = \<lparr>mon = init_monitor, lgr = \<lparr>logfd = 0, dsk = initstore\<rparr>\<rparr>, lport = TPM_PORT, msock = 3,
     clients = [5], everyone = {3, 5}, maxfd = 5, scratch = replicate TRQ_SIZE 0, ticks = 0\<rparr>"

text \<open>A client whose first request waits.\<close>

definition begin_bytes :: "byte list" where
  "begin_bytes = encode_wire (to_wire (rq_of 0 5 BEGIN 0))"

definition one_waits :: host where
  "one_waits = quiet_host\<lparr>opened := {5}, inbox := (\<lambda>_. [])(5 := [begin_bytes])\<rparr>"

lemma begin_bytes_length [simp]: "length begin_bytes = TRQ_SIZE" "begin_bytes \<noteq> []"
proof -
  show l: "length begin_bytes = TRQ_SIZE" by (simp add: begin_bytes_def)
  show "begin_bytes \<noteq> []" using l by (auto simp: TRQ_SIZE_def)
qed

lemma one_waits_recv: "host_recv 5 TRQ_SIZE one_waits = Ret (Some begin_bytes, one_waits\<lparr>inbox := (\<lambda>_. [])\<rparr>)"
  by (simp add: host_recv_def one_waits_def quiet_host_def fun_eq_iff)

lemma begin_received: "received (decode_wire begin_bytes) = Some (rq_of 0 5 BEGIN 0)"
proof -
  have "int32 0" by (simp add: int32_def)
  then show ?thesis
    unfolding begin_bytes_def decode_encode by (intro received_to_wire) (simp_all add: rq_of_def)
qed

lemma daemon_at_sel [simp]:
  "clients (daemon_at h cs) = cs" "msock (daemon_at h cs) = 3" "everyone (daemon_at h cs) = insert 3 (set cs)"
  "os (net (daemon_at h cs)) = h" "mon (lsrv (daemon_at h cs)) = init_monitor"
  "scratch (daemon_at h cs) = replicate TRQ_SIZE 0" "ticks (daemon_at h cs) = 0"
  by (simp_all add: daemon_at_def)

lemma daemon_at_session: "in_session ef (daemon_at h cs)"
  unfolding in_session_def by (intro exI [of _ init_session] conjI reachable.init) (simp add: init_session_def)

lemma one_waits_avail: "host_avail one_waits c \<longleftrightarrow> c = 5"
  by (simp add: host_avail_def waiting_def one_waits_def quiet_host_def)

lemma one_waits_select:
  "sys_select queue_sockets 6 {3, 5} one_waits = Ret (Some ({5}, 1), one_waits)"
proof -
  have "{c \<in> {3, 5}. c < 6 \<and> host_avail one_waits c} = {5 :: fd}" by (auto simp: one_waits_avail)
  then show ?thesis by (simp add: queue_sockets_def host_select_def)
qed

lemma one_waits_read:
  "read_message queue_sockets 5 (daemon_at one_waits [5]) = Done n s1 \<longleftrightarrow> n = TRQ_SIZE \<and>
     s1 = (daemon_at one_waits [5])\<lparr>net := (net (daemon_at one_waits [5]))\<lparr>os := one_waits\<lparr>inbox := (\<lambda>_. [])\<rparr>\<rparr>,
       scratch := begin_bytes\<rparr>"
  using one_waits_recv
  by (auto simp: read_message_def pbind_def on_net_def readSocket_def queue_sockets_def)

lemma one_waits_services:
  "round_services (\<lambda>c s. polite_at queue_sockets c s \<and> calm_at c s) queue_sockets serve (daemon_at one_waits [5])"
proof -
  let ?s = "daemon_at one_waits [5]"
  have m: "maxfd ?s = 5" "?s\<lparr>net := (net ?s)\<lparr>os := one_waits\<rparr>\<rparr> = ?s" by (simp_all add: daemon_at_def)
  have "library_request init_monitor (rq_of 0 5 BEGIN 0) 5"
    by (simp add: library_request_def init_monitor_def)
  then have "polite_at queue_sockets 5 ?s"
    by (auto simp: polite_at_def one_waits_read begin_received)
  moreover have "calm_at 5 ?s" by (simp add: calm_at_def init_monitor_def)
  ultimately show ?thesis
    using one_waits_select by (simp add: round_services_def selected_services_def m)
qed

lemma one_waits_fds: "fds_ok (daemon_at one_waits [5])"
  by (simp add: fds_ok_def FD_SETSIZE_def daemon_at_def)

lemma begin_exchange:
  "mon_ask ef clk 5 (rq_of 0 5 BEGIN 0) d (Up \<lparr>mon = init_monitor, lgr = l\<rparr>) =
     Ret (rq_of 1 5 BEGIN 0, d, Up \<lparr>mon = fst (begin_rq clk (rq_of 0 5 BEGIN 0) 5 init_monitor), lgr = l\<rparr>)"
  by (simp add: mon_ask_def process_clientrq_def dispatch_rq_def begin_rq_def Let_def init_monitor_def rq_of_def)

text \<open>
  A daemon from its start to the first request of a client: the client connects, the daemon accepts it,
  BEGIN arrives, the daemon serves it.
\<close>

definition one_connects :: host where
  "one_connects = quiet_host\<lparr>backlog := [5]\<rparr>"

lemma one_connects_calls:
  "sys_select queue_sockets 4 {3} one_connects = Ret (Some ({3}, 1), one_connects)"
  "sys_accept queue_sockets 3 one_connects = Ret (5, no_address, quiet_host\<lparr>opened := {5}\<rparr>)"
proof -
  have w: "waiting one_connects = [5]" by (simp add: waiting_def one_connects_def quiet_host_def FD_SETSIZE_def)
  then have "{c \<in> {3}. c < (4 :: fd) \<and> host_avail one_connects c} = {3}" by (auto simp: host_avail_def)
  then show "sys_select queue_sockets 4 {3} one_connects = Ret (Some ({3}, 1), one_connects)"
    by (simp add: queue_sockets_def host_select_def)
  show "sys_accept queue_sockets 3 one_connects = Ret (5, no_address, quiet_host\<lparr>opened := {5}\<rparr>)"
    using w by (simp add: queue_sockets_def host_accept_def one_connects_def quiet_host_def)
qed

lemma one_accepted:
  "monitor_round queue_sockets ef clk bad (daemon_at one_connects []) =
     Done () (daemon_at (quiet_host\<lparr>opened := {5}\<rparr>) [5])"
  using one_connects_calls
  by (simp add: monitor_round_def Let_def after_select_def accept_client_def pseq_def pbind_def on_net_def
      acceptSocket_def fd_set_def FD_SETSIZE_def daemon_at_def insert_commute)

definition served_one :: "host loop" where
  "served_one = (daemon_at (one_waits\<lparr>inbox := (\<lambda>_. []), sent := [(5, encode_wire (to_wire (rq_of 1 5 BEGIN 0)))]\<rparr>) [5])
     \<lparr>lsrv := \<lparr>mon = fst (begin_rq (\<lambda>_. 10) (rq_of 0 5 BEGIN 0) 5 init_monitor), lgr = \<lparr>logfd = 0, dsk = initstore\<rparr>\<rparr>,
      scratch := begin_bytes, ticks := 1\<rparr>"

lemma one_served:
  "monitor_round queue_sockets front_zero (\<lambda>_ _. 10) bad (daemon_at one_waits [5]) = Done () served_one"
proof -
  let ?s = "daemon_at one_waits [5]" and ?h = "one_waits\<lparr>inbox := (\<lambda>_. [])\<rparr>"
  let ?b = "encode_wire (to_wire (rq_of 1 5 BEGIN 0))"
  have m: "maxfd ?s = 5" "?s\<lparr>net := (net ?s)\<lparr>os := one_waits\<rparr>\<rparr> = ?s" by (simp_all add: daemon_at_def)
  have "serve_client queue_sockets front_zero (\<lambda>_ _. 10) bad 5 ?s = Done () served_one"
  proof -
    have i: "int32 (rq_block (rq_of 0 5 BEGIN 0))" "rq_reply (rq_of 0 5 BEGIN 0) = OK" "length (scratch ?s) = TRQ_SIZE"
      by (simp_all add: int32_def rq_of_def)
    have r: "sys_recv queue_sockets 5 TRQ_SIZE (os (net ?s)) = Ret (Some (encode_wire (to_wire (rq_of 0 5 BEGIN 0))), ?h)"
      using one_waits_recv by (simp add: queue_sockets_def begin_bytes_def)
    have s: "sys_send queue_sockets 5 ?b ?h = Ret (True, ?h\<lparr>sent := sent ?h @ [(5, ?b)]\<rparr>)"
      by (simp add: queue_sockets_def host_send_def one_waits_def)
    have "mon_ask front_zero ((\<lambda>_ _. 10) (ticks ?s)) 5 (rq_of 0 5 BEGIN 0) initstore (Up (lsrv ?s)) =
        Ret (rq_of 1 5 BEGIN 0, initstore, Up \<lparr>mon = fst (begin_rq (\<lambda>_. 10) (rq_of 0 5 BEGIN 0) 5 init_monitor),
          lgr = \<lparr>logfd = 0, dsk = initstore\<rparr>\<rparr>)"
      using begin_exchange by (simp add: daemon_at_def)
    from whole_request(1) [where clk = "\<lambda>_ _. 10", OF r i this s, of bad] show ?thesis
      by (simp add: served_one_def daemon_at_def one_waits_def quiet_host_def begin_bytes_def)
  qed
  then show ?thesis using one_waits_select by (simp add: monitor_round_def Let_def after_select_def pseq_Done m)
qed

lemma one_reached: "daemon_reaches (polite_at queue_sockets) queue_sockets front_zero (\<lambda>_ _. 10) served_one"
proof -
  let ?P = "polite_at queue_sockets" and ?clk = "\<lambda>_ _. 10 :: time_t"
  let ?R = "daemon_reaches ?P queue_sockets front_zero ?clk"
  have "?R (daemon_at quiet_host [])" by (rule daemon_boots)
  from daemon_reaches.outside [OF this, where x = one_connects and l = "\<lparr>logfd = 0, dsk = initstore\<rparr>"]
  have "?R (daemon_at one_connects [])" by (simp add: daemon_at_def)
  moreover have "maxfd (daemon_at one_connects []) + 1 = 4" by (simp add: daemon_at_def)
  then have "round_services ?P queue_sockets serve (daemon_at one_connects [])" for serve
    using one_connects_calls(1) by (simp add: round_services_def selected_services_def)
  ultimately have "?R (daemon_at (quiet_host\<lparr>opened := {5}\<rparr>) [5])"
    using daemon_reaches.round [OF _ _ one_accepted [of front_zero ?clk no_faults]] by blast
  from daemon_reaches.outside [OF this, where x = one_waits and l = "\<lparr>logfd = 0, dsk = initstore\<rparr>"]
  have w: "?R (daemon_at one_waits [5])" by (simp add: daemon_at_def)
  have "round_services ?P queue_sockets serve (daemon_at one_waits [5])" for serve
    by (rule round_services_mono [OF one_waits_services]) simp
  from daemon_reaches.round [OF w this one_served] show ?thesis .
qed

lemma served_one_sel [simp]: "mfind (transactions (mon (lsrv served_one))) 5 = Some 1"
  by (simp add: served_one_def begin_rq_def Let_def init_monitor_def rq_of_def)

text \<open>
  Client 5 has hung up, the next connection gets descriptor 5 again, hangs up as well, and client 6
  waits.
\<close>

definition hung_up :: host where
  "hung_up = quiet_host\<lparr>opened := {5, 6}, inbox := (\<lambda>_. [])(5 := [[]])\<rparr>"

definition twice_listed :: host where
  "twice_listed = quiet_host\<lparr>opened := {5, 6}, inbox := (\<lambda>_. [])(5 := [[]], 6 := [begin_bytes])\<rparr>"

lemma five_left:
  "hang_up queue_sockets no_faults 5 (daemon_at hung_up [5, 6]) =
     Done () ((daemon_at (hung_up\<lparr>opened := {6}\<rparr>) [5, 6])\<lparr>everyone := {3, 6}\<rparr>)"
  by (auto simp: hang_up_def pseq_def pbind_def on_server_def on_net_def closeSocket_def client_disconnect_def
      init_monitor_def daemon_at_def queue_sockets_def hung_up_def quiet_host_def)

definition five_waits :: "host loop" where
  "five_waits = (daemon_at (quiet_host\<lparr>opened := {6}, backlog := [5]\<rparr>) [5, 6])\<lparr>everyone := {3, 6}\<rparr>"

lemma five_again:
  "sys_accept queue_sockets (msock five_waits) (os (net five_waits)) =
     Ret (5, no_address, quiet_host\<lparr>opened := {5, 6}\<rparr>)"
  "\<exists>s. accept_client queue_sockets five_waits = Done () s \<and> same_lists s (daemon_at twice_listed [5, 5, 6])"
proof -
  have w: "waiting (quiet_host\<lparr>opened := {6}, backlog := [5]\<rparr>) = [5]"
    by (simp add: waiting_def quiet_host_def FD_SETSIZE_def)
  then show a: "sys_accept queue_sockets (msock five_waits) (os (net five_waits)) =
     Ret (5, no_address, quiet_host\<lparr>opened := {5, 6}\<rparr>)"
    by (simp add: queue_sockets_def host_accept_def five_waits_def quiet_host_def)
  then show "\<exists>s. accept_client queue_sockets five_waits = Done () s \<and> same_lists s (daemon_at twice_listed [5, 5, 6])"
    by (simp add: accept_client_def pbind_def on_net_def acceptSocket_def fd_set_def FD_SETSIZE_def same_lists_def)
      (simp add: five_waits_def daemon_at_def)
qed

lemma twice_listed_recv: "host_recv 5 TRQ_SIZE twice_listed = Ret (Some [], twice_listed)"
  by (simp add: host_recv_def twice_listed_def quiet_host_def)

lemma closed_recv: "sys_recv queue_sockets c n (sys_close queue_sockets c y) = Ret (None, sys_close queue_sockets c y)"
  by (simp add: queue_sockets_def host_recv_def)

lemma no_transaction_disconnect:
  "client_disconnect bad c (lsrv (daemon_at h cs)) = Done () (lsrv (daemon_at h cs))"
  by (simp add: client_disconnect_def init_monitor_def)

end
