(* ===== verification/Together.thy ===== *)
theory Together
  imports PowerCut Runs
begin

text \<open>
  Two client processes at once. First a concrete schedule: process 5 allocates block 1, process 6 begins,
  process 5 commits. Then the check-then-lock order of \<open>allocate\<close>: \<open>meanwhile\<close> is a monitor whose
  answer comes after somebody else has gone on.
\<close>

section \<open>A schedule\<close>

definition busy_server :: server where
  "busy_server = young_server\<lparr>mon := busy_tables\<rparr>"

definition pair_tables :: monitor where
  "pair_tables = \<lparr>next_tid = 3, transactions = [(5, 1), (6, 2)],
    status = [(1, \<lparr>ts_pid = 5, ts_block = 1, started = 10, stat = ALLOCATED\<rparr>),
              (2, \<lparr>ts_pid = 6, ts_block = 0, started = 10, stat = BEGUN\<rparr>)],
    blockmap = [(1, \<lparr>readers = [], writer = 1\<rparr>)]\<rparr>"

definition pair_server :: server where
  "pair_server = young_server\<lparr>mon := pair_tables\<rparr>"

abbreviation mon_tpm6 :: "daemon tpm" where
  "mon_tpm6 \<equiv> monitor_tpm front_zero (\<lambda>_. 10) no_faults 6"

definition second_client :: "daemon cstate" where
  "second_client = (new_process initstore (Up pair_server))\<lparr>tid := 2, pid := 6\<rparr>"

lemma pair_tables_played: "tables [Ask 5 BEGIN 0 10, Ask 5 ALLOCATE 1 10, Ask 6 BEGIN 0 10] = pair_tables"
  unfolding pair_tables_def by code_simp

lemma pair_inv: "mon_inv pair_tables"
  using tables_inv(1) [of "[Ask 5 BEGIN 0 10, Ask 5 ALLOCATE 1 10, Ask 6 BEGIN 0 10]"]
  by (simp add: pair_tables_played)

lemma first_call: "one_call mon_tpm no_faults take_one idle_client = Done Finish (writer_of (Up busy_server))"
  by (simp add: take_one_def pbind_def first_block busy_server_def)

lemma second_construct:
  "construct mon_tpm6 no_faults 6 (new_process initstore (Up busy_server)) = Done () second_client"
  by (simp add: construct_def Let_def pbind_def ask_tpm_def monitor_tpm_def mon_ask_def busy_server_def
      new_process_def busy_tables_def process_clientrq_def dispatch_rq_def begin_rq_def second_client_def
      pair_server_def pair_tables_def)

definition left_tables :: monitor where
  "left_tables = \<lparr>next_tid = 3, transactions = [(6, 2)],
    status = [(2, \<lparr>ts_pid = 6, ts_block = 0, started = 10, stat = BEGUN\<rparr>)],
    blockmap = [(1, \<lparr>readers = [], writer = 0\<rparr>)]\<rparr>"

lemma first_leaves: "drop_client 5 1 (set_stat 1 ENDED (set_stat 1 COMMITTING pair_tables)) = left_tables"
  unfolding left_tables_def pair_tables_def by code_simp

lemma first_commit:
  "\<exists>s'. destruct mon_tpm no_faults (writer_of (Up pair_server)) = Done () s' \<and>
    (\<forall>b. store_view (files s') b = view (writer_of (Up pair_server)) b) \<and>
    srv s' = Up ((on_disk (files s') pair_server)\<lparr>mon := left_tables\<rparr>)"
proof -
  have "mfind (transactions pair_tables) 5 = Some 1" "\<not> preempted 1 pair_tables"
    unfolding pair_tables_def by code_simp+
  then show ?thesis
    using destruct_succeeds [OF writer_ok, where sr = pair_server and who = 5 and ef = front_zero
        and clk = "\<lambda>_. 10" and bad = no_faults] pair_inv first_leaves
    by (simp add: pair_server_def)
qed

text \<open>The schedule: 5 begins, 5 allocates, 6 begins; then 5 commits and leaves.\<close>

lemma first_busy:
  "\<exists>w. world_runs front_zero initstore [] w \<and> wstage w 5 = Working take_one Finish \<and>
    wstage w 6 = Working Finish Finish \<and> here w 5 = writer_of (Up pair_server)"
proof -
  let ?w0 = "\<lparr>wdisk = initstore, wmon = Up \<lparr>mon = init_monitor, lgr = \<lparr>logfd = 0, dsk = initstore\<rparr>\<rparr>,
    wstage = (\<lambda>_. Away), wlocal = (\<lambda>_. first_process)\<rparr>"
  let ?w1 = "put_back ?w0 5 (Working take_one take_one) idle_client"
  let ?w2 = "put_back ?w1 5 (Working take_one Finish) (writer_of (Up busy_server))"
  let ?w3 = "put_back ?w2 6 (Working Finish Finish) second_client"
  have w0: "world_runs front_zero initstore [] ?w0" by (rule world_runs.boot)
  have "world_step front_zero ?w0 [] ?w1"
    by (rule world_step.starts [OF _ _ _ _ _ _ _ first_construct,
          where sr = "\<lparr>mon = init_monitor, lgr = \<lparr>logfd = 0, dsk = initstore\<rparr>\<rparr>"])
      (simp_all add: first_process_def new_process_def take_one_def init_monitor_def)
  from world_runs.step [OF w0 this] have w1: "world_runs front_zero initstore [] ?w1" by simp
  have "world_step front_zero ?w1 [] ?w2"
    by (rule world_step.calls [where clk = "\<lambda>_. 10" and bad = no_faults]) (simp, simp add: first_call)
  from world_runs.step [OF w1 this] have w2: "world_runs front_zero initstore [] ?w2" by simp
  have "world_step front_zero ?w2 [] ?w3"
    by (rule world_step.starts [OF _ _ _ _ _ _ _ second_construct, where sr = busy_server])
      (simp_all add: new_process_def busy_server_def busy_tables_def)
  from world_runs.step [OF w2 this] have w3: "world_runs front_zero initstore [] ?w3" by simp
  have "here ?w3 5 = writer_of (Up pair_server)"
    by (simp add: second_client_def new_process_def writer_of_def idle_of_def)
  moreover have "wstage ?w3 5 = Working take_one Finish" "wstage ?w3 6 = Working Finish Finish" by simp_all
  ultimately show ?thesis using w3 by blast
qed

lemma first_schedule:
  "\<exists>w. world_runs front_zero initstore [Past take_one] w \<and> wstage w 6 = Working Finish Finish \<and>
    store_view (wdisk w) 1 = Some zeros"
proof -
  obtain w where w: "world_runs front_zero initstore [] w" "wstage w 5 = Working take_one Finish"
    "wstage w 6 = Working Finish Finish" "here w 5 = writer_of (Up pair_server)"
    using first_busy by blast
  obtain s' where s': "destruct mon_tpm no_faults (here w 5) = Done () s'"
    "\<forall>b. store_view (files s') b = view (writer_of (Up pair_server)) b"
    "srv s' = Up ((on_disk (files s') pair_server)\<lparr>mon := left_tables\<rparr>)"
    using first_commit unfolding w(4) by blast
  have "world_step front_zero w [Past take_one] (gone w 5 s')"
    using world_step.ends [OF w(2) s'(1)] by (simp add: counts_as_def)
  from world_runs.step [OF w(1) this] have r: "world_runs front_zero initstore [Past take_one] (gone w 5 s')" by simp
  have "mon_bye no_faults 5 (files s') (srv s') = (files s', srv s')"
    unfolding s'(3) by (simp add: mon_bye_def client_disconnect_def left_tables_def on_disk_def)
  then have "wdisk (gone w 5 s') = files s'" "wstage (gone w 5 s') 6 = Working Finish Finish"
    using w(3) by (simp_all add: gone_def)
  moreover have "store_view (files s') 1 = Some zeros" using s'(2) writer_view by simp
  ultimately show ?thesis using r by (intro exI [of _ "gone w 5 s'"]) (simp only: simp_thms)
qed

text \<open>The machine stops in the commit of 5, and again while \<open>recover\<close> runs.\<close>

lemma first_cut:
  "\<exists>w d1 d2. world_runs front_zero initstore [] w \<and> power_cut front_zero [] w [Stopped take_one] d1 \<and>
    recoveries d1 d2"
proof -
  obtain w where w: "world_runs front_zero initstore [] w" "wstage w 5 = Working take_one Finish"
    "here w 5 = writer_of (Up pair_server)"
    using first_busy by blast
  have "mfind (transactions pair_tables) 5 = Some 1" unfolding pair_tables_def by code_simp
  then have "served 5 (here w 5)" using pair_inv unfolding w(3) by (simp add: served_def pair_server_def)
  moreover have "client_ok (here w 5)" "lfd (here w 5) = 0" unfolding w(3) by (simp_all add: writer_ok)
  ultimately obtain s' where s': "final (commit mon_tpm {WriteStore 1} (here w 5)) = Some s'"
    using commit_finishes by blast
  have "stat_of pair_tables 1 \<noteq> Some PREEMPTED" unfolding pair_tables_def by code_simp
  moreover have "wmon w = Up pair_server" "tid (here w 5) = 1"
    using w(3) here_sel(2) [of w 5] by (simp_all del: here_sel)
  ultimately have "\<not> refused w 5" by (simp add: refused_def pair_server_def)
  then have c: "power_cut front_zero [] w [Stopped take_one] (files s')"
    using power_cut.in_commit [where ef = front_zero and h = "[]", OF w(2) s'] by (simp add: counts_as_def)
  have "log_older 1 initstore" "log_closed initstore"
    by (simp_all add: log_older_def log_closed_def collect_def) (simp_all add: initstore_def)
  note run = runs_serial [OF benign_front_zero initstore_ok this(1) w(1)]
  then obtain V where "recoverable V (files s')"
    using power_cut_recoverable [OF _ _ _ c] \<open>log_closed initstore\<close> by blast
  then obtain l where l: "final (recover_main {WriteIndex 1} (files s')) = Some l"
    using recoverable_run_ends [of V "files s'" "{WriteIndex 1}"] by auto
  have "recoveries (files s') (dsk l)"
    by (rule recoveries.another [OF recoveries.none _ l]) simp
  with c w(1) show ?thesis by blast
qed

section \<open>Between the check and the lock\<close>

text \<open>Somebody else's steps \<open>f\<close> on the files and the monitor come before the request is served.\<close>

definition meanwhile :: "(disk \<Rightarrow> daemon \<Rightarrow> disk \<times> daemon) \<Rightarrow> daemon tpm \<Rightarrow> daemon tpm" where
  "meanwhile f T = T\<lparr>ask := \<lambda>rq d dm. case f d dm of (d', dm') \<Rightarrow> ask T rq d' dm'\<rparr>"

lemma meanwhile_grants:
  assumes "f (files s) (srv s) = (d', Up sr)" "rq_reply r = OK"
    and "process_clientrq ef clk (rq_of (tid s) (pid s) q b) c (mon sr) = Ret (m', r)"
  shows "ask_tpm (meanwhile f (monitor_tpm ef clk bad c)) q b s =
    Done (True, r) (s\<lparr>files := d', srv := Up (sr\<lparr>mon := m'\<rparr>)\<rparr>)"
  using assms by (simp add: ask_tpm_def meanwhile_def monitor_tpm_def mon_ask_def rq_of_def)

lemma search_ignores_monitor: "find_free_block T bad s = Done b s1 \<Longrightarrow> find_free_block T' bad s = Done b s1"
  by (auto simp: find_free_block_def Let_def restart_Done split: outcome.splits if_splits)

lemma allocate_after_check:
  assumes b: "find_free_block T bad s = Done b s1" and k: "ask_tpm T' ALLOCATE b s1 = Done (True, rp) s2"
  shows "\<exists>s'. allocate T' bad s = Done b s' \<and> view s' b = Some zeros \<and> files s' = files s2"
proof -
  have "allocate_loop T' bad s = Some (Done b s2)"
    using search_ignores_monitor [OF b, of T'] k by (subst allocate_loop.simps) simp
  then show ?thesis
    by (auto simp: allocate_def pbind_def pseq_def tx_new_def new_buffer_def tx_fill_def fill_def set_entry_def
        view_def bufval_def deref_def)
qed

text \<open>Process 5, which holds block 1, commits and leaves.\<close>

definition first_goes_on :: "disk \<Rightarrow> daemon \<Rightarrow> disk \<times> daemon" where
  "first_goes_on d m = (case destruct mon_tpm no_faults ((writer_of m)\<lparr>files := d\<rparr>) of
     Done _ s \<Rightarrow> (files s, srv s) | _ \<Rightarrow> (d, m))"

lemma first_went_on: "\<exists>d sr. first_goes_on initstore (Up pair_server) = (d, Up sr) \<and> mon sr = left_tables \<and>
    store_view d 1 = Some zeros"
proof -
  have "(writer_of (Up pair_server))\<lparr>files := initstore\<rparr> = writer_of (Up pair_server)"
    by (simp add: writer_of_def idle_of_def new_process_def)
  then have e: "destruct mon_tpm no_faults ((writer_of (Up pair_server))\<lparr>files := initstore\<rparr>) =
      destruct mon_tpm no_faults (writer_of (Up pair_server))" by (rule arg_cong)
  obtain s' where "destruct mon_tpm no_faults (writer_of (Up pair_server)) = Done () s'"
      "store_view (files s') 1 = Some zeros"
      "srv s' = Up ((on_disk (files s') pair_server)\<lparr>mon := left_tables\<rparr>)"
    using first_commit writer_view by fastforce
  then show ?thesis unfolding first_goes_on_def e by simp
qed

lemma second_search: "find_free_block mon_tpm6 no_faults second_client = Done 1 (second_client\<lparr>last_free_block := 1\<rparr>)"
  by (simp add: find_free_block_def second_client_def new_process_def initstore_head Let_def)

lemma second_grant: "\<exists>m r. process_clientrq front_zero (\<lambda>_. 10) (rq_of 2 6 ALLOCATE 1) 6 left_tables = Ret (m, r) \<and>
    rq_reply r = OK"
proof -
  have "(case process_clientrq front_zero (\<lambda>_. 10) (rq_of 2 6 ALLOCATE 1) 6 left_tables of
      Ret (m, r) \<Rightarrow> rq_reply r = OK | _ \<Rightarrow> False)"
    unfolding left_tables_def by code_simp
  then show ?thesis by (auto split: outcome.splits)
qed

end
