(* ===== verification/Renumbered.thy ===== *)
theory Renumbered
  imports Runs Interrupted
begin

text \<open>
  A monitor that is started again counts from 1, while the log keeps the records of the transactions
  before. An END record of the old transaction with the same number stands behind the records of a new
  one that stops in its commit: then neither the monitor nor \<open>recover\<close> undoes anything.
\<close>

lemma old_end_hides:
  assumes log: "log_f (dsk l) = us @ e # ys" "lr_tid e = t" "lr_action e = LEND" "\<forall>r \<in> set ys. lr_tid r \<noteq> t"
  shows "rollback no_faults t l = Done () l \<and> t \<notin> mdom (collect (log_f (dsk l)))"
proof
  show "rollback no_faults t l = Done () l"
    by (rule rollback_ended [where b = e]) (use log in \<open>auto simp: ends_walk_def\<close>)
  have "open_tail t (log_f (dsk l)) = []"
    unfolding log(1) by (rule open_tail_closed) (use log in \<open>simp_all add: closes_def\<close>)
  then show "t \<notin> mdom (collect (log_f (dsk l)))" by (simp add: mdom_collect)
qed

section \<open>A second life of transaction 1\<close>

text \<open>
  The files after a first life of the monitor: transaction 1 has read two blocks and ended. Process 5 is
  transaction 1 of the new monitor; it has allocated block 1 and filled it.
\<close>

definition old_log :: "logrecord list" where
  "old_log = [begin_record 1, mk_record 1 LREAD 2 (CHR '' '') None, mk_record 1 LREAD 3 (CHR '' '') None, end_record 1]"

definition second_life :: "daemon cstate" where
  "second_life = writer_client\<lparr>files := initstore\<lparr>log_f := old_log\<rparr>,
     heap := snd (new_filled (block_of (CHR ''X'')) empty_mem)\<rparr>"

lemma second_life_stops:
  "\<exists>s'. commit mon_tpm {WriteStore 1} second_life = Throw TE_ABORT s' \<and>
    log_f (files s') = [begin_record 1, mk_record 1 LALLOCATE 1 (CHR '' '') None, mk_record 1 LREAD 3 (CHR '' '') None, end_record 1] \<and>
    store_view (files s') 1 = Some zeros"
proof -
  let ?s0 = second_life
  let ?sr = "young_server\<lparr>mon := set_stat 1 COMMITTING (tables one_client)\<rparr>"
  have s0: "tid ?s0 = 1" "lfd ?s0 = 0" "srv ?s0 = Up young_server" "mon young_server = tables one_client"
    "files ?s0 = initstore\<lparr>log_f := old_log\<rparr>"
    "bmap ?s0 = [(1, \<lparr>lock = A_LOCK, data = Some 0, oldval = Some 0, oldindex = CHR ''U''\<rparr>)]"
    "heap ?s0 = snd (new_filled (block_of (CHR ''X'')) empty_mem)"
    by (simp_all add: second_life_def writer_client_def young_server_def)
  have "process_clientrq front_zero (\<lambda>_. 10) (rq_of 1 p COMMIT 0) 5 (tables one_client) =
      Ret (set_stat 1 COMMITTING (tables one_client), swapped_reply (rq_of 1 p COMMIT 0) OK)" for p
    by (simp add: process_clientrq_def dispatch_rq_def commit_rq_def rq_of_def one_client_tables preempted_def)
  then have ask: "\<exists>rp. ask_tpm mon_tpm COMMIT 0 ?s0 = Done (True, rp) (?s0\<lparr>srv := Up ?sr\<rparr>)"
    using s0 by (simp add: ask_tpm_def monitor_tpm_def mon_ask_def rq_of_def swapped_reply_def)
  let ?s1 = "?s0\<lparr>srv := Up ?sr\<rparr>"
  have b: "1 \<le> NBLOCKS" "store_offset 1 = 0" by (simp_all add: NBLOCKS_def store_offset_def)
  have ok: "offset_ok 1" by (simp add: offset_ok_def b)
  have "\<exists>s'. commit_log {WriteStore 1} ?s1 = Throw TE_ABORT s' \<and> log_f (files s') =
      [begin_record 1, mk_record 1 LALLOCATE 1 (CHR '' '') None, mk_record 1 LREAD 3 (CHR '' '') None, end_record 1] \<and>
      store_f (files s') = store_f initstore \<and> index_f (files s') = index_put 1 (CHR ''A'') (index_f initstore)"
    using s0 ok
    by (simp add: commit_log_def pseq_def pbind_def tx_log_def lm_log_def write_record_def put_record_def append_alog_def
        commit_entry_def put_index_def write_index_def tx_deref_def deref_def new_filled_def put_store_def
        write_store_def tx_abort_def old_log_def pwrite_def begin_record_def empty_mem_def)
  then obtain s' where s': "commit_log {WriteStore 1} ?s1 = Throw TE_ABORT s'"
      "log_f (files s') = [begin_record 1, mk_record 1 LALLOCATE 1 (CHR '' '') None, mk_record 1 LREAD 3 (CHR '' '') None, end_record 1]"
      "store_f (files s') = store_f initstore" "index_f (files s') = index_put 1 (CHR ''A'') (index_f initstore)"
    by blast
  have v: "index_valid (index_f initstore) 1" "store_valid (store_f initstore) 1"
    using b by (simp_all add: initstore_store)
  have "block_valid (files s') 1" using v by (simp add: block_valid_def s'(3,4) ix.valid_put)
  moreover have "dindex (files s') 1 = CHR ''A''" using v by (simp add: dindex_def s'(4) ix.get_put)
  moreover have "dblock (files s') 1 = zeros"
    by (simp add: dblock_def s'(3) store_get_def b pread_def initstore_def zeros_def NBLOCKS_def BLOCKSIZE_def)
  ultimately have "store_view (files s') 1 = Some zeros" by (simp add: store_view_def)
  moreover have "commit mon_tpm {WriteStore 1} ?s0 = Throw TE_ABORT s'"
    using ask s'(1) by (auto simp: commit_unfold pbind_def pseq_def)
  ultimately show ?thesis using s'(2) by blast
qed

lemma second_life_before: "store_view (files second_life) 1 = None" "view second_life 1 = Some (block_of (CHR ''X''))"
proof -
  have "dindex (files second_life) 1 = CHR ''U''"
    using initstore_free [of 1] by (simp add: second_life_def dindex_def NBLOCKS_def)
  then show "store_view (files second_life) 1 = None" by (simp add: store_view_def)
  show "view second_life 1 = Some (block_of (CHR ''X''))"
    by (simp add: second_life_def writer_client_def view_def bufval_def deref_def new_filled_def empty_mem_def)
qed

end
