(* ===== verification/Spec2Isabelle.thy ===== *)
theory Spec2Isabelle
  imports Console Together Renumbered Policy Restarts Unwind Rollback RecoverAll AllocateOp CrashRecovery
begin

text \<open>
  This development verifies System/T, the small transaction processing system under src/src: a daemon
  (\<open>tpmd\<close>, the transaction monitor) that hands out locks on the blocks of a store, a client library
  (class \<open>Transaction\<close> with the macros Begin and End) that reads and writes the store under those locks,
  a log manager that both sides use, and programs that create the store, recover it and try it out.

  The parts and how they interact.
  A client process constructs a \<open>Transaction\<close>, which connects to the monitor and sends BEGIN. Every library
  call asks the monitor for a lock (\<open>ask_tpm\<close>) and works on buffers in memory (\<open>blockmap\<close>); the files change
  only in the destructor, where \<open>commit\<close> sends COMMIT, logs and writes block by block and sends END. The
  monitor answers each request from three maps (\<open>transactions\<close>, \<open>status\<close>, \<open>blockmap\<close>); when a connection
  closes it drops the client and, if the client was committing, undoes what it wrote, from the log.
  A monitor that dies is followed by the program \<open>recover\<close>, which does the same for all open transactions.

  Theories and sources.
  Prelude: the result type \<open>outcome\<close> (Ret, Exited, Undef, Diverge) of monitor code and \<open>result\<close> (Done, Throw,
  Quit, Wrong, Loop) of code with exceptions and state; sequencing; list lemmas. Triples: its pre- and
  postconditions. StdMap: \<open>std::map\<close> as an association list in key order (iterators visit it in that
  order), with the locale \<open>finite_map\<close>. Trq: config.h and trq.hh. Heap: the \<open>new byte[]\<close> buffers.
  Files: \<open>pread\<close>, \<open>pwrite\<close> on the index and the store, with the locale \<open>cell_file\<close>.
  Monitor: Monitor.hh and the request handlers of Monitor.cc. LockTable: \<open>holders\<close>, \<open>stat_of\<close>, the laws of
  the table operations. LockHandlers: the locales \<open>table_handler\<close> and \<open>lock_handler\<close>, the contract that
  ALLOCATE, READ, WRITE and RELEASE share, interpreted on each handler.
  LogManager: LogManager.hh, LogManager.cc and recover.cc. Recovery, RecoverAll, Rollback: what undo, the
  forward pass of \<open>doRecovery\<close> and the backward walk of \<open>rollback\<close> achieve.
  Server, Sessions, Policy, Grants, Scenarios: the monitor with its log manager and what its clients
  believe to hold, as a step relation with reachable states; the conflict policy; runnable schedules.
  Transaction: Transaction.hh and Transaction.cc, one definition per member function, over an interface
  record \<open>tpm\<close> for the process at the other end of the socket. ClientView, ClientOps, AllocateOp: the view
  of a transaction (store and own changes) and the refinement of a map by the library calls, in the locale
  \<open>quiet_tpm\<close>. LibraryLaws, Scripts: locales \<open>library_law\<close>, \<open>strict_law\<close>, \<open>commit_law\<close> for properties that all
  library calls keep, and call sequences (\<open>exec\<close>). Commit, Restarts, Unwind: the commit, back-off, leaving.
  System: the monitor as the \<open>tpm\<close> of a client (\<open>monitor_tpm\<close>), which interprets \<open>quiet_tpm\<close>.
  CrashRecovery, Success, Serial, Attempts: commit against stops and recovery, and whole transactions.
  Backoff: no call hangs against the monitor, restarts end, and the sleeps of a whole process life.
  LogTail, Interrupted: what recovery makes of the end of a log, and \<open>recover\<close> itself stopped at any call and
  run again (\<open>recoveries\<close>). PowerCut: the machine stops while several clients work. Renumbered: a monitor that
  starts again over a kept log.
  Transport: Transport.cc and the 24 bytes of a message. EventLoop: \<open>start\<close> of Monitor.cc and tpmd.cc.
  Rounds, Daemon, Wire: the loop keeps the laws of Sessions (locale \<open>round_law\<close>), returns to select
  (locale \<open>reliable_sockets\<close>, interpreted on a host with queues of input) and does what \<open>monitor_tpm\<close> says; a
  request and its reply over a connected pair (locale \<open>stream_sockets\<close>, interpreted on a pipe).
  Schedules, Standing, OwnLocks, Interleaving: several client processes at one store as a step relation
  (\<open>world_step\<close>): scripts call by call, what a client does not change for the others (locale \<open>standing\<close>), that
  a client holds the locks it has recorded, and serializability. Together: schedules of two clients.
  TestPrograms: st1.cc to st5.cc and ct1.cc to ct3.cc as call sequences. Console: the same programs with what
  they print to \<open>cout\<close> and the restarts of Begin and End (\<open>talk\<close>, \<open>show_loop\<close>). Examples, Runs: states for the witnesses.

  State. \<open>monitor\<close> holds the maps of class TransactionMonitor, \<open>server\<close> adds its logger and \<open>loop\<close> the sockets,
  \<open>clients\<close>, \<open>everyone\<close> and \<open>scratch_trq\<close>. \<open>cstate\<close> is a client process: the members of Transaction, the heap,
  the shared files, the static \<open>last_sleep\<close> and the monitor it talks to. \<open>disk\<close> holds the files; a log is
  the list of its records. A failing system call is a member of a fault set (\<open>WriteStore b\<close> and so on).
  Functions of the state are pure; times come from a clock function, so a theorem is about all timings.

  Lemma groups. Transactions: several clients are serializable; the whole of Begin, body and End is all or nothing, at whatever system call
  the process stops, with the monitor alive (online rollback) or dead (recover), and so is any interleaving of
  clients that a power cut ends, also when recover is cut short itself. Locks: isolation, no
  deadlock, justified refusals, preemption and disconnection. Daemon: bytes, select loop and tables
  together. Log: rollback and recovery. Library: termination, back-off, memory, exceptions, the shipped
  programs. Defects: theorems that show where the code does not do what it means to.

  Loops and bounds. \<open>rollback_scan\<close>, \<open>allocate_loop\<close> and \<open>transaction_loop\<close> may run for ever in the code and are
  \<open>partial_function (option)\<close>: None is a run that does not end, and when they end is stated as a theorem. A call
  inside the body that never returns makes the result of \<open>transaction_loop\<close> the value Loop, so that it ends is stated
  as Some r with r other than Loop. The
  endless loop of the daemon is \<open>monitor_rounds n\<close>, the first n rounds, for every n. A process restarts at most six
  times because \<open>last_sleep\<close> is never reset, so a transaction number below 2 ^ 64 - 7 leaves room for all
  attempts. The other loops are structural.

  Hypotheses. \<open>quiet_tpm T\<close>: whoever answers a client does not change the files during the call; discharged for
  \<open>monitor_tpm\<close>. The theorems about one transaction have no other client write the files. In \<open>world_step\<close> clients
  alternate, and a step is a whole library call, construction or destruction with the handling of the disconnect
  (a commit may stop at any failing call inside it) or the death of a process between two calls: that nobody else
  acts inside a step is an assumption, and the theorems about the allocate race and the shared log show what can
  happen otherwise. A transaction that the monitor has preempted before its commit has no place in the order
  (\<open>counts_as\<close>). \<open>positive\<close>: the body names positive block numbers, without which \<open>invalid_block_commits\<close> shows a
  half transaction.
  \<open>benign ef\<close>: \<open>front()\<close> of an empty list, undefined in C++, returns
  some number that the caller survives (0, or the writer). \<open>log_older\<close> and \<open>fresh_tid\<close>: the log has only transaction numbers below
  \<open>next_tid\<close>, none that of the transaction, true of a monitor that has run since the log was made; a restarted monitor counts from 1 again,
  and \<open>reused_number_hides_crash\<close> shows what that costs. \<open>recoveries\<close> leaves out failing reads of the log, which
  \<open>doRecovery\<close> takes for the end of the file.
  \<open>files_ok\<close> and \<open>client_ok\<close> hold after initstore and the constructor. One write of a block, an index byte or a log
  record is not torn. Socket calls are the parameter record \<open>sockets\<close>; \<open>reliable_sockets\<close> is what POSIX promises of
  them when no error occurs, sending only on a connection that has just delivered bytes; \<open>stream_sockets\<close> adds
  that a message arrives in one piece, which \<open>short_read_mixes_messages\<close> does not assume; \<open>pton_doc\<close> is the documented failure of \<open>inet_pton\<close> on text that is no address. Messages have
  the layout of x86-64 (little-endian, 8 + 4 + 4 + 4 + 4 bytes).

  Not modelled. Messages of the library, the daemon and recover to \<open>cout\<close> and \<open>cerr\<close>; what the test programs print is.
  The OBSERVE builds, which config.h leaves off. The destructor of LogManager, which
  closes descriptors at the end of a process. Clients whose library calls or commits overlap in time, beyond
  the theorems about the allocate race and the overwritten log. The shell scripts and the Makefile, which hold
  no program logic.
\<close>

section \<open>Transactions\<close>

text \<open>C1: Durability of the whole system over a fresh log, that is, when no record of the log carries a number but 0 and none is of an open transaction. Clients whose bodies name positive block numbers alternate on the store in any order of steps, a step being one whole library call, a construction, or an end of the process with its destructor and the handling of its disconnect; nobody else acts inside a step. Then the machine stops: between two steps, at any system call of a commit, or while the monitor rolls a commit back; recover runs and may itself be stopped any number of times at any call but a read of the log. The first run in peace then returns, closes the log and leaves exactly what the transactions that reached their commit make of the store, one after the other, the interrupted one as a whole or not at all, and preempted or aborted ones not at all.\<close>

theorem crash_serializable:
  assumes "benign ef" "files_ok d" "log_older 1 d" "log_closed d" and runs: "world_runs ef d h w"
    and cut: "power_cut ef h w h' d1" and rec: "recoveries d1 d2"
  shows "\<exists>l. recover_main no_faults d2 = Done () l \<and> log_closed (dsk l) \<and>
    explains h' (store_view d) (store_view (dsk l))"
  by (rule power_cut_serial [OF assms])

lemma crash_serializable_witness:
  "\<exists>w d1 d2 l. world_runs front_zero initstore [] w \<and> power_cut front_zero [] w [Stopped take_one] d1 \<and>
     recoveries d1 d2 \<and> recover_main no_faults d2 = Done () l \<and> log_closed (dsk l) \<and>
     explains [Stopped take_one] (store_view initstore) (store_view (dsk l))"
proof -
  obtain w d1 d2 where w: "world_runs front_zero initstore [] w"
    "power_cut front_zero [] w [Stopped take_one] d1" "recoveries d1 d2"
    using first_cut by blast
  have "log_older 1 initstore" "log_closed initstore"
    by (simp_all add: log_older_def log_closed_def collect_def) (simp_all add: initstore_def)
  from crash_serializable [OF benign_front_zero initstore_ok this w] w show ?thesis by blast
qed

text \<open>C2: However the steps of any number of clients alternate on one store, a step being one whole library call, a construction, or an end of the process with its destructor and the handling of its disconnect, inside which nobody else acts, and whichever system calls of a client fail: if the log held no record with a number but 0 when the monitor started, and the bodies name positive block numbers, the store is after every step what the transactions that reached their commit make of it as whole ones, one after the other in the order of these commits; one whose commit was stopped counts as a whole or not at all, and one that aborted or that the monitor had preempted not at all.\<close>

theorem serializable:
  assumes "benign ef" "files_ok d" "log_older 1 d" and runs: "world_runs ef d h w"
  shows "explains h (store_view d) (store_view (wdisk w))"
  using runs_serial [OF assms] by blast

lemma serializable_witness:
  "\<exists>w. world_runs front_zero initstore [Past take_one] w \<and> wstage w 6 = Working Finish Finish \<and>
     explains [Past take_one] (store_view initstore) (store_view (wdisk w)) \<and> store_view (wdisk w) 1 = Some zeros"
proof -
  have "log_older 1 initstore" by (simp add: log_older_def) (simp add: initstore_def)
  then show ?thesis using first_schedule serializable [OF benign_front_zero initstore_ok] by blast
qed

text \<open>C3: The whole of Begin(T) body End(T) with its restarts, of a process that alone writes the files, whose body names positive block numbers, with a log whose records are all older than the next transaction number and room for the numbers of seven attempts: whenever the process stops, by passing End(T), by exit or at any failing system call of the commit, and the monitor has handled its disconnect, the datastore is the old one or exactly what the body, run alone on a map from blocks to contents, makes of it; past End(T) it is always the latter.\<close>

theorem transaction_all_or_nothing:
  assumes "attempt_start who N d s" "unat N + (6 - unat (last_sleep s)) < 2 ^ 64 - 1" "positive scr"
    and "transaction_loop (monitor_tpm ef clk no_faults who) bad p
      (exec (monitor_tpm ef clk no_faults who) bad scr) s = Some r"
    and "final r = Some s'" "mon_bye no_faults who (files s') (srv s') = (d', dm)"
  shows "(\<exists>\<sigma>. runs_to scr (store_view d) \<sigma> \<and> (\<forall>b. store_view d' b = \<sigma> b)) \<or>
    (\<not> (\<exists>u. r = Done u s') \<and> (\<forall>b. store_view d' b = store_view d b))"
  using loop_serial_or_nothing [OF assms(1) assms(2) [folded tries_left_def] assms(3-5)] assms(6) by (simp add: serial_or_nothing_def Let_def)

lemma transaction_all_or_nothing_witness:
  "\<exists>s' d' dm b. transaction_loop mon_tpm no_faults 5 (exec mon_tpm no_faults take_one) first_process = Some (Done () s') \<and>
     mon_bye no_faults 5 (files s') (srv s') = (d', dm) \<and> store_view initstore b = None \<and> store_view d' b = Some zeros"
proof -
  obtain s' where s': "transaction_loop mon_tpm no_faults 5 (exec mon_tpm no_faults take_one) first_process = Some (Done () s')"
    using first_loop by blast
  obtain d' dm where b: "mon_bye no_faults 5 (files s') (srv s') = (d', dm)" by fastforce
  have "unat (1 :: trid_t) + (6 - unat (last_sleep first_process)) < 2 ^ 64 - 1"
    by (simp add: first_process_def new_process_def)
  from transaction_all_or_nothing [OF first_start this _ s' _ b] obtain \<sigma>
    where "runs_to take_one (store_view initstore) \<sigma>" "\<forall>b. store_view d' b = \<sigma> b"
    by (auto simp: take_one_def)
  then show ?thesis using s' b by (auto simp: take_one_def elim!: runs_toE)
qed

text \<open>C4: Atomicity with online rollback, when no record that is in the log before carries the number of the transaction and nobody else writes: at whatever system call commit stops, once the monitor has handled the disconnect the datastore is either exactly the one before or exactly what the transaction saw.\<close>

theorem commit_crash_atomic:
  assumes "client_ok s" "lfd s = 0" "fresh_tid s" "served who s"
    and "final (commit (monitor_tpm ef clk no_faults who) bad s) = Some s'"
    and "mon_bye no_faults who (files s') (srv s') = (d', dm)"
  shows "(\<forall>b. store_view d' b = store_view (files s) b) \<or> (\<forall>b. store_view d' b = view s b)"
  using commit_atomic [OF assms(1-5)] assms(6) by (simp add: all_or_nothing_def Let_def)

lemma commit_crash_atomic_witness:
  "\<exists>s' d' dm. final (commit (monitor_tpm front_zero (\<lambda>_. 12) no_faults 5) {WriteStore 1} writer_client) = Some s' \<and>
     mon_bye no_faults 5 (files s') (srv s') = (d', dm) \<and>
     ((\<forall>b. store_view d' b = store_view (files writer_client) b) \<or> (\<forall>b. store_view d' b = view writer_client b))"
proof -
  have w: "client_ok writer_client" "lfd writer_client = 0" "fresh_tid writer_client" "served 5 writer_client"
    using writer_ok fresh_of clients_served by (simp_all add: writer_client_def)
  obtain s' where s': "final (commit (monitor_tpm front_zero (\<lambda>_. 12) no_faults 5) {WriteStore 1} writer_client) = Some s'"
    using commit_finishes [OF w(1,2,4)] by blast
  obtain d' dm where b: "mon_bye no_faults 5 (files s') (srv s') = (d', dm)" by fastforce
  from commit_crash_atomic [OF w s' b] s' b show ?thesis by blast
qed

text \<open>C5: Atomicity with offline recovery, when the log was closed before and no record in it carried the number of the transaction: if the monitor dies with the client, running recover on the files a stopped commit left gives the old or the new datastore and a closed log.\<close>

theorem crash_recovery_atomic:
  assumes "quiet_tpm T" "client_ok s" "lfd s = 0" "fresh_tid s" "collect (log_f (files s)) = []"
    and "final (commit T bad s) = Some s'"
  shows "\<exists>l. recover_main no_faults (files s') = Done () l \<and> collect (log_f (dsk l)) = [] \<and>
    ((\<forall>b. store_view (dsk l) b = store_view (files s) b) \<or> (\<forall>b. store_view (dsk l) b = view s b))"
  by (rule commit_recovered [OF assms])

lemma crash_recovery_atomic_witness:
  "\<exists>s' l. final (commit (monitor_tpm front_zero (\<lambda>_. 12) no_faults 5) {WriteLog 2} writer_client) = Some s' \<and>
     recover_main no_faults (files s') = Done () l \<and> collect (log_f (dsk l)) = [] \<and>
     ((\<forall>b. store_view (dsk l) b = store_view (files writer_client) b) \<or>
      (\<forall>b. store_view (dsk l) b = view writer_client b))"
proof -
  have w: "client_ok writer_client" "lfd writer_client = 0" "fresh_tid writer_client" "served 5 writer_client"
    "collect (log_f (files writer_client)) = []"
    using writer_ok fresh_of clients_served by (simp_all add: writer_client_def collect_def initstore_def)
  obtain s' where s': "final (commit (monitor_tpm front_zero (\<lambda>_. 12) no_faults 5) {WriteLog 2} writer_client) = Some s'"
    using commit_finishes [OF w(1,2,4)] by blast
  from crash_recovery_atomic [OF mq.quiet_tpm_axioms w(1-3,5) s'] s' show ?thesis by blast
qed

text \<open>C6: Any sequence of library calls that returns acts on the transaction view as the same operations act on a map: allocate picks a free block and fills it with zeros, read returns the content, write returns the old content and replaces it, release removes the block; the files stay as they are.\<close>

theorem library_refines_map:
  assumes "quiet_tpm T" "exec T bad scr s = Done u s'" "client_ok s"
  shows "runs_to scr (view s) (view s') \<and> client_ok s' \<and> files s' = files s"
  by (rule quiet_tpm.exec_refines [OF assms])

lemma library_refines_map_witness:
  "\<exists>s. exec mon_tpm no_faults take_one idle_client = Done () s \<and> runs_to take_one (view idle_client) (view s)"
proof -
  obtain s where "exec mon_tpm no_faults take_one idle_client = Done () s" using first_allocate by blast
  with library_refines_map [OF mq.quiet_tpm_axioms this clients_ok(1)] show ?thesis by blast
qed

text \<open>C7: A transaction that the monitor has not preempted commits when no system call fails: the datastore becomes what the transaction saw and the monitor records ENDED.\<close>

theorem commit_goes_through:
  assumes "client_ok s" "lfd s = 0" "srv s = Up sr" "stat_of (mon sr) (tid s) = Some q" "q \<noteq> PREEMPTED"
  shows "\<exists>s' m'. commit (monitor_tpm ef clk bad who) no_faults s = Done () s' \<and>
    (\<forall>b. store_view (files s') b = view s b) \<and> srv s' = Up (sr\<lparr>mon := m'\<rparr>) \<and>
    stat_of m' (tid s) = Some ENDED"
proof -
  let ?m = "set_stat (tid s) ENDED (set_stat (tid s) COMMITTING (mon sr))"
  have "stat_of ?m (tid s) = Some ENDED" using known_stat [OF assms(4)] by simp
  then show ?thesis using commit_succeeds [OF assms, of ef clk bad who] by blast
qed

lemma commit_goes_through_witness:
  "\<exists>s'. commit (monitor_tpm front_zero (\<lambda>_. 12) no_faults 5) no_faults writer_client = Done () s' \<and>
     store_view (files s') 1 = Some zeros"
  using commit_goes_through [OF writer_ok, of "Up young_server" young_server BEGUN front_zero "\<lambda>_. 12" no_faults 5]
    young_entry by (auto simp: writer_client_def writer_view)

section \<open>Locks\<close>

text \<open>C8: Isolation: in every reachable state two connections that are not preempted and both hold a granted lock on the same block hold read locks.\<close>

theorem two_clients_isolated:
  assumes "benign ef" "reachable ef s" "c \<noteq> c'"
    and "mfind (transactions (sv s)) c = Some t" "mfind (transactions (sv s)) c' = Some t'"
    and "stat_of (sv s) t \<noteq> Some PREEMPTED" "stat_of (sv s) t' \<noteq> Some PREEMPTED"
    and "held s c b = Some l" "held s c' b = Some l'"
  shows "l = R_LOCK \<and> l' = R_LOCK"
  by (rule isolation [OF assms])

lemma two_clients_isolated_witness:
  "held (after front_zero two_readers) 5 1 = Some R_LOCK \<and> held (after front_zero two_readers) 6 1 = Some R_LOCK"
proof -
  let ?s = "after front_zero two_readers"
  have "mfind (transactions (sv ?s)) 5 = Some 1" "mfind (transactions (sv ?s)) 6 = Some 2"
    "stat_of (sv ?s) 1 = Some READING" "stat_of (sv ?s) 2 = Some READING"
    "held ?s 5 1 = Some R_LOCK" "held ?s 6 1 = Some R_LOCK"
    by code_simp+
  then show ?thesis
    using two_clients_isolated [OF benign_front_zero reachable_after, of 5 6 two_readers 1 2 1] by simp
qed

text \<open>C9: No deadlock: in any state, "h holds a block and its presence alone makes can_read or can_write refuse t", with h not committing, only points from younger to older transactions, so it has no cycle.\<close>

theorem waiting_is_acyclic:
  "acyclic {(t, h). h \<noteq> t \<and> stat_of m h \<noteq> Some COMMITTING \<and>
     (\<exists>b. h \<noteq> 0 \<and> writer (holders m b) = h \<and> contest_writer (\<lambda>_. now) t b h m = Ret (False, m) \<or>
          h \<in> set (readers (holders m b)) \<and> reader_blocks (\<lambda>_. now) t (status m) [h] = Ret True)}"
  using stands_acyclic [of m now] by (simp add: stands_in_way_def)

text \<open>C10: Under the invariant every request, with any field values, is answered: the handlers neither exit, nor dereference a missing status entry, nor loop.\<close>

theorem monitor_answers:
  assumes "mon_inv m"
  shows "\<exists>m' r. process_clientrq ef clk rq who m = Ret (m', r)"
  using process_total [OF assms, of ef clk rq who] by (auto simp: returns_Ret)

lemma monitor_answers_witness:
  "\<exists>m' r. process_clientrq front_zero (\<lambda>_. 12) (rq_of 2 6 READ 1) 6 (tables older_writer) = Ret (m', r)"
  by (rule monitor_answers) (rule tables_inv)

text \<open>C11: A granted WRITE, ALLOCATE or RELEASE makes the client the only holder of the block, and every other transaction that held it is marked PREEMPTED.\<close>

theorem exclusive_grant:
  assumes "process_clientrq ef clk rq who m = Ret (m', r)" "rq_reply r = OK"
    and "rq_request rq \<in> {ALLOCATE, WRITE, RELEASE}" "benign ef" "lock_inv m" "rq_tid rq \<noteq> 0"
  shows "readers (holders m' (rq_block rq)) = [] \<and> writer (holders m' (rq_block rq)) = rq_tid rq \<and>
    (\<forall>x. holds m (rq_block rq) x \<longrightarrow> x \<noteq> rq_tid rq \<longrightarrow> stat_of m' x = Some PREEMPTED)"
  by (rule exclusive_granted [OF assms])

lemma exclusive_grant_witness:
  "\<exists>m' r. process_clientrq front_zero (\<lambda>_. 12) (rq_of 1 5 WRITE 1) 5 (tables younger_writer) = Ret (m', r) \<and>
     writer (holders m' 1) = 1 \<and> stat_of m' 2 = Some PREEMPTED"
proof -
  have e: "case process_clientrq front_zero (\<lambda>_. 12) (rq_of 1 5 WRITE 1) 5 (tables younger_writer) of
      Ret (m', r) \<Rightarrow> rq_reply r = OK | _ \<Rightarrow> False"
    unfolding younger_writer_tables by code_simp
  have h: "holds (tables younger_writer) 1 2" by (simp add: younger_writer_tables holds_def holders_def)
  from e obtain m' r where p: "process_clientrq front_zero (\<lambda>_. 12) (rq_of 1 5 WRITE 1) 5 (tables younger_writer) = Ret (m', r)"
    "rq_reply r = OK" by (auto split: outcome.splits)
  from exclusive_grant [OF p _ benign_front_zero tables_inv(2)] p h show ?thesis by auto
qed

text \<open>C12: A refused lock request is justified by a holder of the block that is committing on it or that is not younger than the requester and within its time slice.\<close>

theorem refusal_justified:
  assumes "process_clientrq ef clk rq who m = Ret (m', r)" "rq_reply r = NOT_OK"
    and "rq_request rq \<in> {ALLOCATE, READ, WRITE, RELEASE}"
  shows "\<exists>i h. holds m (rq_block rq) h \<and> known m h \<and>
    (stat_of m h = Some COMMITTING \<and> writer (holders m (rq_block rq)) = h \<or>
     h \<le> rq_tid rq \<and> \<not> expired m h (clk i))"
  using lock_refused [OF assms] by (simp add: justifies_def)

lemma refusal_justified_witness:
  "\<exists>h. holds (tables older_writer) 1 h"
proof -
  have "case process_clientrq front_zero (\<lambda>_. 12) (rq_of 2 6 WRITE 1) 6 (tables older_writer) of
      Ret (m', r) \<Rightarrow> rq_reply r = NOT_OK | _ \<Rightarrow> False"
    unfolding older_writer_tables by code_simp
  then obtain m' r where p: "process_clientrq front_zero (\<lambda>_. 12) (rq_of 2 6 WRITE 1) 6 (tables older_writer) = Ret (m', r)"
    "rq_reply r = NOT_OK" by (auto split: outcome.splits)
  from refusal_justified [OF p] show ?thesis by auto
qed

text \<open>C13: In every reachable state a block with a writer has no readers, every holder is a live transaction, and live transaction numbers lie strictly between 0 and next_tid.\<close>

theorem tables_invariant:
  assumes "reachable ef s"
  shows "(\<forall>b. writer (holders (sv s) b) \<noteq> 0 \<longrightarrow> readers (holders (sv s) b) = []) \<and>
    (\<forall>b t. holds (sv s) b t \<longrightarrow> known (sv s) t) \<and>
    (\<forall>t. known (sv s) t \<longrightarrow> 0 < t \<and> t < next_tid (sv s))"
  using reachable_inv [OF assms]
  by (auto simp: mon_inv_def lock_inv_def holder_ok_def block_live_def tids_ok_def word_neq_0_conv)

lemma tables_invariant_witness:
  "writer (holders (tables older_writer) 1) = 1 \<and> readers (holders (tables older_writer) 1) = []"
proof -
  have "writer (holders (tables older_writer) 1) = 1" by (simp add: older_writer_tables holders_def)
  then show ?thesis using tables_invariant [OF reached, of older_writer] by (simp add: tables_def)
qed

text \<open>C14: Once preempted, a transaction gets DIE for every later request, the tables do not change, and no request of another client revives it.\<close>

theorem preempted_dies:
  assumes "mon_inv m" "stat_of m t = Some PREEMPTED"
  shows "(rq_request rq \<noteq> BEGIN \<and> rq_tid rq = t \<longrightarrow>
      process_clientrq ef clk rq who m = Ret (m, swapped_reply rq DIE)) \<and>
    (\<forall>m' r. process_clientrq ef clk rq who m = Ret (m', r) \<longrightarrow> stat_of m' t = Some PREEMPTED)"
  using preempted_answer [of rq m] preempted_forever [OF _ assms] assms(2) by (auto simp: preempted_stat_of)

lemma preempted_dies_witness:
  "process_clientrq front_zero (\<lambda>_. 13) (rq_of 2 6 COMMIT 0) 6 (tables evicted_writer) =
     Ret (tables evicted_writer, swapped_reply (rq_of 2 6 COMMIT 0) DIE)"
  using preempted_dies [OF tables_inv(1), of evicted_writer 2 "rq_of 2 6 COMMIT 0"]
  by (simp add: evicted_writer_tables stat_of_def)

text \<open>C15: A committing transaction that holds no read lock keeps its status under every request of other clients.\<close>

theorem committing_writer_safe:
  assumes "process_clientrq ef clk rq who m = Ret (m', r)" "mon_inv m"
    and "stat_of m x = Some COMMITTING" "x \<noteq> rq_tid rq" "\<forall>b. x \<notin> set (readers (holders m b))"
  shows "stat_of m' x = Some COMMITTING"
  using process_committing [OF assms(1-3)] assms(4,5) by blast

lemma committing_writer_safe_witness:
  "\<exists>m' r. process_clientrq front_zero (\<lambda>_. 99) (rq_of 1 5 WRITE 1) 5
       (tables (younger_writer @ [Ask 6 COMMIT 0 12])) = Ret (m', r) \<and> stat_of m' 2 = Some COMMITTING"
proof -
  let ?es = "younger_writer @ [Ask 6 COMMIT 0 12]"
  have t: "tables ?es = \<lparr>next_tid = 3, transactions = [(5, 1), (6, 2)],
    status = [(1, \<lparr>ts_pid = 5, ts_block = 0, started = 10, stat = BEGUN\<rparr>),
              (2, \<lparr>ts_pid = 6, ts_block = 1, started = 11, stat = COMMITTING\<rparr>)],
    blockmap = [(1, \<lparr>readers = [], writer = 2\<rparr>)]\<rparr>"
    by code_simp
  have r: "\<forall>b. 2 \<notin> set (readers (holders (tables ?es) b))"
    by (simp add: t holders_def split: option.splits)
  obtain m' r where p: "process_clientrq front_zero (\<lambda>_. 99) (rq_of 1 5 WRITE 1) 5 (tables ?es) = Ret (m', r)"
    using process_total [OF tables_inv(1), of front_zero "\<lambda>_. 99" "rq_of 1 5 WRITE 1" 5 ?es]
    by (auto simp: returns_Ret)
  from committing_writer_safe [OF p tables_inv(1) _ _ r] p show ?thesis by (auto simp: t stat_of_def)
qed

text \<open>C16: A status changes only to PREEMPTED or, for the requesting transaction, to the state of the request that was granted; ENDED is reached from COMMITTING only.\<close>

theorem status_changes_explained:
  assumes "process_clientrq ef clk rq who m = Ret (m', r)" "stat_of m' t \<noteq> stat_of m t"
    and "stat_of m' t \<noteq> Some PREEMPTED" "mon_inv m"
  shows "t = (if rq_request rq = BEGIN then next_tid m else rq_tid rq) \<and>
    stat_of m' t = Some (case rq_request rq of
        BEGIN \<Rightarrow> BEGUN | ALLOCATE \<Rightarrow> ALLOCATED | READ \<Rightarrow> READING | WRITE \<Rightarrow> WRITING
      | RELEASE \<Rightarrow> RELEASING | COMMIT \<Rightarrow> COMMITTING | ABORT \<Rightarrow> ABORTING
      | RESTART \<Rightarrow> RESTARTING | END \<Rightarrow> ENDED) \<and>
    (rq_request rq = END \<longrightarrow> stat_of m t = Some COMMITTING) \<and> rq_reply r = OK"
  by (rule status_origin [OF assms])

lemma status_changes_explained_witness:
  "\<exists>m' r. process_clientrq front_zero (\<lambda>_. 12) (rq_of 1 5 COMMIT 0) 5 (tables one_client) = Ret (m', r) \<and>
     stat_of m' 1 = Some COMMITTING \<and> rq_reply r = OK"
proof -
  let ?rq = "rq_of 1 5 COMMIT 0"
  have p: "process_clientrq front_zero (\<lambda>_. 12) ?rq 5 (tables one_client) =
      Ret (set_stat 1 COMMITTING (tables one_client), swapped_reply ?rq OK)"
    by (simp add: process_clientrq_def preempted_def dispatch_rq_def commit_rq_def one_client_tables)
  have "stat_of (set_stat 1 COMMITTING (tables one_client)) 1 = Some COMMITTING"
    "stat_of (tables one_client) 1 = Some BEGUN"
    by (simp_all add: one_client_tables stat_of_def set_stat_def mupd_def)
  with status_changes_explained [OF p _ _ tables_inv(1), of 1] p show ?thesis by auto
qed

text \<open>C17: After a disconnect the transaction is in no table, and no lock or status of another transaction has changed.\<close>

theorem disconnect_cleans_up:
  assumes "mon_inv m" "mfind (transactions m) who = Some t"
  shows "\<not> known (drop_client who t m) t \<and> (\<forall>b. \<not> holds (drop_client who t m) b t) \<and>
    (\<forall>c. mfind (transactions (drop_client who t m)) c \<noteq> Some t) \<and>
    (\<forall>x b. x \<noteq> t \<longrightarrow> holds (drop_client who t m) b x = holds m b x) \<and>
    (\<forall>x. x \<noteq> t \<longrightarrow> stat_of (drop_client who t m) x = stat_of m x)"
  using drop_client_clean [OF assms] by blast

lemma disconnect_cleans_up_witness:
  "\<not> holds (drop_client 5 1 (tables older_writer)) 1 1 \<and> holds (tables older_writer) 1 1"
  using disconnect_cleans_up [OF tables_inv(1), of older_writer 5 1]
  by (simp add: older_writer_tables holds_def holders_def)

section \<open>The daemon and its messages\<close>

text \<open>C18: As long as every message the daemon reads is one that the library sends, its lock tables are a reachable state of the session model, so isolation, the table invariant and the lemmas about grants hold of the running daemon; and select watches only descriptors below FD_SETSIZE and nfds that are the listening socket or in clients.\<close>

theorem daemon_runs_sessions:
  assumes "daemon_reaches (polite_at S) S ef clk s"
  shows "(\<exists>ses. reachable ef ses \<and> sv ses = mon (lsrv s)) \<and> everyone s \<subseteq> insert (msock s) (set (clients s)) \<and>
    (\<forall>f \<in> everyone s. 0 \<le> f \<and> f < FD_SETSIZE \<and> f < maxfd s + 1)"
  using daemon_reaches_laws [OF assms] by (auto simp: in_session_def fds_ok_def)

lemma daemon_runs_sessions_witness:
  "\<exists>ses. monitor_round queue_sockets front_zero (\<lambda>_ _. 10) no_faults (daemon_at one_waits [5]) = Done () served_one \<and>
     mfind (transactions (mon (lsrv served_one))) 5 = Some 1 \<and> 5 \<in> everyone served_one \<and>
     reachable front_zero ses \<and> sv ses = mon (lsrv served_one)"
proof -
  have "5 \<in> everyone served_one" by (simp add: served_one_def)
  then show ?thesis using daemon_runs_sessions [OF one_reached] one_served by auto
qed



text \<open>C20: A request whose bytes arrive in one piece: the daemon writes exactly the reply of the exchange that the model of the client library uses, its state moves as in that exchange, and the client decodes the reply it was meant to get.\<close>

theorem request_over_wire:
  assumes "sys_recv S c TRQ_SIZE (os (net s)) = Ret (Some (encode_wire (to_wire rq)), x)"
    and "int32 (rq_block rq)" "rq_reply rq = OK" "length (scratch s) = TRQ_SIZE"
    and "mon_ask ef (clk (ticks s)) c rq d (Up (lsrv s)) = Ret (r, d', Up v)"
    and "sys_send S c (encode_wire (to_wire r)) x = Ret (True, y)"
  shows "serve_client S ef clk bad c s =
      Done () (s\<lparr>net := (net s)\<lparr>os := y\<rparr>, lsrv := v, scratch := encode_wire (to_wire rq), ticks := Suc (ticks s)\<rparr>) \<and>
    of_wire (decode_wire (encode_wire (to_wire r))) = Some r"
  using whole_request [where clk = clk and s = s, OF assms] by blast

lemma request_over_wire_witness:
  "\<exists>s'. serve_client queue_sockets front_zero (\<lambda>_ _. 10) no_faults 5 (daemon_at one_waits [5]) = Done () s' \<and>
     sent (os (net s')) = [(5, encode_wire (to_wire (rq_of 1 5 BEGIN 0)))]"
proof -
  let ?s = "daemon_at one_waits [5]" and ?h = "one_waits\<lparr>inbox := (\<lambda>_. [])\<rparr>"
  have r: "sys_recv queue_sockets 5 TRQ_SIZE (os (net ?s)) =
      Ret (Some (encode_wire (to_wire (rq_of 0 5 BEGIN 0))), ?h)"
    using one_waits_recv by (simp add: queue_sockets_def begin_bytes_def)
  have i: "int32 (rq_block (rq_of 0 5 BEGIN 0))" "rq_reply (rq_of 0 5 BEGIN 0) = OK" "length (scratch ?s) = TRQ_SIZE"
    by (simp_all add: int32_def rq_of_def)
  let ?b = "encode_wire (to_wire (rq_of 1 5 BEGIN 0))"
  let ?v = "\<lparr>mon = fst (begin_rq (\<lambda>_. 10) (rq_of 0 5 BEGIN 0) 5 init_monitor), lgr = \<lparr>logfd = 0, dsk = initstore\<rparr>\<rparr>"
  have m: "mon_ask front_zero ((\<lambda>_ _. 10) (ticks ?s)) 5 (rq_of 0 5 BEGIN 0) initstore (Up (lsrv ?s)) =
      Ret (rq_of 1 5 BEGIN 0, initstore, Up ?v)"
    using begin_exchange by (simp add: daemon_at_def)
  have "sys_send queue_sockets 5 ?b ?h = Ret (True, ?h\<lparr>sent := sent ?h @ [(5, ?b)]\<rparr>)"
    by (simp add: queue_sockets_def host_send_def one_waits_def)
  from request_over_wire [where clk = "\<lambda>_ _. 10", OF r i m this, of no_faults]
  show ?thesis by (simp add: one_waits_def quiet_host_def)
qed

text \<open>C21: A request and its reply over a connected pair of sockets that delivers what is sent in order and in one piece: the client sends the bytes of its request with writeSocket, the daemon reads and serves it, and readSocket in the client then fills its buffer, whatever it held, with the bytes of exactly the reply of the exchange that the model of the library uses; the tables of the daemon have moved as in that exchange and no byte is left over on either side.\<close>

theorem exchange_roundtrip:
  assumes "stream_sockets S peer linked pend"
    and "linked x c" "pend x c = []" "pend x (peer c) = []"
    and "int32 (rq_block rq)" "rq_reply rq = OK" "length (scratch s) = TRQ_SIZE" "length buf = TRQ_SIZE"
    and "mon_ask ef (clk (ticks s)) (peer c) rq d (Up (lsrv s)) = Ret (r, d', Up v)"
  shows "\<exists>y s' buf' z. writeSocket S c (to_wire rq) \<lparr>os = x, tcp = k\<rparr> = Done () \<lparr>os = y, tcp = k\<rparr> \<and>
    serve_client S ef clk bad (peer c) (s\<lparr>net := (net s)\<lparr>os := y\<rparr>\<rparr>) = Done () s' \<and> lsrv s' = v \<and>
    readSocket S c buf \<lparr>os = os (net s'), tcp = k\<rparr> = Done (TRQ_SIZE, buf') \<lparr>os = z, tcp = k\<rparr> \<and>
    of_wire (decode_wire buf') = Some r \<and> linked z = linked x \<and> pend z = pend x"
  by (rule stream_sockets.exchange [where clk = clk and linked = linked and pend = pend and peer = peer and c = c and x = x, OF assms])

lemma exchange_roundtrip_witness:
  "\<exists>y s' buf' z. writeSocket pipe_sockets 4 (to_wire (rq_of 0 5 BEGIN 0)) \<lparr>os = (\<lambda>_. []), tcp = new_transport\<rparr> =
      Done () \<lparr>os = y, tcp = new_transport\<rparr> \<and>
    serve_client pipe_sockets front_zero (\<lambda>_ _. 10) no_faults 5 (piped_daemon\<lparr>net := (net piped_daemon)\<lparr>os := y\<rparr>\<rparr>) = Done () s' \<and>
    mfind (transactions (mon (lsrv s'))) 5 = Some 1 \<and>
    readSocket pipe_sockets 4 (replicate TRQ_SIZE 255) \<lparr>os = os (net s'), tcp = new_transport\<rparr> =
      Done (TRQ_SIZE, buf') \<lparr>os = z, tcp = new_transport\<rparr> \<and>
    of_wire (decode_wire buf') = Some (rq_of 1 5 BEGIN 0)"
proof -
  let ?v = "\<lparr>mon = fst (begin_rq (\<lambda>_. 10) (rq_of 0 5 BEGIN 0) 5 init_monitor), lgr = \<lparr>logfd = 0, dsk = initstore\<rparr>\<rparr>"
  have p: "other_end 4 = 5" by (simp add: other_end_def)
  have i: "int32 (rq_block (rq_of 0 5 BEGIN 0))" "rq_reply (rq_of 0 5 BEGIN 0) = OK" "length (scratch piped_daemon) = TRQ_SIZE"
    "length (replicate TRQ_SIZE (255 :: byte)) = TRQ_SIZE"
    by (simp_all add: int32_def rq_of_def piped_daemon_def)
  have m: "mon_ask front_zero ((\<lambda>_ _. 10) (ticks piped_daemon)) (other_end 4) (rq_of 0 5 BEGIN 0) initstore (Up (lsrv piped_daemon)) =
      Ret (rq_of 1 5 BEGIN 0, initstore, Up ?v)"
    using begin_exchange by (simp add: p piped_daemon_def)
  have "mfind (transactions (mon ?v)) 5 = Some 1" by (simp add: begin_rq_def Let_def init_monitor_def rq_of_def)
  then show ?thesis
    using exchange_roundtrip [where clk = "\<lambda>_ _. 10" and x = "\<lambda>_. []" and k = new_transport and bad = no_faults,
        OF pipe.stream_sockets_axioms _ _ _ i m]
    unfolding p by fastforce
qed

text \<open>C22: The early exit of the client loop, which the source calls an optimisation: while no descriptor is listed twice and select returns the number of ready descriptors, the loop with the break serves the same clients in the same order, with the same result, as the loop without it.\<close>

theorem break_is_optimisation:
  assumes "finite rd" "rd \<subseteq> insert (msock s) (set (clients s))" "distinct (clients s)"
    and "msock s \<notin> set (clients s)"
    and "\<And>c a x. sys_accept S (msock s) (os (net s)) = Ret (c, a, x) \<Longrightarrow> c \<notin> insert (msock s) (set (clients s))"
  shows "after_select S serve rd (int (card rd)) s =
    pseq (if msock s \<in> rd then accept_client S else Done ())
      (\<lambda>s1. serve_all serve rd (clients s1) s1) s"
  using after_select_patient [OF assms] by (simp add: patient_round_def)

lemma break_is_optimisation_witness:
  "after_select queue_sockets (serve_client queue_sockets front_zero (\<lambda>_ _. 10) no_faults) {5, 6} 2 (daemon_at one_waits [6, 5, 7]) =
     serve_all (serve_client queue_sockets front_zero (\<lambda>_ _. 10) no_faults) {5, 6} [6, 5, 7] (daemon_at one_waits [6, 5, 7])"
proof -
  let ?s = "daemon_at one_waits [6, 5, 7]"
  let ?serve = "serve_client queue_sockets front_zero (\<lambda>_ _. 10) no_faults"
  have "\<And>c a x. sys_accept queue_sockets 3 one_waits \<noteq> Ret (c, a, x)"
    by (simp add: queue_sockets_def host_accept_def waiting_def one_waits_def quiet_host_def)
  then show ?thesis
    using break_is_optimisation [of "{5, 6}" ?s queue_sockets "?serve"] by (simp add: pseq_Done)
qed

section \<open>The log\<close>



text \<open>C24: Online rollback fails to terminate exactly when the log holds neither a BEGIN nor an END record of the transaction.\<close>

theorem rollback_loops_exactly_when:
  assumes "log_f (dsk s) \<noteq> []" "\<forall>r \<in> set (own_recs t (log_f (dsk s))). rec_ok (dsk s) r"
  shows "rollback no_faults t s = Loop \<longleftrightarrow> (\<forall>r \<in> set (log_f (dsk s)). \<not> ends_walk t r)"
  by (rule rollback_loops_iff [OF assms])

lemma rollback_loops_exactly_when_witness:
  "rollback no_faults 8 \<lparr>logfd = 0, dsk = initstore\<lparr>log_f := [end_record 7]\<rparr>\<rparr> = Loop"
  using rollback_loops_exactly_when [of "\<lparr>logfd = 0, dsk = initstore\<lparr>log_f := [end_record 7]\<rparr>\<rparr>" 8]
  by (simp add: end_record_def ends_walk_def)

text \<open>C25: The map that offline recovery builds in one forward pass assigns to each transaction exactly its records after its last END or ABORT, and has no entry where there are none.\<close>

theorem recovery_collects_open:
  "mfind (collect recs) t =
     (let own = filter (\<lambda>r. lr_tid r = t) recs;
          open_recs = rev (takeWhile (\<lambda>r. lr_action r \<noteq> LEND \<and> lr_action r \<noteq> LABORT) (rev own))
      in if open_recs = [] then None else Some open_recs)"
  using mfind_collect [of recs t] by (simp add: open_tail_def closes_def Let_def)

section \<open>The library and the test programs\<close>

text \<open>C26: What a program displays: when a program passes End(T), with any number of restarts before, the output of its last attempt is that of a run of its body alone on a map from blocks to contents, and the datastore then holds what that same run makes of it.\<close>

theorem printed_is_serial:
  assumes "attempt_start who N d s" "unat N + (6 - unat (last_sleep s)) < 2 ^ 64 - 1" "positive (erase prg)"
    and "show_loop (monitor_tpm ef clk no_faults who) bad p prg s = Some (Done u s', out)"
    and "mon_bye no_faults who (files s') (srv s') = (d', dm)"
  shows "\<exists>\<sigma> before last. out = before @ last \<and> prints prg (store_view d) \<sigma> last \<and> (\<forall>b. store_view d' b = \<sigma> b)"
  using printed_loop [OF assms(1) assms(2) [folded tries_left_def] assms(3,4)] assms(5) by simp

lemma printed_is_serial_witness:
  "\<exists>s' d' dm b. show_loop mon_tpm no_faults 5 (st1_loop (Suc 0)) first_process =
      Some (Done () s', [Shown (endl (''Allocated block #'' @ dec_int b))]) \<and>
     mon_bye no_faults 5 (files s') (srv s') = (d', dm) \<and> store_view initstore b = None \<and> store_view d' b = Some zeros"
proof -
  obtain s' where "run_once mon_tpm no_faults 5 (exec mon_tpm no_faults (erase (st1_loop (Suc 0)))) first_process = Done () s'"
    using first_transaction by (auto simp: take_one_def)
  then have s': "show_loop mon_tpm no_faults 5 (st1_loop (Suc 0)) first_process =
      Some (Done () s', [Shown (endl (''Allocated block #'' @ dec_int 1))])"
    by (subst show_loop.simps) (simp add: show_once_def first_construct then_show_def first_block)
  obtain d' dm where b: "mon_bye no_faults 5 (files s') (srv s') = (d', dm)" by fastforce
  have "unat (1 :: trid_t) + (6 - unat (last_sleep first_process)) < 2 ^ 64 - 1"
    by (simp add: first_process_def new_process_def)
  from printed_is_serial [OF first_start this _ s' b] obtain \<sigma> before last
    where p: "[Shown (endl (''Allocated block #'' @ dec_int 1))] = before @ last"
      "prints (st1_loop (Suc 0)) (store_view initstore) \<sigma> last" "\<forall>b. store_view d' b = \<sigma> b"
    by auto
  from p(2) obtain c where "store_view initstore c = None" "\<sigma> = (store_view initstore)(c \<mapsto> zeros)"
      "last = [Shown (endl (''Allocated block #'' @ dec_int c))]"
    by (auto elim!: printsE)
  then show ?thesis using s' b p by (intro exI [of _ s'] exI [of _ d'] exI [of _ dm] exI [of _ c]) auto
qed





text \<open>C29: Back-off over the whole life of a process: starting with last_sleep 0, however many transactions it runs one after the other in the way of st2 and whatever the monitor answers, when the process has come to an end last_sleep has counted its calls of backoff_sleep, at most seven, and it has slept 2^0, 2^1, ... seconds, once for each of the first six of them: less than 64 seconds.\<close>

theorem life_sleeps_bounded:
  assumes "last_sleep s = 0" "sleeps s = []" "run_all T bad p scrs s = Some r" "final r = Some s'"
  shows "\<exists>n \<le> 7. last_sleep s' = of_nat n \<and> map unat (sleeps s') = map (\<lambda>i. 2 ^ i) [0..<min 6 n] \<and>
    sum_list (map unat (sleeps s')) < 64"
proof -
  have "counted s" using assms(1,2) by (auto simp: counted_def powers_def intro: exI [of _ 0])
  then obtain n where "n \<le> 7" "last_sleep s' = of_nat n" "sleeps s' = powers (min 6 n)"
    using life_counted [OF _ assms(3,4)] by (auto simp: slept_def)
  then show ?thesis using powers_sum [of "min 6 n"] by (metis min.cobounded1)
qed

lemma life_sleeps_bounded_witness:
  "\<exists>s'. run_all refusing_tpm no_faults 5 [read_one] (new_process one_block ()) = Some (Quit s') \<and>
     map unat (sleeps s') = [1, 2, 4, 8, 16, 32] \<and> sum_list (map unat (sleeps s')) < 64"
proof -
  let ?s = "new_process one_block ()"
  obtain s' where s': "transaction_loop refusing_tpm no_faults 5 (exec refusing_tpm no_faults read_one) ?s = Some (Quit s')"
    "sleeps s' = powers 6"
    using refused_loop [of 0 ?s] by (auto simp: new_process_def powers_def)
  then have r: "run_all refusing_tpm no_faults 5 [read_one] ?s = Some (Quit s')" by simp
  have a: "sum_list (map unat (sleeps s')) < 64"
    using life_sleeps_bounded [OF _ _ r] by (auto simp: new_process_def)
  have b: "map unat (sleeps s') = [1, 2, 4, 8, 16, 32]" unfolding s'(2) by (rule powers_six)
  show ?thesis by (rule exI [of _ s'], intro conjI r a b)
qed

text \<open>C30: From a client state in order the destructor deletes every buffer of the block map exactly once, whether data and oldval share it or not, and no other buffer.\<close>

theorem buffers_deleted_once:
  assumes "client_ok s"
  shows "\<exists>h'. free_entries (bmap s) s = Done () (s\<lparr>heap := h'\<rparr>) \<and>
    (\<forall>q. live h' q \<longleftrightarrow> live (heap s) q \<and> (\<forall>b mb. mfind (bmap s) b = Some mb \<longrightarrow> q \<notin> {data mb, oldval mb}))"
  using free_entries_ok [OF assms refl] by (simp add: buffers_def)

lemma buffers_deleted_once_witness:
  "\<exists>h'. free_entries (bmap (writer_of ())) (writer_of ()) = Done () ((writer_of ())\<lparr>heap := h'\<rparr>) \<and>
     \<not> live h' (Some 0)"
proof -
  obtain h' where h: "free_entries (bmap (writer_of ())) (writer_of ()) = Done () ((writer_of ())\<lparr>heap := h'\<rparr>)"
    "\<forall>q. live h' q \<longleftrightarrow> live (heap (writer_of ())) q \<and>
      (\<forall>b mb. mfind (bmap (writer_of ())) b = Some mb \<longrightarrow> q \<notin> {data mb, oldval mb})"
    using buffers_deleted_once [OF writer_ok, of "()"] by blast
  have "mfind (bmap (writer_of ())) 1 = Some \<lparr>lock = A_LOCK, data = Some 0, oldval = Some 0, oldindex = CHR ''U''\<rparr>"
    by simp
  then have "\<not> live h' (Some 0)" using h(2) by (metis insertI1 mblock.select_convs(2))
  with h(1) show ?thesis by blast
qed

section \<open>Defects\<close>

text \<open>C31: A defect: allocate looks in the index for a free block before it asks for the lock and does not look again, so when another transaction allocates the block, commits and leaves in between, both get the same block.\<close>

theorem allocate_race:
  assumes check: "find_free_block (monitor_tpm ef clk no_faults c) bad s = Done b s1"
    and other: "f (files s1) (srv s1) = (d', Up sr)" "store_view d' b = Some v"
    and grant: "process_clientrq ef clk (rq_of (tid s1) (pid s1) ALLOCATE b) c (mon sr) = Ret (m', r)"
      "rq_reply r = OK"
  shows "\<exists>s'. allocate (meanwhile f (monitor_tpm ef clk no_faults c)) bad s = Done b s' \<and>
    store_view (files s') b = Some v \<and> view s' b = Some zeros"
  using allocate_after_check [OF check meanwhile_grants [where f = f, OF other(1) grant(2,1)]] other(2) by auto

lemma allocate_race_witness:
  "\<exists>s'. allocate (meanwhile first_goes_on mon_tpm6) no_faults second_client = Done 1 s' \<and>
    store_view (files s') 1 = Some zeros \<and> view s' 1 = Some zeros"
proof -
  let ?s = "second_client\<lparr>last_free_block := 1\<rparr>"
  obtain d sr where o: "first_goes_on initstore (Up pair_server) = (d, Up sr)" "mon sr = left_tables"
    "store_view d 1 = Some zeros"
    using first_went_on by blast
  obtain m r where g: "process_clientrq front_zero (\<lambda>_. 10) (rq_of 2 6 ALLOCATE 1) 6 left_tables = Ret (m, r)"
    "rq_reply r = OK"
    using second_grant by blast
  have "files ?s = initstore" "srv ?s = Up pair_server" "tid ?s = 2" "pid ?s = 6"
    by (simp_all add: second_client_def new_process_def)
  then show ?thesis
    using allocate_race [OF second_search, of first_goes_on d sr zeros m r] o g by simp
qed

text \<open>C32: A defect: a monitor that is started again numbers transactions from 1 over the same log, so when a client dies in its commit and the END record of an older transaction with its number stands behind its own records, neither client_disconnect nor recover undoes anything, and the half commit stays.\<close>

theorem reused_number_hides_crash:
  assumes "mfind (transactions (mon sr)) who = Some t" "stat_of (mon sr) t = Some COMMITTING"
    and "log_f (dsk (lgr sr)) = us @ e # ys" "lr_tid e = t" "lr_action e = LEND" "\<forall>r \<in> set ys. lr_tid r \<noteq> t"
    and "\<forall>x. x \<noteq> t \<longrightarrow> x \<notin> mdom (collect (log_f (dsk (lgr sr))))"
  shows "client_disconnect no_faults who sr = Done () (sr\<lparr>mon := drop_client who t (mon sr)\<rparr>) \<and>
    recover_main no_faults (dsk (lgr sr)) = Done () \<lparr>logfd = 0, dsk = dsk (lgr sr)\<rparr>"
proof
  note h = old_end_hides [OF assms(3-6)]
  obtain q where "mfind (status (mon sr)) t = Some q" "stat q = COMMITTING"
    using assms(2) by (auto simp: stat_of_def)
  then show "client_disconnect no_faults who sr = Done () (sr\<lparr>mon := drop_client who t (mon sr)\<rparr>)"
    using h assms(1) by (simp add: client_disconnect_def run_logger_def pseq_def pbind_def)
  have "collect (log_f (dsk (lgr sr))) = []"
    using h assms(7) by (simp add: collect_empty_iff mdom_collect) metis
  then show "recover_main no_faults (dsk (lgr sr)) = Done () \<lparr>logfd = 0, dsk = dsk (lgr sr)\<rparr>"
    by (rule recover_closed)
qed

lemma reused_number_hides_crash_witness:
  "\<exists>s' sr. commit mon_tpm {WriteStore 1} second_life = Throw TE_ABORT s' \<and> dsk (lgr sr) = files s' \<and>
     store_view (files second_life) 1 = None \<and> view second_life 1 = Some (block_of (CHR ''X'')) \<and>
     client_disconnect no_faults 5 sr = Done () (sr\<lparr>mon := drop_client 5 1 (mon sr)\<rparr>) \<and>
     store_view (files s') 1 = Some zeros"
proof -
  obtain s' where s': "commit mon_tpm {WriteStore 1} second_life = Throw TE_ABORT s'"
    "log_f (files s') = [begin_record 1, mk_record 1 LALLOCATE 1 (CHR '' '') None, mk_record 1 LREAD 3 (CHR '' '') None] @ [end_record 1]"
    "store_view (files s') 1 = Some zeros"
    using second_life_stops by auto
  let ?sr = "\<lparr>mon = set_stat 1 COMMITTING (tables one_client), lgr = \<lparr>logfd = 0, dsk = files s'\<rparr>\<rparr>"
  have m: "mfind (transactions (mon ?sr)) 5 = Some 1" "stat_of (mon ?sr) 1 = Some COMMITTING"
    by (simp_all add: one_client_tables set_stat_def stat_of_def)
  have e: "lr_tid (end_record 1) = 1" "lr_action (end_record 1) = LEND" "lr_tid (begin_record 1) = 1"
    by (simp_all add: end_record_def begin_record_def)
  have o: "\<forall>x. x \<noteq> 1 \<longrightarrow> x \<notin> mdom (collect (log_f (dsk (lgr ?sr))))"
    using e by (simp add: mdom_collect open_tail_def s'(2))
  have "client_disconnect no_faults 5 ?sr = Done () (?sr\<lparr>mon := drop_client 5 1 (mon ?sr)\<rparr>)"
    using reused_number_hides_crash [of ?sr 5 1 _ "end_record 1" "[]", OF m _ e(1,2) _ o] s'(2) by auto
  then show ?thesis using s'(1,3) second_life_before by (intro exI [of _ s'] exI [of _ ?sr]) simp
qed

text \<open>C33: A defect: a committing transaction is not safe while it holds a read lock. When all readers of a block are committing or not older than the requester, any WRITE, ALLOCATE or RELEASE of another transaction for that block is granted and marks the committing reader PREEMPTED; its END request is then answered DIE, and its disconnect drops it without a rollback although it has written.\<close>

theorem committing_reader_killed:
  assumes "mon_inv m" "benign ef" "library_request m rq who" "rq_request rq \<in> {ALLOCATE, WRITE, RELEASE}"
    and "\<not> preempted (rq_tid rq) m" "x \<noteq> rq_tid rq" "mfind (transactions m) c = Some x"
    and "stat_of m x = Some COMMITTING" "x \<in> set (readers (holders m (rq_block rq)))"
    and "\<forall>y \<in> set (readers (holders m (rq_block rq))). stat_of m y = Some COMMITTING \<or> rq_tid rq \<le> y"
  shows "\<exists>m'. process_clientrq ef clk rq who m = Ret (m', swapped_reply rq OK) \<and>
    stat_of m' x = Some PREEMPTED \<and>
    (\<forall>clk' rq'. rq_request rq' = END \<and> rq_tid rq' = x \<longrightarrow>
       process_clientrq ef clk' rq' c m' = Ret (m', swapped_reply rq' DIE)) \<and>
    client_disconnect bad c \<lparr>mon = m', lgr = l\<rparr> = Done () \<lparr>mon = drop_client c x m', lgr = l\<rparr>"
  using committing_reader_dies [OF assms(1-5) assms(9,6,10,7), of clk bad l] by blast

lemma committing_reader_killed_witness:
  "\<exists>m'. process_clientrq front_zero (\<lambda>_. 12) (rq_of 1 5 WRITE 1) 5 (tables reader_commits) =
      Ret (m', swapped_reply (rq_of 1 5 WRITE 1) OK) \<and> stat_of m' 2 = Some PREEMPTED \<and>
     client_disconnect no_faults 6 \<lparr>mon = m', lgr = \<lparr>logfd = 0, dsk = initstore\<rparr>\<rparr> =
       Done () \<lparr>mon = drop_client 6 2 m', lgr = \<lparr>logfd = 0, dsk = initstore\<rparr>\<rparr>"
proof -
  let ?m = "tables reader_commits" and ?rq = "rq_of 1 5 WRITE 1"
  have f: "library_request ?m ?rq 5" "rq_request ?rq \<in> {ALLOCATE, WRITE, RELEASE}" "\<not> preempted (rq_tid ?rq) ?m"
    "2 \<noteq> rq_tid ?rq" "mfind (transactions ?m) 6 = Some 2" "stat_of ?m 2 = Some COMMITTING"
    "readers (holders ?m 1) = [2]"
    unfolding library_request_def rq_of_def by code_simp+
  from committing_reader_killed [OF tables_inv(1) benign_front_zero f(1-6)] f(6,7) show ?thesis by fastforce
qed

text \<open>C34: A defect of the reply format: every reply but the one to BEGIN carries the process number, sign-extended to 64 bits, in the tid field and the low 32 bits of the transaction number in the pid field.\<close>

theorem reply_swaps_numbers:
  assumes "process_clientrq ef clk rq who m = Ret (m', r)" "rq_request rq \<noteq> BEGIN"
  shows "rq_tid r = scast (rq_pid rq) \<and> rq_pid r = ucast (rq_tid rq) \<and>
    rq_request r = rq_request rq \<and> rq_block r = rq_block rq"
  using reply_fields [OF assms] by (simp add: pid_to_trid_def trid_to_pid_def)

lemma reply_swaps_numbers_witness:
  "\<exists>m' r. process_clientrq front_zero (\<lambda>_. 12) (rq_of 2 6 READ 1) 6 (tables older_writer) = Ret (m', r) \<and>
     rq_tid r = 6 \<and> rq_pid r = 2"
proof -
  obtain m' r where p: "process_clientrq front_zero (\<lambda>_. 12) (rq_of 2 6 READ 1) 6 (tables older_writer) = Ret (m', r)"
    using process_total [OF tables_inv(1), of front_zero "\<lambda>_. 12" "rq_of 2 6 READ 1" 6 older_writer]
    by (auto simp: returns_Ret)
  have "(scast (6 :: 32 word) :: 64 word) = 6" "(ucast (2 :: 64 word) :: 32 word) = 2" by simp_all
  with reply_swaps_numbers [OF p] p show ?thesis by auto
qed

text \<open>C35: A defect: a client that dies after its COMMIT request was granted but before its first log record sends the monitor into an endless rollback, and every later request of any client goes unanswered.\<close>

theorem early_death_blocks_monitor:
  assumes "mfind (transactions (mon sr)) who = Some t" "stat_of (mon sr) t = Some COMMITTING"
    and "log_f d \<noteq> []" "\<forall>r \<in> set (log_f d). lr_tid r \<noteq> t"
  shows "mon_bye no_faults who d (Up sr) = (d, Stuck) \<and> mon_ask ef clk c rq d Stuck = Diverge"
proof -
  have "rollback no_faults t ((lgr sr)\<lparr>dsk := d\<rparr>) = Loop"
    by (rule rollback_lost) (use assms(3,4) in \<open>auto simp: ends_walk_def\<close>)
  then show ?thesis using bye_committing [OF assms(1,2)] by (simp add: mon_ask_def)
qed

lemma early_death_blocks_monitor_witness:
  "snd (mon_bye no_faults 5 (initstore\<lparr>log_f := [end_record 9]\<rparr>)
     (Up \<lparr>mon = tables (one_client @ [Ask 5 COMMIT 0 12]), lgr = \<lparr>logfd = 0, dsk = initstore\<rparr>\<rparr>)) = Stuck"
proof -
  let ?m = "tables (one_client @ [Ask 5 COMMIT 0 12])"
  let ?d = "initstore\<lparr>log_f := [end_record 9]\<rparr>"
  have "mfind (transactions ?m) 5 = Some 1" "stat_of ?m 1 = Some COMMITTING" by code_simp+
  then show ?thesis
    using early_death_blocks_monitor [of "\<lparr>mon = ?m, lgr = \<lparr>logfd = 0, dsk = initstore\<rparr>\<rparr>" 5 1 ?d]
    by (simp add: end_record_def)
qed

text \<open>C36: A defect: every process writes the log from offset 0, so when one process commits while another has just begun to, the records of the other are gone and its rollback never ends.\<close>

theorem shared_log_overwritten:
  assumes "quiet_tpm T" "client_ok s" "lfd s = 0" "commit T bad s = Done u s'"
    and "length (log_f (files s)) \<le> 2" "t \<noteq> tid s"
  shows "rollback no_faults t \<lparr>logfd = k, dsk = files s'\<rparr> = Loop"
proof -
  have "post True (\<lambda>_. committed s) (\<lambda>_. commit_ends s) (commit T bad s)"
    by (rule quiet_tpm.commit_outcome [OF assms(1-3)])
  then obtain W where w: "log_f (files s') = log_behind (begin_record (tid s) # W @ [end_record (tid s)]) (log_f (files s))"
    "\<forall>r \<in> set W. lr_tid r = tid s"
    using assms(4) by (auto simp: committed_def)
  then have "log_f (files s') = begin_record (tid s) # W @ [end_record (tid s)]"
    using assms(5) by (simp add: log_behind_def)
  then show ?thesis using w(2) assms(6)
    by (intro rollback_lost) (auto simp: ends_walk_def begin_record_def end_record_def)
qed

lemma shared_log_overwritten_witness:
  "\<exists>s'. commit (monitor_tpm front_zero (\<lambda>_. 12) no_faults 5) no_faults late_writer = Done () s' \<and>
     log_f (files late_writer) = [begin_record 9] \<and> rollback no_faults 9 \<lparr>logfd = 0, dsk = files s'\<rparr> = Loop"
proof -
  have w: "client_ok late_writer" "lfd late_writer = 0" "srv late_writer = Up young_server"
    "stat_of (mon young_server) (tid late_writer) = Some BEGUN" "tid late_writer = 1"
    "log_f (files late_writer) = [begin_record 9]"
    using late_writer_ok young_entry by simp_all
  obtain s' where s': "commit (monitor_tpm front_zero (\<lambda>_. 12) no_faults 5) no_faults late_writer = Done () s'"
    using commit_succeeds [OF w(1-4), of front_zero "\<lambda>_. 12" no_faults 5] by auto
  from shared_log_overwritten [OF mq.quiet_tpm_axioms w(1,2) s', of 9 0] s' w(5,6) show ?thesis by auto
qed

text \<open>C37: A defect: a call with block number 0 or less throws TE_ABORT without setting the error flag, so the destructor commits the transaction that is being aborted.\<close>

theorem invalid_block_commits:
  assumes "b \<le> 0" "client_ok s" "lfd s = 0" "srv s = Up sr" "mon_inv (mon sr)"
    and "mfind (transactions (mon sr)) who = Some (tid s)" "\<not> preempted (tid s) (mon sr)" "\<not> error_occured s"
  shows "tx_read (monitor_tpm ef clk bye_bad who) bad b s = Throw TE_ABORT s \<and>
    tx_write (monitor_tpm ef clk bye_bad who) bad b v s = Throw TE_ABORT s \<and>
    tx_release (monitor_tpm ef clk bye_bad who) bad b s = Throw TE_ABORT s \<and>
    (\<exists>s'. destruct (monitor_tpm ef clk bye_bad who) no_faults s = Done () s' \<and>
       (\<forall>c. store_view (files s') c = view s c))"
  using destruct_succeeds [OF assms(2-8), of ef clk bye_bad] assms(1)
  by (auto simp: tx_read_def tx_write_def tx_release_def throw_abort_def)

lemma invalid_block_commits_witness:
  "tx_read mon_tpm no_faults 0 writer_client = Throw TE_ABORT writer_client \<and>
   (\<exists>s'. destruct mon_tpm no_faults writer_client = Done () s' \<and> store_view (files s') 1 = Some zeros)"
proof -
  have w: "client_ok writer_client" "lfd writer_client = 0" "srv writer_client = Up young_server"
    "mfind (transactions (mon young_server)) 5 = Some (tid writer_client)" "\<not> error_occured writer_client"
    "\<not> preempted (tid writer_client) (mon young_server)" "view writer_client 1 = Some zeros"
    using clients_ok young_entry by (simp_all add: writer_client_def writer_view preempted_stat_of)
  have "mon_inv (mon young_server)" by (simp add: young_server_def tables_inv)
  from invalid_block_commits [OF _ w(1-3) this w(4,6,5), of 0 front_zero "\<lambda>_. 10" no_faults no_faults zeros] w(7) show ?thesis by auto
qed

text \<open>C38: A defect: when a write to a block held under a read lock throws for any reason, the read buffer has been deleted but oldval still points to it, and the destructor deletes it again.\<close>

theorem refused_upgrade_double_free:
  assumes "client_ok s" "mfind (bmap s) b = Some mb" "lock mb = R_LOCK"
    and "tx_write T bad b v s = Throw e s'" "b > 0"
  shows "destruct T bad s' = Wrong"
  by (rule refused_upgrade [OF assms])

lemma refused_upgrade_double_free_witness:
  "\<exists>s'. tx_write calm_tpm {ReadIndex 1} 1 zeros reader_process = Throw TE_ABORT s' \<and>
     destruct calm_tpm {ReadIndex 1} s' = Wrong"
proof -
  obtain s' where t: "tx_write calm_tpm {ReadIndex 1} 1 zeros reader_process = Throw TE_ABORT s'"
    using reader_upgrade_fails by blast
  from refused_upgrade_double_free [OF reader_ok reader_entry(1) reader_entry(2) t] t show ?thesis by auto
qed

text \<open>C39: A defect: hang_up leaves the descriptor in clients, so when the next connection that is accepted gets the same number, clients lists it twice. If in a later round, with no other client accepted since, its new owner hangs up (outside a commit that loops), none of the clients listed before the old entry has input and at least one other client has, the daemon reads from the closed descriptor and exits, and all transactions in progress with it.\<close>

theorem reused_descriptor_kills_daemon:
  assumes "hang_up S bad0 c s0 = Done () s1" "c \<in> set (clients s0)" "same_lists s1 s2"
    and "sys_accept S (msock s2) (os (net s2)) = Ret (c, a, y)" "accept_client S s2 = Done () s3" "same_lists s3 s"
    and "c \<in> rd" "msock s \<notin> rd" "rd \<inter> set (takeWhile (\<lambda>d. d \<noteq> c) (clients s0)) = {}" "2 \<le> ready"
    and "sys_recv S c TRQ_SIZE (os (net s)) = Ret (Some [], x)"
    and "client_disconnect bad c (lsrv s) = Done () v"
    and "\<And>y. \<exists>z. sys_recv S c TRQ_SIZE (sys_close S c y) = Ret (None, z)"
  shows "clients s = c # clients s0 \<and>
    (\<exists>s'. after_select S (serve_client S ef clk bad) rd ready s = Quit s')"
  by (rule reused_descriptor [OF assms])

lemma reused_descriptor_kills_daemon_witness:
  "\<exists>s'. after_select queue_sockets (serve_client queue_sockets front_zero (\<lambda>_ _. 10) no_faults) {5, 6} 2
     (daemon_at twice_listed [5, 5, 6]) = Quit s'"
proof -
  let ?was = "daemon_at hung_up [5, 6]" and ?s = "daemon_at twice_listed [5, 5, 6]"
  obtain s3 where s3: "accept_client queue_sockets five_waits = Done () s3" "same_lists s3 ?s"
    using five_again(2) by blast
  have sl: "same_lists ((daemon_at (hung_up\<lparr>opened := {6}\<rparr>) [5, 6])\<lparr>everyone := {3, 6}\<rparr>) five_waits"
    by (simp add: same_lists_def five_waits_def) (simp add: daemon_at_def)
  have c: "(5 :: fd) \<in> set (clients ?was)" "(5 :: fd) \<in> {5, 6}" "msock ?s \<notin> {5, 6}"
    "{5, 6} \<inter> set (takeWhile (\<lambda>d. d \<noteq> 5) (clients ?was)) = {}" "(2 :: int) \<le> 2" by simp_all
  have r: "sys_recv queue_sockets 5 TRQ_SIZE (os (net ?s)) = Ret (Some [], twice_listed)"
    using twice_listed_recv by (simp add: queue_sockets_def)
  have "\<exists>z. sys_recv queue_sockets 5 TRQ_SIZE (sys_close queue_sockets 5 y) = Ret (None, z)" for y
    by (simp add: closed_recv)
  from reused_descriptor_kills_daemon [OF five_left c(1) sl five_again(1) s3 c(2-5) r no_transaction_disconnect this]
  show ?thesis by blast
qed

text \<open>C40: A defect: recv may deliver a message in pieces and scratch_trq keeps its old bytes, so after a first piece of 8 bytes the daemon executes the previous message, of whichever client, under the transaction number of the new one.\<close>

theorem short_read_mixes_messages:
  assumes "sys_recv S c TRQ_SIZE (os (net s)) = Ret (Some (take 8 (encode_wire a)), x)"
    and "scratch s = encode_wire b"
  shows "serve_client S ef clk bad c s =
    serve_message S ef clk c (s\<lparr>net := (net s)\<lparr>os := x\<rparr>, scratch := encode_wire (b\<lparr>w_tid := w_tid a\<rparr>)\<rparr>)"
  by (rule short_read [OF assms])

lemma short_read_mixes_messages_witness:
  "let old = to_wire (rq_of 1 5 WRITE 4); new = to_wire (rq_of 2 6 COMMIT 0);
       h = quiet_host\<lparr>opened := {6}, inbox := (\<lambda>_. [])(6 := [take 8 (encode_wire new)])\<rparr>;
       s = (daemon_at h [6])\<lparr>scratch := encode_wire old\<rparr>
   in serve_client queue_sockets front_zero (\<lambda>_ _. 10) no_faults 6 s =
        serve_message queue_sockets front_zero (\<lambda>_ _. 10) 6
          (s\<lparr>net := (net s)\<lparr>os := h\<lparr>inbox := (\<lambda>_. [])\<rparr>\<rparr>, scratch := encode_wire (to_wire (rq_of 2 5 WRITE 4))\<rparr>)"
proof -
  let ?old = "to_wire (rq_of 1 5 WRITE 4)" and ?new = "to_wire (rq_of 2 6 COMMIT 0)"
  let ?h = "quiet_host\<lparr>opened := {6}, inbox := (\<lambda>_. [])(6 := [take 8 (encode_wire ?new)])\<rparr>"
  let ?s = "(daemon_at ?h [6])\<lparr>scratch := encode_wire ?old\<rparr>"
  have "encode_wire ?new \<noteq> []" by (metis length_encode list.size(3) TRQ_SIZE_def zero_neq_numeral)
  then have "sys_recv queue_sockets 6 TRQ_SIZE (os (net ?s)) =
      Ret (Some (take 8 (encode_wire ?new)), ?h\<lparr>inbox := (\<lambda>_. [])\<rparr>)"
    by (simp add: queue_sockets_def host_recv_def quiet_host_def TRQ_SIZE_def fun_eq_iff)
  moreover have "?old\<lparr>w_tid := w_tid ?new\<rparr> = to_wire (rq_of 2 5 WRITE 4)" by (simp add: to_wire_def rq_of_def)
  ultimately show ?thesis
    using short_read_mixes_messages [of queue_sockets 6 ?s ?new "?h\<lparr>inbox := (\<lambda>_. [])\<rparr>" ?old front_zero "\<lambda>_ _. 10" no_faults]
    by (simp add: Let_def)
qed

section \<open>Further facts\<close>

text \<open>Whatever fails on the disk, commit of a served client ends in a return, an exception or exit; it never blocks and never runs into undefined behaviour.\<close>

theorem commit_always_ends:
  assumes "client_ok s" "lfd s = 0" "served who s"
  shows "\<exists>s'. final (commit (monitor_tpm ef clk no_faults who) bad s) = Some s'"
  by (rule commit_finishes [OF assms])

text \<open>BEGIN hands out a number that is larger than every live one, registers the connection and grants or revokes no lock.\<close>

theorem begin_gets_fresh_number:
  assumes "process_clientrq ef clk rq who m = Ret (m', r)" "rq_request rq = BEGIN" "mon_inv m"
  shows "rq_reply r = OK \<and> rq_tid r = next_tid m \<and> rq_pid r = rq_pid rq \<and>
    \<not> known m (rq_tid r) \<and> (\<forall>x. known m x \<longrightarrow> x < rq_tid r) \<and>
    stat_of m' (rq_tid r) = Some BEGUN \<and> mfind (transactions m') who = Some (rq_tid r) \<and>
    (\<forall>b. holders m' b = holders m b)"
  by (rule begin_fresh [OF assms])

text \<open>A transaction that is the only reader of a block gets its WRITE request granted at once and nobody is preempted.\<close>

theorem sole_reader_may_write:
  assumes "readers (holders m b) = [t]" "rq_request rq = WRITE" "rq_tid rq = t" "rq_block rq = b"
    and "\<not> preempted t m"
  shows "\<exists>m'. process_clientrq ef clk rq who m = Ret (m', swapped_reply rq OK) \<and>
    readers (holders m' b) = [] \<and> writer (holders m' b) = t \<and> (\<forall>x. x \<noteq> t \<longrightarrow> stat_of m' x = stat_of m x)"
  by (rule sole_reader_upgrades [OF assms])

text \<open>The disconnect of a transaction that is not committing touches no file and only drops the client from the tables.\<close>

theorem quiet_disconnect:
  assumes "mon_inv (mon s)" "mfind (transactions (mon s)) who = Some t"
    and "stat_of (mon s) t \<noteq> Some COMMITTING"
  shows "client_disconnect bad who s = Done () (s\<lparr>mon := drop_client who t (mon s)\<rparr>)"
  by (rule disconnect_quiet [OF assms])

text \<open>Online rollback undoes the newest record first and offline recovery the oldest first; on the records of one commit, at most one per block, both give the same files.\<close>

theorem undo_order_irrelevant:
  assumes "\<forall>r \<in> set rs. rec_ok (dsk s) r" "one_per_block rs"
  shows "undo_rec no_faults (rev rs) s = undo_rec no_faults rs s"
  using undo_rec_all [of rs s] undo_rec_all [of "rev rs" s] undo_all_rev [OF assms] assms(1) by simp

text \<open>The recovery program undoes every open transaction of the log; running it again changes no file.\<close>

theorem recovery_is_idempotent:
  assumes "\<forall>r \<in> set (log_f d). rec_ok d r"
  shows "\<exists>l. recover_main no_faults d = Done () l \<and>
    same_files (dsk l) (undo_all (concat (map snd (collect (log_f d)))) d) \<and>
    recover_main no_faults (dsk l) = Done () \<lparr>logfd = 0, dsk = dsk l\<rparr>"
  by (rule recover_again [OF assms])

text \<open>A whole transaction: when Begin(T) body End(T) returns, the datastore has moved from its old to its new content exactly as the body, run alone on a map from blocks to contents, moves that map.\<close>

theorem transaction_is_serial:
  assumes "run_once (monitor_tpm ef clk no_faults who) bad p
      (exec (monitor_tpm ef clk no_faults who) bad scr) s = Done u s'"
    and "srv s = Up sr" "mon_inv (mon sr)" "mfind (transactions (mon sr)) who = None" "next_tid (mon sr) \<noteq> -1"
    and "files_ok (files s)" "mem_ok (heap s)"
  shows "\<exists>\<sigma>. runs_to scr (store_view (files s)) \<sigma> \<and> (\<forall>b. store_view (files s') b = \<sigma> b)"
  by (rule transaction_serial [OF assms])

text \<open>Until the commit no call sequence changes a file, the transaction number or the log position, however it ends.\<close>

theorem writes_are_deferred:
  assumes "quiet_tpm T" "final (exec T bad scr s) = Some s'"
  shows "files s' = files s \<and> tid s' = tid s \<and> lfd s' = lfd s"
  by (rule quiet_tpm.exec_defers_writes [OF assms])

text \<open>A read that returns yields a live buffer with the content of the block in the transaction view; nothing else changes.\<close>

theorem read_returns_view:
  assumes "quiet_tpm T" "tx_read T bad b s = Done p s'" "client_ok s"
  shows "client_ok s' \<and> files s' = files s \<and> view s' = view s \<and> view s b \<noteq> None \<and>
    deref (heap s') p = Ret (the (view s b))"
  using quiet_tpm.tx_read_Done [OF assms] by blast

text \<open>A write that returns hands back the old content and updates exactly that block of the view; the datastore is untouched and the client state stays in order.\<close>

theorem write_updates_view:
  assumes "quiet_tpm T" "tx_write T bad b new s = Done old s'" "client_ok s" "is_block new"
  shows "client_ok s' \<and> files s' = files s \<and> view s b = Some old \<and> view s' = (view s)(b \<mapsto> new)"
  using quiet_tpm.tx_write_Done [OF assms] by blast

text \<open>An allocate that returns yields a block that is valid, free in the index and absent from the view; in the view it now holds BLOCKSIZE zero characters.\<close>

theorem allocate_takes_free_block:
  assumes "quiet_tpm T" "allocate T bad s = Done b s'" "client_ok s"
  shows "client_ok s' \<and> files s' = files s \<and> view s b = None \<and> view s' = (view s)(b \<mapsto> zeros) \<and>
    block_valid (files s) b \<and> dindex (files s) b = CHR ''U''"
  by (rule quiet_tpm.allocate_Done [OF assms])

text \<open>A release that returns removes exactly that block from the view; the files are untouched until the commit.\<close>

theorem release_removes_block:
  assumes "quiet_tpm T" "tx_release T bad b s = Done u s'" "client_ok s"
  shows "client_ok s' \<and> files s' = files s \<and> view s' = (view s)(b := None)"
  by (rule quiet_tpm.tx_release_Done [OF assms])

text \<open>Every exception out of a library call with a positive block number leaves the error flag set, so the destructor does not commit.\<close>

theorem exceptions_set_flag:
  assumes "b > 0"
    and "(\<exists>e. allocate T bad s = Throw e s') \<or> (\<exists>e. tx_read T bad b s = Throw e s') \<or>
      (\<exists>e. tx_write T bad b v s = Throw e s') \<or> (\<exists>e. tx_release T bad b s = Throw e s')"
  shows "error_occured s'"
  using assms by (auto dest: throw_sets_flag)

text \<open>The test program st3: after it, either nothing has changed, or block 1 holds C, one block that was free holds D, block 2 holds K, block 5 is free, and every other block is as before; the block it allocates and releases again leaves no trace.\<close>

theorem st3_all_or_nothing:
  assumes "attempt_start who N d s" "unat N + (6 - unat (last_sleep s)) < 2 ^ 64 - 1"
    and "transaction_loop (monitor_tpm ef clk no_faults who) bad p
      (exec (monitor_tpm ef clk no_faults who) bad st3) s = Some r"
    and "final r = Some s'" "mon_bye no_faults who (files s') (srv s') = (d', dm)"
  shows "(\<exists>nb. nb \<noteq> 1 \<and> nb \<noteq> 5 \<and> store_view d nb = None \<and>
      store_view d' = (store_view d)(1 \<mapsto> block_of (CHR ''C''), nb \<mapsto> block_of (CHR ''D''), 5 := None,
        2 \<mapsto> block_of (CHR ''K''))) \<or>
    store_view d' = store_view d"
proof -
  have "serial_or_nothing st3 d who (\<exists>u. r = Done u s') s'"
    by (rule loop_serial_or_nothing [OF assms(1) assms(2) [folded tries_left_def] _ assms(3,4)]) simp
  then have "(\<exists>\<sigma>. runs_to st3 (store_view d) \<sigma> \<and> store_view d' = \<sigma>) \<or> store_view d' = store_view d"
    using assms(5) by (auto simp: serial_or_nothing_def fun_eq_iff [symmetric])
  then show ?thesis using runs_to_st3 [of "store_view d" "store_view d'"] by blast
qed

text \<open>The test program st5, which writes a block and then calls abort(): however it ends, the datastore is unchanged, and it never gets past End(T).\<close>

theorem st5_changes_nothing:
  assumes "attempt_start who N d s" "unat N + (6 - unat (last_sleep s)) < 2 ^ 64 - 1"
    and "transaction_loop (monitor_tpm ef clk no_faults who) bad p
      (exec (monitor_tpm ef clk no_faults who) bad st5) s = Some r"
    and "final r = Some s'" "mon_bye no_faults who (files s') (srv s') = (d', dm)"
  shows "store_view d' = store_view d \<and> (\<forall>u. r \<noteq> Done u s')"
proof -
  have "serial_or_nothing st5 d who (\<exists>u. r = Done u s') s'"
    by (rule loop_serial_or_nothing [OF assms(1) assms(2) [folded tries_left_def] _ assms(3,4)]) simp
  then show ?thesis using runs_to_st5 assms(5) by (auto simp: serial_or_nothing_def)
qed

text \<open>A defect: connectSocket hands the binary address of gethostbyname to inet_pton and takes its result 0 (no address) for success, so whatever the host name, it connects to the address that clientaddr held before, which is 0.0.0.0, the own machine, in a new object.\<close>

theorem host_name_ignored:
  assumes "pton_doc (sys_pton S)" "connectSocket S sock host port s = Done () s'" "tcp s = new_transport"
    and "\<And>bs herr o'. sys_gethost S host (os s) = (Some bs, herr, o') \<Longrightarrow> length bs = 4"
  shows "clientaddr (tcp s') = \<lparr>sin_family = AF_INET, sin_port = htons port, sin_addr = 0\<rparr> \<and>
    (\<exists>rc o1. sys_connect S sock (clientaddr (tcp s')) o1 = (rc, os s') \<and> 0 \<le> rc)"
proof -
  have "sin_addr (clientaddr (tcp s)) = 0" using assms(3) by (simp add: new_transport_def no_address_def)
  then show ?thesis using connect_ignores_host [OF assms(1,2)] assms(4) by metis
qed

end
